(* ===== verification/Prelude.thy ===== *)
theory Prelude
  imports Main "HOL-Library.Multiset" "HOL-Library.Monad_Syntax" "HOL-Library.Signed_Division"
begin

section \<open>Shared vocabulary of the models\<close>

text \<open>
  What every component below uses of C++ and its standard library: machine integers as
  \<^typ>\<open>int\<close> with a range check that fails where the language leaves overflow undefined,
  arrays as lists whose out-of-range accesses fail, and the generic lemmas about them.

  Code whose only abnormal outcome is undefined behaviour (an access outside an array, a signed
  overflow) has result type \<^typ>\<open>'a option\<close>: \<open>None\<close> is undefined behaviour, and a
  theorem that the code returns \<open>Some\<close> says in particular that it never runs into it.
  Code with more than one abnormal outcome uses \<open>fault + 'a\<close> with the fault named.
\<close>

named_theorems in_range
  \<comment> \<open>checked operations on arguments that are in range\<close>

subsection \<open>Signed machine integers\<close>

definition in_i32 :: "int \<Rightarrow> bool" where
  "in_i32 x \<longleftrightarrow> - (2 ^ 31) \<le> x \<and> x < 2 ^ 31"

definition in_i64 :: "int \<Rightarrow> bool" where
  "in_i64 x \<longleftrightarrow> - (2 ^ 63) \<le> x \<and> x < 2 ^ 63"

text \<open>The result of an operation on \<open>int\<close> operands: undefined when it does not fit.\<close>

definition i32 :: "int \<Rightarrow> int option" where
  "i32 x = (if in_i32 x then Some x else None)"

lemma i32_in_range [in_range]: "- (2 ^ 31) \<le> x \<Longrightarrow> x < 2 ^ 31 \<Longrightarrow> i32 x = Some x"
  by (simp add: i32_def in_i32_def)

lemma i32_Some_iff: "i32 x = Some y \<longleftrightarrow> y = x \<and> in_i32 x"
  by (auto simp: i32_def)

lemma option_bind_cong [fundef_cong]:
  "m = m' \<Longrightarrow> (\<And>x. m' = Some x \<Longrightarrow> f x = g x) \<Longrightarrow> Option.bind m f = Option.bind m' g"
  by (cases m') auto

text \<open>C++ division truncates; on a non-negative dividend it is \<open>div\<close>.\<close>

lemma sdiv_nonneg: "0 \<le> a \<Longrightarrow> 0 < b \<Longrightarrow> a sdiv b = a div (b :: int)"
  by (cases "a = 0") (auto simp: signed_divide_int_def)

lemma smod_nonneg: "0 \<le> a \<Longrightarrow> 0 < b \<Longrightarrow> a smod b = a mod (b :: int)"
  by (cases "a = 0") (auto simp: signed_modulo_int_def)

subsection \<open>Arrays\<close>

text \<open>A C++ array: an index outside it is undefined behaviour for reads and writes alike.\<close>

definition rd :: "'a list \<Rightarrow> int \<Rightarrow> 'a option" where
  "rd v i = (if 0 \<le> i \<and> i < int (length v) then Some (v ! nat i) else None)"

definition wr :: "'a list \<Rightarrow> int \<Rightarrow> 'a \<Rightarrow> 'a list option" where
  "wr v i x = (if 0 \<le> i \<and> i < int (length v) then Some (v[nat i := x]) else None)"

text \<open>\<open>std::swap(v[i], v[j])\<close>.\<close>

definition swap_at :: "'a list \<Rightarrow> int \<Rightarrow> int \<Rightarrow> 'a list option" where
  "swap_at v i j = do { a \<leftarrow> rd v i; b \<leftarrow> rd v j; v' \<leftarrow> wr v i b; wr v' j a }"

text \<open>The element at an index that is known to be in range, and the array after an update.\<close>

definition elem :: "'a list \<Rightarrow> int \<Rightarrow> 'a" where
  "elem v i = v ! nat i"

definition swapped :: "'a list \<Rightarrow> int \<Rightarrow> int \<Rightarrow> 'a list" where
  "swapped v i j = v[nat i := elem v j, nat j := elem v i]"

lemma rd_in_range [in_range]: "0 \<le> i \<Longrightarrow> i < int (length v) \<Longrightarrow> rd v i = Some (elem v i)"
  by (simp add: rd_def elem_def)

lemma wr_in_range [in_range]: "0 \<le> i \<Longrightarrow> i < int (length v) \<Longrightarrow> wr v i x = Some (v[nat i := x])"
  by (simp add: wr_def)

lemma swap_at_in_range [in_range]:
  "0 \<le> i \<Longrightarrow> i < int (length v) \<Longrightarrow> 0 \<le> j \<Longrightarrow> j < int (length v) \<Longrightarrow>
   swap_at v i j = Some (swapped v i j)"
  by (simp add: swap_at_def swapped_def in_range)

lemma rd_None_iff: "rd v i = None \<longleftrightarrow> i < 0 \<or> int (length v) \<le> i"
  by (auto simp: rd_def)

lemma length_swapped [simp]: "length (swapped v i j) = length v"
  by (simp add: swapped_def)

lemma mset_swapped [simp]:
  assumes "0 \<le> i" "i < int (length v)" "0 \<le> j" "j < int (length v)"
  shows "mset (swapped v i j) = mset v"
proof -
  have "nat i < length v" "nat j < length v" using assms by auto
  then show ?thesis by (simp add: swapped_def elem_def mset_swap)
qed

lemma elem_update:
  "0 \<le> i \<Longrightarrow> i < int (length v) \<Longrightarrow> 0 \<le> k \<Longrightarrow> elem (v[nat i := x]) k = (if k = i then x else elem v k)"
  by (auto simp: elem_def nth_list_update)

lemma elem_swapped:
  assumes "0 \<le> i" "i < int (length v)" "0 \<le> j" "j < int (length v)" "0 \<le> k"
  shows "elem (swapped v i j) k = (if k = j then elem v i else if k = i then elem v j else elem v k)"
  using assms by (auto simp: swapped_def elem_def nth_list_update)

text \<open>Two arrays of one length that agree at every index are equal.\<close>

lemma list_eq_by_elem:
  assumes "length v = length w" and "\<And>k. 0 \<le> k \<Longrightarrow> k < int (length v) \<Longrightarrow> elem v k = elem w k"
  shows "v = w"
proof (rule nth_equalityI)
  fix i assume "i < length v"
  with assms(2)[of "int i"] show "v ! i = w ! i" by (simp add: elem_def)
qed (fact assms(1))

subsection \<open>Faults\<close>

text \<open>
  The abnormal outcomes that the models of stateful components tell apart: undefined behaviour by
  its cause, a failed \<open>assert\<close>, and the exceptions of the standard library.
\<close>

datatype fault =
    NullDeref
  | EndDeref \<comment> \<open>an end iterator is dereferenced\<close>
  | UseAfterFree
  | UninitRead \<comment> \<open>an object is read before it has a value\<close>
  | OutOfBounds
  | IntOverflow
  | BadCast \<comment> \<open>a value computed from a \<open>double\<close> does not fit an integer\<close>
  | AssertFailed
  | BadAlloc
  | StillWaiting \<comment> \<open>the call has not returned: what the environment was given to do is used up\<close>
  | Killed \<comment> \<open>a signal that nobody handles has ended the process\<close>
  | CorruptObject \<comment> \<open>raw bytes are written over an object with pointers of its own\<close>
  | RuntimeError string

definition bindE :: "'e + 'a \<Rightarrow> ('a \<Rightarrow> 'e + 'b) \<Rightarrow> 'e + 'b" where
  "bindE m f = (case m of Inl e \<Rightarrow> Inl e | Inr x \<Rightarrow> f x)"

definition or_fault :: "'e \<Rightarrow> 'a option \<Rightarrow> 'e + 'a" where
  "or_fault e m = (case m of None \<Rightarrow> Inl e | Some x \<Rightarrow> Inr x)"

lemma bindE_simps [simp]: "bindE (Inl e) f = Inl e" "bindE (Inr x) f = f x"
  by (simp_all add: bindE_def)

lemma or_fault_simps [simp]: "or_fault e None = Inl e" "or_fault e (Some x) = Inr x"
  by (simp_all add: or_fault_def)

lemma bindE_assoc: "bindE (bindE m f) g = bindE m (\<lambda>x. bindE (f x) g)"
  by (cases m) auto

lemma bindE_Inr_iff: "bindE m f = Inr y \<longleftrightarrow> (\<exists>x. m = Inr x \<and> f x = Inr y)"
  by (cases m) auto

lemma or_fault_Inr_iff: "or_fault e m = Inr y \<longleftrightarrow> m = Some y"
  by (cases m) auto

lemma bindE_cong [fundef_cong]:
  "m = m' \<Longrightarrow> (\<And>x. m' = Inr x \<Longrightarrow> f x = g x) \<Longrightarrow> bindE m f = bindE m' g"
  by (cases m') auto

lemmas result_iff = bindE_Inr_iff or_fault_Inr_iff

subsection \<open>Outcomes, and sequences of operations\<close>

text \<open>
  \<open>outcome F P r\<close>: the result \<open>r\<close> is a fault that \<open>F\<close> allows or a value with property \<open>P\<close>.
  \<open>steps\<close> runs a list of operations and stops at the first fault.
\<close>

definition outcome :: "('e \<Rightarrow> bool) \<Rightarrow> ('a \<Rightarrow> bool) \<Rightarrow> 'e + 'a \<Rightarrow> bool" where
  "outcome F P r = (case r of Inl e \<Rightarrow> F e | Inr x \<Rightarrow> P x)"

lemma outcome_simps [simp]: "outcome F P (Inl e) = F e" "outcome F P (Inr x) = P x"
  by (simp_all add: outcome_def)

lemma outcome_bindE:
  "outcome F P m \<Longrightarrow> (\<And>x. P x \<Longrightarrow> outcome F Q (f x)) \<Longrightarrow> outcome F Q (bindE m f)"
  by (cases m) auto

lemma outcome_or_fault: "(m = None \<Longrightarrow> F e) \<Longrightarrow> (\<And>x. m = Some x \<Longrightarrow> P x) \<Longrightarrow> outcome F P (or_fault e m)"
  by (cases m) auto

lemma outcome_mono: "outcome F P m \<Longrightarrow> (\<And>x. P x \<Longrightarrow> Q x) \<Longrightarrow> outcome F Q m"
  by (cases m) auto

lemma outcome_Inr: "outcome F P m \<Longrightarrow> m = Inr x \<Longrightarrow> P x"
  by simp

lemma outcome_Inl: "outcome F P m \<Longrightarrow> m = Inl e \<Longrightarrow> F e"
  by simp

text \<open>The result is a value, and has a property: what a run on a concrete input is checked for.\<close>

definition yields :: "('a \<Rightarrow> bool) \<Rightarrow> 'e + 'a \<Rightarrow> bool" where
  "yields P r = (case r of Inl _ \<Rightarrow> False | Inr x \<Rightarrow> P x)"

lemma yields_Inr [simp]: "yields P (Inr x) = P x"
  by (simp add: yields_def)

lemma yieldsE:
  assumes "yields P r"
  obtains x where "r = Inr x" "P x"
  using assms by (cases r) (simp_all add: yields_def)

fun steps :: "('a \<Rightarrow> 's \<Rightarrow> 'e + 's) \<Rightarrow> 'a list \<Rightarrow> 's \<Rightarrow> 'e + 's" where
  "steps f [] s = Inr s"
| "steps f (a # as) s = bindE (f a s) (steps f as)"

lemma steps_append: "steps f (as @ bs) s = bindE (steps f as s) (steps f bs)"
proof (induction as arbitrary: s)
  case (Cons a as)
  then show ?case by (cases "f a s") simp_all
qed simp

text \<open>
  The contract of a component's operations: from a state that satisfies the invariant, an operation
  ends in an allowed fault, or in a state that satisfies it again and is related to the first one.
\<close>

locale safe_ops =
  fixes step :: "'a \<Rightarrow> 's \<Rightarrow> 'e + 's"
    and inv :: "'s \<Rightarrow> bool"
    and rel :: "'s \<Rightarrow> 's \<Rightarrow> bool"
    and allowed :: "'e \<Rightarrow> bool"
  assumes rel_refl: "rel s s"
    and rel_trans: "rel s s' \<Longrightarrow> rel s' s'' \<Longrightarrow> rel s s''"
    and step_safe: "inv s \<Longrightarrow> outcome allowed (\<lambda>s'. inv s' \<and> rel s s') (step a s)"
begin

lemma steps_safe: "inv s \<Longrightarrow> outcome allowed (\<lambda>s'. inv s' \<and> rel s s') (steps step as s)"
proof (induction as arbitrary: s)
  case Nil
  then show ?case by (simp add: rel_refl)
next
  case (Cons a as)
  show ?case
    unfolding steps.simps
  proof (rule outcome_bindE[OF step_safe[OF Cons.prems]])
    fix x assume x: "inv x \<and> rel s x"
    then show "outcome allowed (\<lambda>s'. inv s' \<and> rel s s') (steps step as x)"
      by (blast intro: outcome_mono[OF Cons.IH] rel_trans)
  qed
qed

lemma steps_inv: "inv s \<Longrightarrow> steps step as s = Inr s' \<Longrightarrow> inv s'"
  using outcome_Inr[OF steps_safe] by blast

lemma steps_rel: "inv s \<Longrightarrow> steps step as s = Inr s' \<Longrightarrow> rel s s'"
  using outcome_Inr[OF steps_safe] by blast

lemma steps_fault: "inv s \<Longrightarrow> steps step as s = Inl e \<Longrightarrow> allowed e"
  using outcome_Inl[OF steps_safe] by blast

end

text \<open>
  A component that also has a functional specification: what an operation does to the abstraction of
  the state depends on that abstraction alone.
\<close>

locale refining_ops = safe_ops +
  fixes abs :: "'s \<Rightarrow> 'b"
    and spec :: "'a \<Rightarrow> 'b \<Rightarrow> 'b"
  assumes step_abs: "inv s \<Longrightarrow> step a s = Inr s' \<Longrightarrow> abs s' = spec a (abs s)"
begin

lemma steps_abs: "inv s \<Longrightarrow> steps step as s = Inr s' \<Longrightarrow> abs s' = fold spec as (abs s)"
proof (induction as arbitrary: s)
  case (Cons a as)
  then obtain s1 where s1: "step a s = Inr s1" "steps step as s1 = Inr s'" by (auto simp: bindE_Inr_iff)
  then have "inv s1" using outcome_Inr[OF step_safe[OF Cons.prems(1)]] by blast
  then show ?case using Cons.IH s1 step_abs[OF Cons.prems(1) s1(1)] by simp
qed simp

end

end
