(* ===== verification/Sort_Spec.thy ===== *)
theory Sort_Spec
  imports Prelude
begin

section \<open>What a sorting routine of \<open>sort_algo\<close> promises\<close>

text \<open>
  Every file of \<^verbatim>\<open>src/sort_algo\<close> has a function \<open>(int vec[], int start, int end)\<close> that sorts in
  place, \<open>end\<close> inclusive. The contract is stated on the array before and after: the range is
  sorted, the array is a permutation of the old one, and no element outside the range moved.
  \<open>sort_range\<close> is the functional reference: the only array that meets the contract.

  Two locales state the interface: \<open>prefix_sort\<close> for routines that are correct from index 0,
  and \<open>range_sort\<close>, which extends it, for routines that are correct on every subrange.
\<close>

definition slice :: "'a list \<Rightarrow> int \<Rightarrow> int \<Rightarrow> 'a list" where
  "slice v lo hi = map (elem v) [lo..hi]"

definition sorted_on :: "int list \<Rightarrow> int \<Rightarrow> int \<Rightarrow> bool" where
  "sorted_on v lo hi \<longleftrightarrow> (\<forall>i j. lo \<le> i \<and> i \<le> j \<and> j \<le> hi \<longrightarrow> elem v i \<le> elem v j)"

definition same_outside :: "'a list \<Rightarrow> 'a list \<Rightarrow> int \<Rightarrow> int \<Rightarrow> bool" where
  "same_outside v w lo hi \<longleftrightarrow> length w = length v \<and>
     (\<forall>k. 0 \<le> k \<and> k < int (length v) \<and> (k < lo \<or> hi < k) \<longrightarrow> elem w k = elem v k)"

definition permutes_in :: "'a list \<Rightarrow> int \<Rightarrow> int \<Rightarrow> 'a list \<Rightarrow> bool" where
  "permutes_in v lo hi w \<longleftrightarrow> mset w = mset v \<and> same_outside v w lo hi"

definition sorts :: "int list \<Rightarrow> int \<Rightarrow> int \<Rightarrow> int list \<Rightarrow> bool" where
  "sorts v lo hi w \<longleftrightarrow> sorted_on w lo hi \<and> permutes_in v lo hi w"

definition sort_range :: "int list \<Rightarrow> int \<Rightarrow> int \<Rightarrow> int list" where
  "sort_range v lo hi =
     take (nat lo) v @ sort (take (nat (hi + 1 - lo)) (drop (nat lo) v)) @ drop (nat (hi + 1)) v"

subsection \<open>Permutations of a range\<close>

lemma permutes_in_refl [simp, intro]: "permutes_in v lo hi v"
  by (simp add: permutes_in_def same_outside_def)

lemma permutes_in_trans:
  "permutes_in u lo hi v \<Longrightarrow> permutes_in v lo hi w \<Longrightarrow> permutes_in u lo hi w"
  by (auto simp: permutes_in_def same_outside_def)

lemma permutes_in_weaken:
  "permutes_in v lo hi w \<Longrightarrow> lo' \<le> lo \<Longrightarrow> hi \<le> hi' \<Longrightarrow> permutes_in v lo' hi' w"
  by (auto simp: permutes_in_def same_outside_def)

lemma permutes_in_length: "permutes_in v lo hi w \<Longrightarrow> length w = length v"
  by (simp add: permutes_in_def same_outside_def)

lemma permutes_in_outside:
  "permutes_in v lo hi w \<Longrightarrow> 0 \<le> k \<Longrightarrow> k < int (length v) \<Longrightarrow> k < lo \<or> hi < k \<Longrightarrow>
   elem w k = elem v k"
  by (simp add: permutes_in_def same_outside_def)

lemma permutes_in_swapped:
  assumes "0 \<le> lo" "hi < int (length v)" "lo \<le> i" "i \<le> hi" "lo \<le> j" "j \<le> hi"
  shows "permutes_in v lo hi (swapped v i j)"
  using assms by (auto simp: permutes_in_def same_outside_def elem_swapped)

subsection \<open>Slices\<close>

lemma length_slice [simp]: "length (slice v lo hi) = nat (hi - lo + 1)"
  by (simp add: slice_def)

lemma slice_split:
  "lo \<le> m \<Longrightarrow> m \<le> hi + 1 \<Longrightarrow> slice v lo hi = slice v lo (m - 1) @ slice v m hi"
  using upto_split1[of lo m hi] by (cases "m = hi + 1") (auto simp: slice_def)

lemma slice_cong:
  "(\<And>k. lo \<le> k \<Longrightarrow> k \<le> hi \<Longrightarrow> elem v k = elem w k) \<Longrightarrow> slice v lo hi = slice w lo hi"
  by (simp add: slice_def)

lemma slice_eq_take_drop:
  assumes "0 \<le> lo" "hi < int (length v)"
  shows "slice v lo hi = take (nat (hi + 1 - lo)) (drop (nat lo) v)"
proof (rule nth_equalityI)
  show "length (slice v lo hi) = length (take (nat (hi + 1 - lo)) (drop (nat lo) v))"
    using assms by auto
next
  fix i assume i: "i < length (slice v lo hi)"
  then have "nat (lo + int i) = nat lo + i" using assms by simp
  with i assms show "slice v lo hi ! i = take (nat (hi + 1 - lo)) (drop (nat lo) v) ! i"
    by (auto simp: slice_def elem_def nth_upto)
qed

lemma slice_all: "slice v 0 (int (length v) - 1) = v"
  by (simp add: slice_eq_take_drop)

lemma slice_three_parts:
  assumes "0 \<le> lo" "lo \<le> hi + 1" "hi < int (length v)"
  shows "v = slice v 0 (lo - 1) @ slice v lo hi @ slice v (hi + 1) (int (length v) - 1)"
proof -
  have "v = slice v 0 (int (length v) - 1)" by (simp add: slice_all)
  also have "\<dots> = slice v 0 (lo - 1) @ slice v lo (int (length v) - 1)"
    using assms by (intro slice_split) auto
  also have "slice v lo (int (length v) - 1) = slice v lo hi @ slice v (hi + 1) (int (length v) - 1)"
    using assms slice_split[of lo "hi + 1" "int (length v) - 1" v] by simp
  finally show ?thesis .
qed

lemma permutes_in_slice_mset:
  assumes "permutes_in v lo hi w" "0 \<le> lo" "lo \<le> hi + 1" "hi < int (length v)"
  shows "mset (slice w lo hi) = mset (slice v lo hi)"
proof -
  have len: "length w = length v" using assms(1) by (rule permutes_in_length)
  have "slice w 0 (lo - 1) = slice v 0 (lo - 1)"
    using assms by (intro slice_cong permutes_in_outside[OF assms(1)]) auto
  moreover have "slice w (hi + 1) (int (length v) - 1) = slice v (hi + 1) (int (length v) - 1)"
    using assms by (intro slice_cong permutes_in_outside[OF assms(1)]) auto
  moreover have "mset v = mset (slice v 0 (lo - 1)) + mset (slice v lo hi)
      + mset (slice v (hi + 1) (int (length v) - 1))"
    using slice_three_parts[OF assms(2-4)] by (metis mset_append add.assoc)
  moreover have "mset w = mset (slice w 0 (lo - 1)) + mset (slice w lo hi)
      + mset (slice w (hi + 1) (int (length v) - 1))"
    using slice_three_parts[of lo hi w] assms(2-4) len by (metis mset_append add.assoc)
  moreover have "mset w = mset v" using assms(1) by (simp add: permutes_in_def)
  ultimately show ?thesis by simp
qed

lemma permutes_in_by_slice:
  assumes "same_outside v w lo hi" "0 \<le> lo" "lo \<le> hi + 1" "hi < int (length v)"
    and "mset (slice w lo hi) = mset (slice v lo hi)"
  shows "permutes_in v lo hi w"
proof -
  have len: "length w = length v" using assms(1) by (simp add: same_outside_def)
  have "slice w 0 (lo - 1) = slice v 0 (lo - 1)"
    using assms by (intro slice_cong) (auto simp: same_outside_def)
  moreover have "slice w (hi + 1) (int (length v) - 1) = slice v (hi + 1) (int (length v) - 1)"
    using assms by (intro slice_cong) (auto simp: same_outside_def)
  moreover have "mset v = mset (slice v 0 (lo - 1)) + mset (slice v lo hi)
      + mset (slice v (hi + 1) (int (length v) - 1))"
    using slice_three_parts[OF assms(2-4)] by (metis mset_append add.assoc)
  moreover have "mset w = mset (slice w 0 (lo - 1)) + mset (slice w lo hi)
      + mset (slice w (hi + 1) (int (length v) - 1))"
    using slice_three_parts[of lo hi w] assms(2-4) len by (metis mset_append add.assoc)
  ultimately have "mset w = mset v" using assms(5) by simp
  with assms(1) show ?thesis by (simp add: permutes_in_def)
qed

text \<open>Every element of the permuted range comes from the old range.\<close>

lemma permutes_in_source:
  assumes "permutes_in v lo hi w" "0 \<le> lo" "hi < int (length v)" "lo \<le> k" "k \<le> hi"
  obtains k' where "lo \<le> k'" "k' \<le> hi" "elem w k = elem v k'"
proof -
  have "elem w k \<in> set (slice w lo hi)" using assms(4,5) by (auto simp: slice_def)
  also have "set (slice w lo hi) = set (slice v lo hi)"
    using permutes_in_slice_mset[OF assms(1,2) _ assms(3)] assms(4,5) by (auto dest: mset_eq_setD)
  finally show thesis using that by (auto simp: slice_def)
qed

lemma permutes_in_lower:
  assumes "permutes_in v lo hi w" "0 \<le> lo" "hi < int (length v)" "lo \<le> k" "k \<le> hi"
    and "\<And>k'. lo \<le> k' \<Longrightarrow> k' \<le> hi \<Longrightarrow> x \<le> elem v k'"
  shows "x \<le> (elem w k :: int)"
  using permutes_in_source[OF assms(1-5)] assms(6) by metis

lemma permutes_in_upper:
  assumes "permutes_in v lo hi w" "0 \<le> lo" "hi < int (length v)" "lo \<le> k" "k \<le> hi"
    and "\<And>k'. lo \<le> k' \<Longrightarrow> k' \<le> hi \<Longrightarrow> elem v k' \<le> x"
  shows "(elem w k :: int) \<le> x"
  using permutes_in_source[OF assms(1-5)] assms(6) by metis

subsection \<open>Sorted ranges\<close>

lemma sorted_on_iff_slice: "sorted_on v lo hi \<longleftrightarrow> sorted (slice v lo hi)"
proof
  assume s: "sorted_on v lo hi"
  show "sorted (slice v lo hi)"
    using s by (auto simp: sorted_iff_nth_mono slice_def nth_upto sorted_on_def)
next
  assume s: "sorted (slice v lo hi)"
  show "sorted_on v lo hi"
    unfolding sorted_on_def
  proof (intro allI impI)
    fix i j assume ij: "lo \<le> i \<and> i \<le> j \<and> j \<le> hi"
    then have "slice v lo hi ! nat (i - lo) \<le> slice v lo hi ! nat (j - lo)"
      using s by (intro sorted_nth_mono) auto
    then show "elem v i \<le> elem v j" using ij by (simp add: slice_def nth_upto)
  qed
qed

lemma sorted_onD: "sorted_on v lo hi \<Longrightarrow> lo \<le> i \<Longrightarrow> i \<le> j \<Longrightarrow> j \<le> hi \<Longrightarrow> elem v i \<le> elem v j"
  by (simp add: sorted_on_def)

lemma sorted_on_trivial [simp]: "hi \<le> lo \<Longrightarrow> sorted_on v lo hi"
  unfolding sorted_on_def by (metis order.trans order_antisym order_refl)

lemma sorted_on_cong:
  "(\<And>k. lo \<le> k \<Longrightarrow> k \<le> hi \<Longrightarrow> elem v k = elem w k) \<Longrightarrow> sorted_on v lo hi = sorted_on w lo hi"
  by (simp add: sorted_on_iff_slice slice_cong[of lo hi v w])

text \<open>Two sorted ranges with the smaller elements on the left are one sorted range.\<close>

lemma sorted_on_join:
  assumes "sorted_on v lo m" "sorted_on v (m + 1) hi"
    and "\<And>i j. lo \<le> i \<Longrightarrow> i \<le> m \<Longrightarrow> m < j \<Longrightarrow> j \<le> hi \<Longrightarrow> elem v i \<le> elem v j"
  shows "sorted_on v lo hi"
  unfolding sorted_on_def
proof (intro allI impI)
  fix i j assume "lo \<le> i \<and> i \<le> j \<and> j \<le> hi"
  then show "elem v i \<le> elem v j"
    using assms(3)[of i j] sorted_onD[OF assms(1), of i j] sorted_onD[OF assms(2), of i j] by linarith
qed

subsection \<open>The contract determines the result\<close>

lemma sorts_imp_sort_range:
  assumes "sorts v lo hi w" "0 \<le> lo" "lo \<le> hi + 1" "hi < int (length v)"
  shows "w = sort_range v lo hi"
proof -
  have p: "permutes_in v lo hi w" using assms(1) by (simp add: sorts_def)
  have len: "length w = length v" using p by (rule permutes_in_length)
  have "slice w lo hi = sort (slice v lo hi)"
    using permutes_in_slice_mset[OF p assms(2-4)] assms(1)
    by (simp add: sorts_def sorted_on_iff_slice properties_for_sort)
  moreover have "slice w 0 (lo - 1) = slice v 0 (lo - 1)"
    using assms by (intro slice_cong permutes_in_outside[OF p]) auto
  moreover have "slice w (hi + 1) (int (length v) - 1) = slice v (hi + 1) (int (length v) - 1)"
    using assms by (intro slice_cong permutes_in_outside[OF p]) auto
  ultimately have "w = slice v 0 (lo - 1) @ sort (slice v lo hi) @ slice v (hi + 1) (int (length v) - 1)"
    using slice_three_parts[of lo hi w] assms(2-4) len by simp
  also have "\<dots> = sort_range v lo hi"
    using assms(2-4) by (simp add: sort_range_def slice_eq_take_drop)
  finally show ?thesis .
qed

lemma sort_range_whole: "sort_range v 0 (int (length v) - 1) = sort v"
  by (simp add: sort_range_def)

lemma sort_range_sorts:
  assumes "sorts v lo hi w" "0 \<le> lo" "lo \<le> hi + 1" "hi < int (length v)"
  shows "sorts v lo hi (sort_range v lo hi)"
  using assms sorts_imp_sort_range by metis

subsection \<open>The interfaces\<close>

text \<open>
  The bound on the length is the one under which no index computation of the routines
  overflows an \<open>int\<close>: \<open>2 * head + 1\<close> and \<open>start + end\<close> stay below $2^{31}$.
\<close>

abbreviation max_len :: int where
  "max_len \<equiv> 2 ^ 30"

locale prefix_sort =
  fixes srt :: "int list \<Rightarrow> int \<Rightarrow> int \<Rightarrow> int list option"
  assumes prefix_correct:
    "- 1 \<le> hi \<Longrightarrow> hi < int (length v) \<Longrightarrow> int (length v) \<le> max_len \<Longrightarrow>
     \<exists>w. srt v 0 hi = Some w \<and> sorts v 0 hi w"
begin

lemma prefix_result:
  assumes "- 1 \<le> hi" "hi < int (length v)" "int (length v) \<le> max_len"
  shows "srt v 0 hi = Some (sort_range v 0 hi)"
proof -
  obtain w where w: "srt v 0 hi = Some w" "sorts v 0 hi w" using prefix_correct[OF assms] by blast
  then show ?thesis using sorts_imp_sort_range[OF w(2)] assms by simp
qed

lemma whole_result: "int (length v) \<le> max_len \<Longrightarrow> srt v 0 (int (length v) - 1) = Some (sort v)"
  using prefix_result[of "int (length v) - 1" v] by (simp add: sort_range_whole)

end

locale range_sort =
  fixes srt :: "int list \<Rightarrow> int \<Rightarrow> int \<Rightarrow> int list option"
  assumes range_correct:
    "0 \<le> lo \<Longrightarrow> lo \<le> hi + 1 \<Longrightarrow> hi < int (length v) \<Longrightarrow> int (length v) \<le> max_len \<Longrightarrow>
     \<exists>w. srt v lo hi = Some w \<and> sorts v lo hi w"
begin

lemma range_result:
  assumes "0 \<le> lo" "lo \<le> hi + 1" "hi < int (length v)" "int (length v) \<le> max_len"
  shows "srt v lo hi = Some (sort_range v lo hi)"
proof -
  obtain w where w: "srt v lo hi = Some w" "sorts v lo hi w" using range_correct[OF assms] by blast
  then show ?thesis using sorts_imp_sort_range[OF w(2)] assms by simp
qed

end

sublocale range_sort \<subseteq> prefix_sort
  by unfold_locales (auto intro: range_correct)

end
