(* ===== verification/Exchange_Sorts.thy ===== *)
theory Exchange_Sorts
  imports Sort_Spec
begin

section \<open>Bubble, selection and insertion sort\<close>

text \<open>
  \<^verbatim>\<open>src/sort_algo/bubble_sort.cc\<close>, \<^verbatim>\<open>choose_sort.cc\<close> and \<^verbatim>\<open>insert_sort.cc\<close>, each with its two
  nested loops as two recursive functions, every array access and index increment checked.
  The parameter \<open>start\<close> is not read by any of the three: they sort \<open>[0..end]\<close>.
\<close>

subsection \<open>\<open>BubbleSort\<close>\<close>

function bubble_inner :: "int list \<Rightarrow> int \<Rightarrow> int \<Rightarrow> int \<Rightarrow> int list option" where
  "bubble_inner vec i j hi =
     (if j \<le> hi then do {
        a \<leftarrow> rd vec i;
        b \<leftarrow> rd vec j;
        vec' \<leftarrow> (if a > b then swap_at vec i j else Some vec);
        j' \<leftarrow> i32 (j + 1);
        bubble_inner vec' i j' hi
      } else Some vec)"
  by pat_completeness auto
termination
  by (relation "measure (\<lambda>(vec, i, j, hi). nat (hi + 1 - j))") (auto simp: i32_Some_iff)

function bubble_outer :: "int list \<Rightarrow> int \<Rightarrow> int \<Rightarrow> int list option" where
  "bubble_outer vec i hi =
     (if i \<le> hi then do {
        vec' \<leftarrow> bubble_inner vec i i hi;
        i' \<leftarrow> i32 (i + 1);
        bubble_outer vec' i' hi
      } else Some vec)"
  by pat_completeness auto
termination
  by (relation "measure (\<lambda>(vec, i, hi). nat (hi + 1 - i))") (auto simp: i32_Some_iff)

definition BubbleSort :: "int list \<Rightarrow> int \<Rightarrow> int \<Rightarrow> int list option" where
  "BubbleSort vec start hi = bubble_outer vec 0 hi"

subsection \<open>\<open>ChooseSort\<close>\<close>

function choose_inner :: "int list \<Rightarrow> int \<Rightarrow> int \<Rightarrow> int \<Rightarrow> int option" where
  "choose_inner vec tmp j hi =
     (if j \<le> hi then do {
        a \<leftarrow> rd vec tmp;
        b \<leftarrow> rd vec j;
        let tmp' = (if a > b then j else tmp);
        j' \<leftarrow> i32 (j + 1);
        choose_inner vec tmp' j' hi
      } else Some tmp)"
  by pat_completeness auto
termination
  by (relation "measure (\<lambda>(vec, tmp, j, hi). nat (hi + 1 - j))") (auto simp: i32_Some_iff)

function choose_outer :: "int list \<Rightarrow> int \<Rightarrow> int \<Rightarrow> int list option" where
  "choose_outer vec i hi =
     (if i \<le> hi then do {
        tmp \<leftarrow> choose_inner vec i i hi;
        vec' \<leftarrow> swap_at vec i tmp;
        i' \<leftarrow> i32 (i + 1);
        choose_outer vec' i' hi
      } else Some vec)"
  by pat_completeness auto
termination
  by (relation "measure (\<lambda>(vec, i, hi). nat (hi + 1 - i))") (auto simp: i32_Some_iff)

definition ChooseSort :: "int list \<Rightarrow> int \<Rightarrow> int \<Rightarrow> int list option" where
  "ChooseSort vec start hi = choose_outer vec 0 hi"

subsection \<open>\<open>InsertSort\<close>\<close>

function insert_inner :: "int list \<Rightarrow> int \<Rightarrow> int list option" where
  "insert_inner vec j =
     (if j \<ge> 0 then do {
        j1 \<leftarrow> i32 (j + 1);
        b \<leftarrow> rd vec j1;
        a \<leftarrow> rd vec j;
        vec' \<leftarrow> (if b \<le> a then swap_at vec j1 j else Some vec);
        j' \<leftarrow> i32 (j - 1);
        insert_inner vec' j'
      } else Some vec)"
  by pat_completeness auto
termination
  by (relation "measure (\<lambda>(vec, j). nat (j + 1))") (auto simp: i32_Some_iff)

function insert_outer :: "int list \<Rightarrow> int \<Rightarrow> int \<Rightarrow> int list option" where
  "insert_outer vec i hi =
     (if i \<le> hi then do {
        j \<leftarrow> i32 (i - 1);
        vec' \<leftarrow> insert_inner vec j;
        i' \<leftarrow> i32 (i + 1);
        insert_outer vec' i' hi
      } else Some vec)"
  by pat_completeness auto
termination
  by (relation "measure (\<lambda>(vec, i, hi). nat (hi + 1 - i))") (auto simp: i32_Some_iff)

definition InsertSort :: "int list \<Rightarrow> int \<Rightarrow> int \<Rightarrow> int list option" where
  "InsertSort vec start hi = insert_outer vec 0 hi"

declare bubble_inner.simps [simp del] bubble_outer.simps [simp del]
  choose_inner.simps [simp del] choose_outer.simps [simp del]
  insert_inner.simps [simp del] insert_outer.simps [simp del]

text \<open>The index bounds every loop of this theory runs under.\<close>

definition prefix_bounds :: "int list \<Rightarrow> int \<Rightarrow> bool" where
  "prefix_bounds v hi \<longleftrightarrow> hi < int (length v) \<and> int (length v) \<le> max_len"

lemma prefix_boundsD:
  "prefix_bounds v hi \<Longrightarrow> hi < int (length v)" "prefix_bounds v hi \<Longrightarrow> int (length v) \<le> max_len"
  by (simp_all add: prefix_bounds_def)

lemma prefix_bounds_swapped [simp]: "prefix_bounds (swapped v i j) hi = prefix_bounds v hi"
  by (simp add: prefix_bounds_def)

lemma prefix_bounds_permutes: "permutes_in v lo hi' w \<Longrightarrow> prefix_bounds v hi \<Longrightarrow> prefix_bounds w hi"
  by (simp add: prefix_bounds_def permutes_in_length)

subsection \<open>One selection step\<close>

text \<open>
  The outer loops of \<open>BubbleSort\<close> and \<open>ChooseSort\<close> keep one invariant: everything before \<open>i\<close>
  is sorted and no larger than everything from \<open>i\<close> on. A step that brings the minimum of the
  rest to \<open>i\<close> and permutes only the rest keeps it.
\<close>

definition selected :: "int list \<Rightarrow> int \<Rightarrow> int \<Rightarrow> bool" where
  "selected v i hi \<longleftrightarrow> (\<forall>a b. 0 \<le> a \<and> a < i \<and> a \<le> b \<and> b \<le> hi \<longrightarrow> elem v a \<le> elem v b)"

lemma selected_start: "selected v 0 hi"
  by (simp add: selected_def)

lemma selected_done: "selected v i hi \<Longrightarrow> hi < i \<Longrightarrow> sorted_on v 0 hi"
  by (auto simp: selected_def sorted_on_def)

lemma selected_step:
  assumes sel: "selected v i hi" and b: "0 \<le> i" "i \<le> hi" "prefix_bounds v hi"
    and perm: "permutes_in v i hi w"
    and least: "\<And>k. i \<le> k \<Longrightarrow> k \<le> hi \<Longrightarrow> elem w i \<le> elem w k"
  shows "selected w (i + 1) hi"
  unfolding selected_def
proof (intro allI impI)
  fix a c assume ac: "0 \<le> a \<and> a < i + 1 \<and> a \<le> c \<and> c \<le> hi"
  note len = prefix_boundsD[OF b(3)]
  show "elem w a \<le> elem w c"
  proof (cases "a = i")
    case True
    then show ?thesis using least[of c] ac by simp
  next
    case False
    then have a: "elem w a = elem v a"
      using ac b len by (intro permutes_in_outside[OF perm]) auto
    have le: "elem v a \<le> elem v k" if "a \<le> k" "k \<le> hi" for k
      using sel ac False that by (simp add: selected_def)
    show ?thesis
    proof (cases "c < i")
      case True
      then have "elem w c = elem v c"
        using ac b len by (intro permutes_in_outside[OF perm]) auto
      then show ?thesis using a le[of c] ac by simp
    next
      case c: False
      show ?thesis unfolding a
        using ac c b len le by (intro permutes_in_lower[OF perm]) auto
    qed
  qed
qed

subsection \<open>\<open>BubbleSort\<close> is correct\<close>

lemma bubble_inner_result:
  assumes "0 \<le> i" "i \<le> j" "i \<le> hi" "prefix_bounds v hi"
    and "\<And>k. i \<le> k \<Longrightarrow> k < j \<Longrightarrow> elem v i \<le> elem v k"
  shows "\<exists>w. bubble_inner v i j hi = Some w \<and> permutes_in v i hi w \<and>
           (\<forall>k. i \<le> k \<and> k \<le> hi \<longrightarrow> elem w i \<le> elem w k)"
  using assms
proof (induction v i j hi rule: bubble_inner.induct)
  case (1 v i j hi)
  note len = prefix_boundsD[OF "1.prems"(4)]
  show ?case
  proof (cases "j \<le> hi")
    case False
    then show ?thesis using "1.prems" by (auto simp: bubble_inner.simps[of v i j hi])
  next
    case True
    define v' where "v' = (if elem v i > elem v j then swapped v i j else v)"
    have perm: "permutes_in v i hi v'"
      using "1.prems" True len by (auto simp: v'_def intro!: permutes_in_swapped)
    have least: "elem v' i \<le> elem v' k" if "i \<le> k" "k < j + 1" for k
      using "1.prems"(5)[of k] "1.prems"(1-3) that True len by (auto simp: v'_def elem_swapped)
    have "\<exists>w. bubble_inner v' i (j + 1) hi = Some w \<and> permutes_in v' i hi w \<and>
        (\<forall>k. i \<le> k \<and> k \<le> hi \<longrightarrow> elem w i \<le> elem w k)"
      using "1.prems" True len perm least
      by (intro "1.IH"[of "elem v i" "elem v j"])
        (auto simp: in_range v'_def)
    moreover have "bubble_inner v i j hi = bubble_inner v' i (j + 1) hi"
      using "1.prems" True len
      by (simp add: bubble_inner.simps[of v i j hi] in_range v'_def)
    ultimately show ?thesis using perm permutes_in_trans by metis
  qed
qed

lemma bubble_outer_result:
  assumes "0 \<le> i" "prefix_bounds v hi" "selected v i hi"
  shows "\<exists>w. bubble_outer v i hi = Some w \<and> sorts v 0 hi w"
  using assms
proof (induction v i hi rule: bubble_outer.induct)
  case (1 v i hi)
  note len = prefix_boundsD[OF "1.prems"(2)]
  show ?case
  proof (cases "i \<le> hi")
    case False
    then show ?thesis
      using "1.prems" selected_done by (simp add: bubble_outer.simps[of v i hi] sorts_def)
  next
    case True
    obtain w where w: "bubble_inner v i i hi = Some w" "permutes_in v i hi w"
      "\<And>k. i \<le> k \<Longrightarrow> k \<le> hi \<Longrightarrow> elem w i \<le> elem w k"
      using bubble_inner_result[of i i hi v] "1.prems" True by auto
    have next_i: "i32 (i + 1) = Some (i + 1)" using "1.prems" True len by (simp add: in_range)
    obtain u where u: "bubble_outer w (i + 1) hi = Some u" "sorts w 0 hi u"
      using "1.IH"[OF True w(1) next_i] "1.prems" True w prefix_bounds_permutes selected_step
      by (metis add_increasing2 zero_le_one)
    have "permutes_in v 0 hi w" using w(2) "1.prems" by (auto intro: permutes_in_weaken)
    with u have "sorts v 0 hi u" by (auto simp: sorts_def intro: permutes_in_trans)
    then show ?thesis using True w(1) next_i u(1) by (simp add: bubble_outer.simps[of v i hi])
  qed
qed


interpretation bubble: prefix_sort BubbleSort
  using bubble_outer_result by unfold_locales (simp add: BubbleSort_def prefix_bounds_def selected_start)

subsection \<open>\<open>ChooseSort\<close> is correct\<close>

lemma choose_inner_result:
  assumes "0 \<le> i" "i \<le> tmp" "tmp \<le> hi" "i \<le> j" "prefix_bounds v hi"
    and "\<And>k. i \<le> k \<Longrightarrow> k < j \<Longrightarrow> elem v tmp \<le> elem v k"
  shows "\<exists>m. choose_inner v tmp j hi = Some m \<and> i \<le> m \<and> m \<le> hi \<and>
           (\<forall>k. i \<le> k \<and> k \<le> hi \<longrightarrow> elem v m \<le> elem v k)"
  using assms
proof (induction v tmp j hi rule: choose_inner.induct)
  case (1 v tmp j hi)
  note len = prefix_boundsD[OF "1.prems"(5)]
  show ?case
  proof (cases "j \<le> hi")
    case False
    then show ?thesis using "1.prems" by (auto simp: choose_inner.simps[of v tmp j hi])
  next
    case True
    define tmp' where "tmp' = (if elem v tmp > elem v j then j else tmp)"
    have least: "elem v tmp' \<le> elem v k" if "i \<le> k" "k < j + 1" for k
      using "1.prems"(6)[of k] that by (cases "k = j") (auto simp: tmp'_def)
    have "\<exists>m. choose_inner v tmp' (j + 1) hi = Some m \<and> i \<le> m \<and> m \<le> hi \<and>
        (\<forall>k. i \<le> k \<and> k \<le> hi \<longrightarrow> elem v m \<le> elem v k)"
      using "1.prems" True len least
      by (intro "1.IH"[of "elem v tmp" "elem v j"]) (auto simp: in_range tmp'_def)
    moreover have "choose_inner v tmp j hi = choose_inner v tmp' (j + 1) hi"
      using "1.prems" True len by (simp add: choose_inner.simps[of v tmp j hi] in_range tmp'_def)
    ultimately show ?thesis by simp
  qed
qed

lemma choose_outer_result:
  assumes "0 \<le> i" "prefix_bounds v hi" "selected v i hi"
  shows "\<exists>w. choose_outer v i hi = Some w \<and> sorts v 0 hi w"
  using assms
proof (induction v i hi rule: choose_outer.induct)
  case (1 v i hi)
  note len = prefix_boundsD[OF "1.prems"(2)]
  show ?case
  proof (cases "i \<le> hi")
    case False
    then show ?thesis
      using "1.prems" selected_done by (simp add: choose_outer.simps[of v i hi] sorts_def)
  next
    case True
    obtain m where m: "choose_inner v i i hi = Some m" "i \<le> m" "m \<le> hi"
      "\<And>k. i \<le> k \<Longrightarrow> k \<le> hi \<Longrightarrow> elem v m \<le> elem v k"
      using choose_inner_result[of i i hi i v] "1.prems" True by auto
    have swap: "swap_at v i m = Some (swapped v i m)"
      using "1.prems" True len m by (simp add: in_range)
    have perm: "permutes_in v i hi (swapped v i m)"
      using "1.prems" True len m by (intro permutes_in_swapped) auto
    have "elem (swapped v i m) i \<le> elem (swapped v i m) k" if "i \<le> k" "k \<le> hi" for k
      using "1.prems" True len m m(4)[of k] m(4)[of i] that by (auto simp: elem_swapped)
    then have sel: "selected (swapped v i m) (i + 1) hi"
      using "1.prems" True perm selected_step by blast
    have next_i: "i32 (i + 1) = Some (i + 1)" using "1.prems" True len by (simp add: in_range)
    obtain u where u: "choose_outer (swapped v i m) (i + 1) hi = Some u" "sorts (swapped v i m) 0 hi u"
      using "1.IH"[OF True m(1) swap next_i] "1.prems" sel by auto
    have "permutes_in v 0 hi (swapped v i m)"
      using perm "1.prems" by (auto intro: permutes_in_weaken)
    with u have "sorts v 0 hi u" by (auto simp: sorts_def intro: permutes_in_trans)
    then show ?thesis
      using True m(1) swap next_i u(1) by (simp add: choose_outer.simps[of v i hi])
  qed
qed

interpretation choose: prefix_sort ChooseSort
  using choose_outer_result by unfold_locales (simp add: ChooseSort_def prefix_bounds_def selected_start)

subsection \<open>\<open>InsertSort\<close> is correct\<close>

text \<open>
  The inner loop runs all the way down to index 0; the element being inserted sinks while it is
  not larger than its left neighbour, and the remaining comparisons only swap equal elements.
  Its invariant: \<open>[0..m]\<close> is sorted but for one pair, the element at \<open>j + 1\<close> and its left part.
\<close>

definition sorted_but :: "int list \<Rightarrow> int \<Rightarrow> int \<Rightarrow> bool" where
  "sorted_but v p m \<longleftrightarrow> (\<forall>a b. 0 \<le> a \<and> a < b \<and> b \<le> m \<and> b \<noteq> p \<longrightarrow> elem v a \<le> elem v b)"

lemma sorted_but_start: "sorted_on v 0 (m - 1) \<Longrightarrow> sorted_but v m m"
  by (auto simp: sorted_but_def sorted_on_def)

lemma sorted_but_done: "sorted_but v 0 m \<Longrightarrow> sorted_on v 0 m"
  unfolding sorted_on_def sorted_but_def by (metis less_eq_int_code(1) not_less order_less_le order_refl)

lemma sorted_but_step:
  assumes "sorted_but v (j + 1) m" "0 \<le> j" "j + 1 \<le> m" "m < int (length v)"
  shows "sorted_but (if elem v (j + 1) \<le> elem v j then swapped v (j + 1) j else v) j m"
proof (cases "elem v (j + 1) \<le> elem v j")
  case swap: True
  show ?thesis
    unfolding sorted_but_def
  proof (intro allI impI)
    fix a b assume ab: "0 \<le> a \<and> a < b \<and> b \<le> m \<and> b \<noteq> j"
    have ord: "elem v x \<le> elem v y" if "0 \<le> x" "x < y" "y \<le> m" "y \<noteq> j + 1" for x y
      using assms(1) that by (simp add: sorted_but_def)
    show "elem (if elem v (j + 1) \<le> elem v j then swapped v (j + 1) j else v) a
        \<le> elem (if elem v (j + 1) \<le> elem v j then swapped v (j + 1) j else v) b"
      using ab assms(2-4) swap ord[of a b] ord[of a j] ord[of "j + 1" b] ord[of j b]
      by (auto simp: elem_swapped)
  qed
next
  case keep: False
  have ord: "elem v x \<le> elem v y" if "0 \<le> x" "x < y" "y \<le> m" "y \<noteq> j + 1" for x y
    using assms(1) that by (simp add: sorted_but_def)
  have at_p: "elem v a \<le> elem v (j + 1)" if "0 \<le> a" "a < j + 1" for a
    using ord[of a j] that keep assms(3) by (cases "a = j") auto
  have "elem v a \<le> elem v b" if "0 \<le> a" "a < b" "b \<le> m" for a b
    using at_p[of a] ord[of a b] that by (cases "b = j + 1") auto
  then show ?thesis using keep by (simp add: sorted_but_def)
qed

lemma insert_inner_result:
  assumes "- 1 \<le> j" "j + 1 \<le> m" "prefix_bounds v m" "sorted_but v (j + 1) m"
  shows "\<exists>w. insert_inner v j = Some w \<and> permutes_in v 0 m w \<and> sorted_on w 0 m"
  using assms
proof (induction v j rule: insert_inner.induct)
  case (1 v j)
  note len = prefix_boundsD[OF "1.prems"(3)]
  show ?case
  proof (cases "j \<ge> 0")
    case False
    then have "j + 1 = 0" using "1.prems"(1) by simp
    then show ?thesis
      using "1.prems"(4) False sorted_but_done by (auto simp: insert_inner.simps[of v j])
  next
    case True
    define v' where "v' = (if elem v (j + 1) \<le> elem v j then swapped v (j + 1) j else v)"
    have perm: "permutes_in v 0 m v'"
      using "1.prems" True len by (auto simp: v'_def intro!: permutes_in_swapped)
    have "sorted_but v' j m"
      unfolding v'_def using "1.prems" True len by (intro sorted_but_step) auto
    then have "\<exists>w. insert_inner v' (j - 1) = Some w \<and> permutes_in v' 0 m w \<and> sorted_on w 0 m"
      using "1.prems" True len
      by (intro "1.IH"[of "j + 1" "elem v (j + 1)" "elem v j"]) (auto simp: in_range v'_def)
    moreover have "insert_inner v j = insert_inner v' (j - 1)"
      using "1.prems" True len by (simp add: insert_inner.simps[of v j] in_range v'_def)
    ultimately show ?thesis using perm permutes_in_trans by metis
  qed
qed

lemma insert_outer_result:
  assumes "0 \<le> i" "prefix_bounds v hi" "sorted_on v 0 (i - 1)"
  shows "\<exists>w. insert_outer v i hi = Some w \<and> sorts v 0 hi w"
  using assms
proof (induction v i hi rule: insert_outer.induct)
  case (1 v i hi)
  note len = prefix_boundsD[OF "1.prems"(2)]
  show ?case
  proof (cases "i \<le> hi")
    case False
    then have "sorted_on v 0 hi" using "1.prems" by (auto simp: sorted_on_def)
    with False show ?thesis by (simp add: insert_outer.simps[of v i hi] sorts_def)
  next
    case True
    have bounds: "prefix_bounds v i" using True len by (simp add: prefix_bounds_def)
    obtain w where w: "insert_inner v (i - 1) = Some w" "permutes_in v 0 i w" "sorted_on w 0 i"
      using insert_inner_result[of "i - 1" i v] "1.prems" bounds sorted_but_start[of v i] by auto
    have steps: "i32 (i - 1) = Some (i - 1)" "i32 (i + 1) = Some (i + 1)"
      using "1.prems" True len by (simp_all add: in_range)
    have perm: "permutes_in v 0 hi w" using w(2) True by (auto intro: permutes_in_weaken)
    obtain u where u: "insert_outer w (i + 1) hi = Some u" "sorts w 0 hi u"
      using "1.IH"[OF True steps(1) w(1) steps(2)] "1.prems" w(3) prefix_bounds_permutes[OF perm] by auto
    with perm have "sorts v 0 hi u" by (auto simp: sorts_def intro: permutes_in_trans)
    then show ?thesis using True w(1) steps u(1) by (simp add: insert_outer.simps[of v i hi])
  qed
qed

interpretation insertion: prefix_sort InsertSort
  using insert_outer_result by unfold_locales (simp add: InsertSort_def prefix_bounds_def)

end
