(* ===== verification/Merge_Sort.thy ===== *)
theory Merge_Sort
  imports Sort_Spec
begin

section \<open>Merge sort\<close>

text \<open>
  \<^verbatim>\<open>src/sort_algo/merge_sort.cc\<close>. \<open>Merge\<close> allocates the buffer \<open>arr\<close>, fills it by three loops
  that share the counters \<open>i\<close>, \<open>j\<close>, \<open>k\<close>, and copies it back; each loop is one recursive
  function over the array, the buffer and the counters. A cell of the buffer is \<open>None\<close> until it is
  written: \<open>new int[n]\<close> leaves it indeterminate and reading it would be undefined behaviour.
\<close>

type_synonym buffer = "int option list"

function merge_both ::
  "int list \<Rightarrow> int \<Rightarrow> int \<Rightarrow> buffer \<Rightarrow> int \<Rightarrow> int \<Rightarrow> int \<Rightarrow> (buffer \<times> int \<times> int \<times> int) option" where
  "merge_both vec mid hi arr i j k =
     (if i \<le> mid \<and> j \<le> hi then do {
        a \<leftarrow> rd vec i;
        b \<leftarrow> rd vec j;
        k' \<leftarrow> i32 (k + 1);
        (if a > b then do {
           arr' \<leftarrow> wr arr k (Some b);
           j' \<leftarrow> i32 (j + 1);
           merge_both vec mid hi arr' i j' k'
         } else do {
           arr' \<leftarrow> wr arr k (Some a);
           i' \<leftarrow> i32 (i + 1);
           merge_both vec mid hi arr' i' j k'
         })
      } else Some (arr, i, j, k))"
  by pat_completeness auto
termination
  by (relation "measure (\<lambda>(vec, mid, hi, arr, i, j, k). nat (mid + 1 - i) + nat (hi + 1 - j))")
    (auto simp: i32_Some_iff)

text \<open>\<open>while (i <= mid) arr[k++] = vec[i++];\<close> and the same loop for \<open>j\<close> and \<open>end\<close>.\<close>

function merge_rest :: "int list \<Rightarrow> int \<Rightarrow> buffer \<Rightarrow> int \<Rightarrow> int \<Rightarrow> (buffer \<times> int) option" where
  "merge_rest vec lim arr i k =
     (if i \<le> lim then do {
        a \<leftarrow> rd vec i;
        arr' \<leftarrow> wr arr k (Some a);
        i' \<leftarrow> i32 (i + 1);
        k' \<leftarrow> i32 (k + 1);
        merge_rest vec lim arr' i' k'
      } else Some (arr, k))"
  by pat_completeness auto
termination
  by (relation "measure (\<lambda>(vec, lim, arr, i, k). nat (lim + 1 - i))") (auto simp: i32_Some_iff)

function copy_back :: "int list \<Rightarrow> buffer \<Rightarrow> int \<Rightarrow> int \<Rightarrow> int \<Rightarrow> int list option" where
  "copy_back vec arr n k hi =
     (if n \<le> hi then do {
        cell \<leftarrow> rd arr k;
        a \<leftarrow> cell;
        vec' \<leftarrow> wr vec n a;
        n' \<leftarrow> i32 (n + 1);
        k' \<leftarrow> i32 (k + 1);
        copy_back vec' arr n' k' hi
      } else Some vec)"
  by pat_completeness auto
termination
  by (relation "measure (\<lambda>(vec, arr, n, k, hi). nat (hi + 1 - n))") (auto simp: i32_Some_iff)

declare merge_both.simps [simp del] merge_rest.simps [simp del] copy_back.simps [simp del]

text \<open>The size of the buffer is an \<open>int\<close> computation; a negative size is an error of \<open>new[]\<close>.\<close>

definition Merge :: "int list \<Rightarrow> int \<Rightarrow> int \<Rightarrow> int \<Rightarrow> int list option" where
  "Merge vec start mid hi = do {
     m1 \<leftarrow> i32 (mid + 1);
     d \<leftarrow> i32 (hi - start);
     n \<leftarrow> i32 (d + 1);
     arr \<leftarrow> (if 0 \<le> n then Some (replicate (nat n) None) else None);
     (arr1, i, j, k) \<leftarrow> merge_both vec mid hi arr start m1 0;
     (arr2, k2) \<leftarrow> merge_rest vec mid arr1 i k;
     (arr3, k3) \<leftarrow> merge_rest vec hi arr2 j k2;
     copy_back vec arr3 start 0 hi
   }"

text \<open>
  The recursion does not end for all arguments (for \<open>start = -3\<close> and \<open>end = -2\<close> the midpoint,
  rounded towards zero, is \<open>end\<close>), so it is a partial function: \<open>None\<close> also stands for not
  returning, and the result lemma below shows that it returns for all valid ranges.
\<close>

partial_function (option) MergeSort :: "int list \<Rightarrow> int \<Rightarrow> int \<Rightarrow> int list option" where
  "MergeSort vec start hi =
     (if start \<ge> hi then Some vec
      else do {
        s \<leftarrow> i32 (start + hi);
        let mid = s sdiv 2;
        v1 \<leftarrow> MergeSort vec start mid;
        m1 \<leftarrow> i32 (mid + 1);
        v2 \<leftarrow> MergeSort v1 m1 hi;
        Merge v2 start mid hi
      })"

subsection \<open>The reference merge\<close>

fun merge_ref :: "int list \<Rightarrow> int list \<Rightarrow> int list" where
  "merge_ref [] ys = ys"
| "merge_ref xs [] = xs"
| "merge_ref (x # xs) (y # ys) = (if x > y then y # merge_ref (x # xs) ys else x # merge_ref xs (y # ys))"

lemma merge_ref_Nil2 [simp]: "merge_ref xs [] = xs"
  by (cases xs) auto

lemma mset_merge_ref: "mset (merge_ref xs ys) = mset xs + mset ys"
  by (induction xs ys rule: merge_ref.induct) auto

lemma set_merge_ref: "set (merge_ref xs ys) = set xs \<union> set ys"
  by (induction xs ys rule: merge_ref.induct) auto

lemma sorted_merge_ref: "sorted xs \<Longrightarrow> sorted ys \<Longrightarrow> sorted (merge_ref xs ys)"
  by (induction xs ys rule: merge_ref.induct) (auto simp: set_merge_ref)

lemma length_merge_ref: "length (merge_ref xs ys) = length xs + length ys"
  by (induction xs ys rule: merge_ref.induct) auto

lemma slice_Cons: "i \<le> hi \<Longrightarrow> slice v i hi = elem v i # slice v (i + 1) hi"
  by (simp add: slice_def upto_rec1)

lemma slice_Nil: "hi < i \<Longrightarrow> slice v i hi = []"
  by (simp add: slice_def)

subsection \<open>The loops\<close>

text \<open>A buffer whose first cells are written and whose other cells are not.\<close>

abbreviation filled :: "int list \<Rightarrow> nat \<Rightarrow> buffer" where
  "filled out r \<equiv> map Some out @ replicate r None"

lemma wr_filled:
  "wr (filled out (Suc r)) (int (length out)) (Some x) = Some (filled (out @ [x]) r)"
  by (simp add: wr_def list_update_append)

lemma merge_rest_result:
  assumes "0 \<le> i" "lim < int (length v)" "int (length v) \<le> max_len"
    and "nat (lim + 1 - i) \<le> r" "int (length out + r) \<le> max_len"
  shows "merge_rest v lim (filled out r) i (int (length out)) =
           Some (filled (out @ slice v i lim) (r - nat (lim + 1 - i)),
                 int (length (out @ slice v i lim)))"
  using assms
proof (induction "nat (lim + 1 - i)" arbitrary: i out r)
  case 0
  then show ?case by (simp add: merge_rest.simps[of v lim _ i] slice_Nil)
next
  case (Suc n)
  then have i: "i \<le> lim" by auto
  from Suc obtain r' where r: "r = Suc r'" by (cases r) auto
  have "merge_rest v lim (filled (out @ [elem v i]) r') (i + 1) (int (length (out @ [elem v i]))) =
      Some (filled ((out @ [elem v i]) @ slice v (i + 1) lim) (r' - nat (lim + 1 - (i + 1))),
            int (length ((out @ [elem v i]) @ slice v (i + 1) lim)))"
    using Suc.prems Suc.hyps(2) i r by (intro Suc.hyps(1)) auto
  moreover have "rd v i = Some (elem v i)" "i32 (i + 1) = Some (i + 1)"
    "i32 (int (length out) + 1) = Some (int (length out) + 1)"
    using Suc.prems i r by (simp_all add: in_range)
  then have "merge_rest v lim (filled out r) i (int (length out)) =
      merge_rest v lim (filled (out @ [elem v i]) r') (i + 1) (int (length (out @ [elem v i])))"
    using i by (simp add: merge_rest.simps[of v lim _ i] r wr_filled[simplified] add.commute)
  moreover have "r' - nat (lim + 1 - (i + 1)) = r - nat (lim + 1 - i)"
    using Suc.prems i r by auto
  ultimately show ?case by (simp add: slice_Cons[OF i])
qed

lemma merge_both_result:
  assumes "0 \<le> i" "0 \<le> j" "i \<le> mid + 1" "j \<le> hi + 1" "mid < int (length v)" "hi < int (length v)"
    and "int (length v) \<le> max_len" "int (length out + r) \<le> max_len"
    and "r = nat (mid + 1 - i) + nat (hi + 1 - j)"
  shows "\<exists>out' i' j'. merge_both v mid hi (filled out r) i j (int (length out)) =
             Some (filled out' (nat (mid + 1 - i') + nat (hi + 1 - j')), i', j', int (length out'))
           \<and> i \<le> i' \<and> i' \<le> mid + 1 \<and> j \<le> j' \<and> j' \<le> hi + 1 \<and> (mid < i' \<or> hi < j')
           \<and> out' @ merge_ref (slice v i' mid) (slice v j' hi)
             = out @ merge_ref (slice v i mid) (slice v j hi)"
    (is "\<exists>out' i' j'. ?goal out r i j out' i' j'")
  using assms
proof (induction r arbitrary: i j out)
  case 0
  then show ?case
    by (intro exI[of _ out] exI[of _ i] exI[of _ j]) (auto simp: merge_both.simps[of v mid hi _ i j])
next
  case (Suc r)
  show ?case
  proof (cases "i \<le> mid \<and> j \<le> hi")
    case False
    with Suc.prems show ?thesis
      by (intro exI[of _ out] exI[of _ i] exI[of _ j])
        (auto simp: merge_both.simps[of v mid hi _ i j])
  next
    case True
    define x where "x = (if elem v i > elem v j then elem v j else elem v i)"
    define i1 where "i1 = (if elem v i > elem v j then i else i + 1)"
    define j1 where "j1 = (if elem v i > elem v j then j + 1 else j)"
    have "rd v i = Some (elem v i)" "rd v j = Some (elem v j)"
      "i32 (i + 1) = Some (i + 1)" "i32 (j + 1) = Some (j + 1)"
      "i32 (int (length out) + 1) = Some (int (length out) + 1)"
      using Suc.prems True by (simp_all add: in_range)
    then have step: "merge_both v mid hi (filled out (Suc r)) i j (int (length out)) =
        merge_both v mid hi (filled (out @ [x]) r) i1 j1 (int (length (out @ [x])))"
      using True wr_filled[of out r]
      by (simp add: merge_both.simps[of v mid hi _ i j] x_def i1_def j1_def add.commute)
    have ref: "merge_ref (slice v i mid) (slice v j hi) = x # merge_ref (slice v i1 mid) (slice v j1 hi)"
      using True by (simp add: slice_Cons x_def i1_def j1_def)
    have "\<exists>out' i' j'. ?goal (out @ [x]) r i1 j1 out' i' j'"
      using Suc.prems True by (intro Suc.IH) (auto simp: i1_def j1_def)
    then obtain out' i' j' where g: "?goal (out @ [x]) r i1 j1 out' i' j'" by blast
    have "i \<le> i1" "j \<le> j1" by (auto simp: i1_def j1_def)
    with g have "?goal out (Suc r) i j out' i' j'" unfolding step ref by simp
    then show ?thesis by blast
  qed
qed

lemma copy_back_result:
  assumes "0 \<le> n" "n \<le> hi + 1" "hi < int (length v)" "int (length v) \<le> max_len"
    and "int (length out) = k + (hi + 1 - n)" "0 \<le> k" "int (length out) \<le> max_len"
  shows "\<exists>w. copy_back v (map Some out) n k hi = Some w \<and> same_outside v w n hi
           \<and> slice w n hi = drop (nat k) out"
  using assms
proof (induction "nat (hi + 1 - n)" arbitrary: v n k)
  case 0
  then show ?case
    by (auto simp: copy_back.simps[of v _ n] same_outside_def slice_Nil)
next
  case (Suc m)
  then have n: "n \<le> hi" by auto
  have m: "m = nat (hi + 1 - (n + 1))" using Suc.hyps(2) n by auto
  let ?v = "v[nat n := out ! nat k]"
  obtain w where w: "copy_back ?v (map Some out) (n + 1) (k + 1) hi = Some w"
    "same_outside ?v w (n + 1) hi" "slice w (n + 1) hi = drop (nat (k + 1)) out"
    using Suc.hyps(1)[OF m, of ?v "k + 1"] Suc.prems n by auto
  have cell: "rd (map Some out) k = Some (Some (out ! nat k))"
    using Suc.prems n by (simp add: rd_def)
  have "copy_back v (map Some out) n k hi = Some w"
    using Suc.prems n w(1) cell by (simp add: copy_back.simps[of v _ n k] in_range)
  moreover have "same_outside v w n hi"
    using w(2) Suc.prems n by (auto simp: same_outside_def elem_update)
  moreover have "elem w n = out ! nat k"
    using w(2) Suc.prems n by (simp add: same_outside_def elem_update)
  then have "slice w n hi = drop (nat k) out"
    using w(3) n Suc.prems by (simp add: slice_Cons nat_add_distrib Cons_nth_drop_Suc)
  ultimately show ?case by blast
qed

subsection \<open>\<open>Merge\<close> and \<open>MergeSort\<close>\<close>

lemma Merge_result:
  assumes "0 \<le> lo" "lo \<le> mid + 1" "mid \<le> hi" "hi < int (length v)" "int (length v) \<le> max_len"
  shows "\<exists>w. Merge v lo mid hi = Some w \<and> same_outside v w lo hi
           \<and> slice w lo hi = merge_ref (slice v lo mid) (slice v (mid + 1) hi)"
proof -
  define n where "n = nat (mid + 1 - lo) + nat (hi + 1 - (mid + 1))"
  have n: "nat (hi - lo + 1) = n" using assms by (simp add: n_def)
  obtain out i j where m: "merge_both v mid hi (filled [] n) lo (mid + 1) (int (length ([] :: int list))) =
      Some (filled out (nat (mid + 1 - i) + nat (hi + 1 - j)), i, j, int (length out))"
    and b: "lo \<le> i" "i \<le> mid + 1" "mid + 1 \<le> j" "j \<le> hi + 1" "mid < i \<or> hi < j"
    and ref: "out @ merge_ref (slice v i mid) (slice v j hi)
      = merge_ref (slice v lo mid) (slice v (mid + 1) hi)"
    using merge_both_result[of lo "mid + 1" mid hi v "[]" n] assms by (auto simp: n_def)
  define out1 where "out1 = out @ slice v i mid"
  define out2 where "out2 = out1 @ slice v j hi"
  have ref2: "out2 = merge_ref (slice v lo mid) (slice v (mid + 1) hi)"
    using b(5) ref by (auto simp: out1_def out2_def slice_Nil)
  then have len2: "int (length out2) = hi + 1 - lo"
    using assms by (simp add: length_merge_ref)
  have r1: "merge_rest v mid (filled out (nat (mid + 1 - i) + nat (hi + 1 - j))) i (int (length out)) =
      Some (filled out1 (nat (hi + 1 - j)), int (length out1))"
    using merge_rest_result[of i mid v "nat (mid + 1 - i) + nat (hi + 1 - j)" out] assms b len2
    by (simp add: out1_def out2_def)
  have r2: "merge_rest v hi (filled out1 (nat (hi + 1 - j))) j (int (length out1)) =
      Some (map Some out2, int (length out2))"
    using merge_rest_result[of j hi v "nat (hi + 1 - j)" out1] assms b len2
    by (simp add: out2_def)
  obtain w where w: "copy_back v (map Some out2) lo 0 hi = Some w" "same_outside v w lo hi"
    "slice w lo hi = out2"
    using copy_back_result[of lo hi v out2 0] assms len2 by auto
  have "Merge v lo mid hi = Some w"
    using assms m r1 r2 w(1) n by (simp add: Merge_def in_range)
  with w ref2 show ?thesis by blast
qed

lemma Merge_sorts:
  assumes "0 \<le> lo" "lo \<le> mid + 1" "mid \<le> hi" "hi < int (length v)" "int (length v) \<le> max_len"
    and "sorted_on v lo mid" "sorted_on v (mid + 1) hi"
  shows "\<exists>w. Merge v lo mid hi = Some w \<and> sorts v lo hi w"
proof -
  obtain w where w: "Merge v lo mid hi = Some w" "same_outside v w lo hi"
    "slice w lo hi = merge_ref (slice v lo mid) (slice v (mid + 1) hi)"
    using Merge_result[OF assms(1-5)] by blast
  have "mset (slice w lo hi) = mset (slice v lo hi)"
    using w(3) slice_split[of lo "mid + 1" hi v] assms by (simp add: mset_merge_ref)
  then have "permutes_in v lo hi w"
    using w(2) assms by (intro permutes_in_by_slice) auto
  moreover have "sorted_on w lo hi"
    using w(3) assms(6,7) by (simp add: sorted_on_iff_slice sorted_merge_ref)
  ultimately show ?thesis using w(1) by (auto simp: sorts_def)
qed

lemma midpoint:
  assumes "0 \<le> lo" "lo < (hi :: int)"
  shows "lo \<le> (lo + hi) sdiv 2" "(lo + hi) sdiv 2 < hi"
  using assms by (auto simp: sdiv_nonneg)

lemma MergeSort_result:
  assumes "0 \<le> lo" "hi < int (length v)" "int (length v) \<le> max_len"
  shows "\<exists>w. MergeSort v lo hi = Some w \<and> sorts v lo hi w"
  using assms
proof (induction "nat (hi - lo)" arbitrary: v lo hi rule: less_induct)
  case less
  show ?case
  proof (cases "lo \<ge> hi")
    case True
    then show ?thesis by (simp add: MergeSort.simps sorts_def)
  next
    case False
    define mid where "mid = (lo + hi) sdiv 2"
    have mid: "lo \<le> mid" "mid < hi" using midpoint[of lo hi] less.prems False by (auto simp: mid_def)
    obtain v1 where v1: "MergeSort v lo mid = Some v1" "sorts v lo mid v1"
      using less.hyps[of mid lo v] less.prems mid by auto
    then have p1: "permutes_in v lo hi v1" using mid by (auto simp: sorts_def intro: permutes_in_weaken)
    have len1: "length v1 = length v" using p1 by (rule permutes_in_length)
    obtain v2 where v2: "MergeSort v1 (mid + 1) hi = Some v2" "sorts v1 (mid + 1) hi v2"
      using less.hyps[of hi "mid + 1" v1] less.prems mid len1 by auto
    then have p2: "permutes_in v1 lo hi v2" using mid by (auto simp: sorts_def intro: permutes_in_weaken)
    have len2: "length v2 = length v" using len1 p2 by (simp add: permutes_in_length)
    have "elem v2 k = elem v1 k" if "lo \<le> k" "k \<le> mid" for k
      using v2(2) that less.prems mid len1
      by (intro permutes_in_outside[of v1 "mid + 1" hi]) (auto simp: sorts_def)
    then have "sorted_on v2 lo mid"
      using v1(2) by (auto simp: sorts_def cong: sorted_on_cong)
    then obtain w where w: "Merge v2 lo mid hi = Some w" "sorts v2 lo hi w"
      using Merge_sorts[of lo mid hi v2] v2(2) less.prems mid len2 by (auto simp: sorts_def)
    have "i32 (lo + hi) = Some (lo + hi)" "i32 (mid + 1) = Some (mid + 1)"
      using less.prems False mid by (simp_all add: in_range)
    then have "MergeSort v lo hi = Some w"
      using False v1(1) v2(1) w(1) by (simp add: MergeSort.simps[of v lo hi] mid_def)
    moreover have "sorts v lo hi w"
      using w(2) p1 p2 by (auto simp: sorts_def intro: permutes_in_trans)
    ultimately show ?thesis by blast
  qed
qed

interpretation merging: range_sort MergeSort
  using MergeSort_result by unfold_locales simp

end
