(* ===== verification/Quick_Sort.thy ===== *)
theory Quick_Sort
  imports Sort_Spec
begin

section \<open>Quick sort\<close>

text \<open>
  \<^verbatim>\<open>src/sort_algo/quick_sort.cc\<close>. \<open>ParititionSort\<close> (the source's spelling) takes the first element
  out of the array, which leaves a hole at \<open>start\<close>, and moves elements into the hole from the
  right end and from the left end in turn until the two indices meet; the function returns the
  final index beside the array it has changed. The outer loop and the recursion terminate only
  for valid ranges, so they are partial functions; the result lemmas show that they return.
\<close>

function part_down :: "int list \<Rightarrow> int \<Rightarrow> int \<Rightarrow> int \<Rightarrow> int option" where
  "part_down vec tmp start hi =
     (if start < hi then do {
        b \<leftarrow> rd vec hi;
        if tmp \<le> b then do { hi' \<leftarrow> i32 (hi - 1); part_down vec tmp start hi' } else Some hi
      } else Some hi)"
  by pat_completeness auto
termination
  by (relation "measure (\<lambda>(vec, tmp, start, hi). nat (hi - start))") (auto simp: i32_Some_iff)

function part_up :: "int list \<Rightarrow> int \<Rightarrow> int \<Rightarrow> int \<Rightarrow> int option" where
  "part_up vec tmp start hi =
     (if start < hi then do {
        a \<leftarrow> rd vec start;
        if tmp \<ge> a then do { start' \<leftarrow> i32 (start + 1); part_up vec tmp start' hi } else Some start
      } else Some start)"
  by pat_completeness auto
termination
  by (relation "measure (\<lambda>(vec, tmp, start, hi). nat (hi - start))") (auto simp: i32_Some_iff)

declare part_down.simps [simp del] part_up.simps [simp del]

partial_function (option) part_loop ::
  "int list \<Rightarrow> int \<Rightarrow> int \<Rightarrow> int \<Rightarrow> (int list \<times> int) option" where
  "part_loop vec tmp start hi =
     (if start < hi then do {
        hi' \<leftarrow> part_down vec tmp start hi;
        b \<leftarrow> rd vec hi';
        vec1 \<leftarrow> wr vec start b;
        start' \<leftarrow> part_up vec1 tmp start hi';
        a \<leftarrow> rd vec1 start';
        vec2 \<leftarrow> wr vec1 hi' a;
        part_loop vec2 tmp start' hi'
      } else Some (vec, start))"

definition ParititionSort :: "int list \<Rightarrow> int \<Rightarrow> int \<Rightarrow> (int list \<times> int) option" where
  "ParititionSort vec start hi = do {
     tmp \<leftarrow> rd vec start;
     (vec1, start1) \<leftarrow> part_loop vec tmp start hi;
     vec2 \<leftarrow> wr vec1 start1 tmp;
     Some (vec2, start1)
   }"

partial_function (option) QuickSort :: "int list \<Rightarrow> int \<Rightarrow> int \<Rightarrow> int list option" where
  "QuickSort vec start hi =
     (if start < hi then do {
        (v1, idx) \<leftarrow> ParititionSort vec start hi;
        hi1 \<leftarrow> i32 (idx - 1);
        v2 \<leftarrow> QuickSort v1 start hi1;
        start2 \<leftarrow> i32 (idx + 1);
        QuickSort v2 start2 hi
      } else Some vec)"

subsection \<open>The two scans\<close>

lemma part_down_result:
  assumes "0 \<le> lo" "lo \<le> hi" "hi < int (length v)" "int (length v) \<le> max_len"
  shows "\<exists>h. part_down v t lo hi = Some h \<and> lo \<le> h \<and> h \<le> hi
           \<and> (\<forall>k. h < k \<and> k \<le> hi \<longrightarrow> t \<le> elem v k) \<and> (h = lo \<or> elem v h < t)"
  using assms
proof (induction v t lo hi rule: part_down.induct)
  case (1 v t lo hi)
  show ?case
  proof (cases "lo < hi \<and> t \<le> elem v hi")
    case True
    have steps: "rd v hi = Some (elem v hi)" "i32 (hi - 1) = Some (hi - 1)"
      using True "1.prems" by (simp_all add: in_range)
    obtain h where h: "part_down v t lo (hi - 1) = Some h" "lo \<le> h" "h \<le> hi - 1"
      "\<forall>k. h < k \<and> k \<le> hi - 1 \<longrightarrow> t \<le> elem v k" "h = lo \<or> elem v h < t"
      using "1.IH"[OF _ steps(1) _ steps(2)] True "1.prems" by auto
    have "t \<le> elem v k" if "h < k" "k \<le> hi" for k
      using h(4) that True by (cases "k = hi") auto
    with h True steps show ?thesis by (auto simp: part_down.simps[of v t lo hi])
  next
    case False
    with "1.prems" show ?thesis by (auto simp: part_down.simps[of v t lo hi] in_range)
  qed
qed

lemma part_up_result:
  assumes "0 \<le> lo" "lo \<le> hi" "hi < int (length v)" "int (length v) \<le> max_len"
  shows "\<exists>s. part_up v t lo hi = Some s \<and> lo \<le> s \<and> s \<le> hi
           \<and> (\<forall>k. lo \<le> k \<and> k < s \<longrightarrow> elem v k \<le> t) \<and> (s = hi \<or> t < elem v s)"
  using assms
proof (induction v t lo hi rule: part_up.induct)
  case (1 v t lo hi)
  show ?case
  proof (cases "lo < hi \<and> elem v lo \<le> t")
    case True
    have steps: "rd v lo = Some (elem v lo)" "i32 (lo + 1) = Some (lo + 1)"
      using True "1.prems" by (simp_all add: in_range)
    obtain s where s: "part_up v t (lo + 1) hi = Some s" "lo + 1 \<le> s" "s \<le> hi"
      "\<forall>k. lo + 1 \<le> k \<and> k < s \<longrightarrow> elem v k \<le> t" "s = hi \<or> t < elem v s"
      using "1.IH"[OF _ steps(1) _ steps(2)] True "1.prems" by auto
    have "elem v k \<le> t" if "lo \<le> k" "k < s" for k
      using s(4) that True by (cases "k = lo") auto
    with s True steps show ?thesis by (auto simp: part_up.simps[of v t lo hi])
  next
    case False
    with "1.prems" show ?thesis by (auto simp: part_up.simps[of v t lo hi] in_range)
  qed
qed

subsection \<open>One round of the partition loop\<close>

text \<open>
  The state of the loop: a hole at \<open>s\<close>, elements before it at most the pivot \<open>t\<close>, elements
  after \<open>e\<close> at least \<open>t\<close>; putting \<open>t\<close> into the hole gives a permutation of the original.
\<close>

definition part_inv :: "int list \<Rightarrow> int \<Rightarrow> int \<Rightarrow> int \<Rightarrow> int list \<Rightarrow> int \<Rightarrow> int \<Rightarrow> bool" where
  "part_inv v0 lo hi t v s e \<longleftrightarrow> lo \<le> s \<and> s \<le> e \<and> e \<le> hi \<and> length v = length v0
     \<and> permutes_in v0 lo hi (v[nat s := t])
     \<and> (\<forall>k. lo \<le> k \<and> k < s \<longrightarrow> elem v k \<le> t) \<and> (\<forall>k. e < k \<and> k \<le> hi \<longrightarrow> t \<le> elem v k)"

lemma fill_hole:
  assumes "0 \<le> s" "s < int (length v)" "0 \<le> e" "e < int (length v)"
  shows "v[nat s := elem v e, nat e := t] = swapped (v[nat s := t]) s e"
  using assms by (intro list_eq_by_elem) (auto simp: elem_swapped elem_update)

lemma part_round:
  assumes inv: "part_inv v0 lo hi t v s e" and "s < e"
    and b: "0 \<le> lo" "hi < int (length v0)"
    and h: "s \<le> h" "h \<le> e" "\<forall>k. h < k \<and> k \<le> e \<longrightarrow> t \<le> elem v k"
    and v1: "v1 = v[nat s := elem v h]"
    and s': "s \<le> s'" "s' \<le> h" "\<forall>k. s \<le> k \<and> k < s' \<longrightarrow> elem v1 k \<le> t"
    and v2: "v2 = v1[nat h := elem v1 s']"
  shows "part_inv v0 lo hi t v2 s' h"
proof -
  have range: "lo \<le> s" "e \<le> hi" "length v = length v0" and perm: "permutes_in v0 lo hi (v[nat s := t])"
    and left: "\<forall>k. lo \<le> k \<and> k < s \<longrightarrow> elem v k \<le> t" and right: "\<forall>k. e < k \<and> k \<le> hi \<longrightarrow> t \<le> elem v k"
    using inv by (auto simp: part_inv_def)
  have len: "length v1 = length v0" "length v2 = length v0" using range v1 v2 by auto
  have "v1[nat h := t] = swapped (v[nat s := t]) s h"
    unfolding v1 using range b h assms(2) by (intro fill_hole) auto
  moreover have "permutes_in (v[nat s := t]) lo hi (swapped (v[nat s := t]) s h)"
    using range b h assms(2) by (intro permutes_in_swapped) auto
  ultimately have p1: "permutes_in v0 lo hi (v1[nat h := t])" using perm permutes_in_trans by metis
  have "v2[nat s' := t] = swapped (v1[nat h := t]) h s'"
    unfolding v2 using range b h s' len assms(2) by (intro fill_hole) auto
  moreover have "permutes_in (v1[nat h := t]) lo hi (swapped (v1[nat h := t]) h s')"
    using range b h s' len assms(2) by (intro permutes_in_swapped) auto
  ultimately have "permutes_in v0 lo hi (v2[nat s' := t])" using p1 permutes_in_trans by metis
  moreover have "elem v2 k \<le> t" if "lo \<le> k" "k < s'" for k
    using that range b h s' left len by (cases "k < s") (auto simp: v2 v1 elem_update)
  moreover have "t \<le> elem v2 k" if "h < k" "k \<le> hi" for k
    using that range b h s' right len by (cases "e < k") (auto simp: v2 v1 elem_update)
  ultimately show ?thesis using range b h s' len by (auto simp: part_inv_def)
qed

lemma part_loop_result:
  assumes "part_inv v0 lo hi t v s e" "0 \<le> lo" "hi < int (length v0)" "int (length v0) \<le> max_len"
  shows "\<exists>w p. part_loop v t s e = Some (w, p) \<and> part_inv v0 lo hi t w p p"
  using assms
proof (induction "nat (e - s)" arbitrary: v s e rule: less_induct)
  case less
  have range: "lo \<le> s" "s \<le> e" "e \<le> hi" "length v = length v0"
    using less.prems(1) by (auto simp: part_inv_def)
  show ?case
  proof (cases "s < e")
    case False
    with range less.prems(1) show ?thesis by (auto simp: part_loop.simps)
  next
    case True
    obtain h where h: "part_down v t s e = Some h" "s \<le> h" "h \<le> e"
      "\<forall>k. h < k \<and> k \<le> e \<longrightarrow> t \<le> elem v k" "h = s \<or> elem v h < t"
      using part_down_result[of s e v t] range less.prems by auto
    define v1 where "v1 = v[nat s := elem v h]"
    have len1: "length v1 = length v0" using range by (simp add: v1_def)
    obtain s' where s': "part_up v1 t s h = Some s'" "s \<le> s'" "s' \<le> h"
      "\<forall>k. s \<le> k \<and> k < s' \<longrightarrow> elem v1 k \<le> t" "s' = h \<or> t < elem v1 s'"
      using part_up_result[of s h v1 t] range h less.prems len1 by auto
    define v2 where "v2 = v1[nat h := elem v1 s']"
    have inv: "part_inv v0 lo hi t v2 s' h"
      using part_round[OF less.prems(1) True less.prems(2,3) h(2-4) v1_def s'(2-4) v2_def] .
    have "elem v1 s = elem v h" using range less.prems h by (simp add: v1_def elem_update)
    then have "h - s' < e - s" using h(3,5) s'(2,3,5) True by (cases "s' = s") auto
    then have dec: "nat (h - s') < nat (e - s)" using True by simp
    obtain w p where w: "part_loop v2 t s' h = Some (w, p)" "part_inv v0 lo hi t w p p"
      using less.hyps[OF dec inv] less.prems by blast
    have "part_loop v t s e = part_loop v2 t s' h"
      using True h(1-3) s'(1-3) range less.prems len1
      by (subst part_loop.simps) (simp add: in_range v1_def v2_def)
    with w show ?thesis by auto
  qed
qed

lemma ParititionSort_result:
  assumes "0 \<le> lo" "lo \<le> hi" "hi < int (length v)" "int (length v) \<le> max_len"
  shows "\<exists>w p. ParititionSort v lo hi = Some (w, p) \<and> lo \<le> p \<and> p \<le> hi \<and> permutes_in v lo hi w
           \<and> elem w p = elem v lo
           \<and> (\<forall>k. lo \<le> k \<and> k < p \<longrightarrow> elem w k \<le> elem w p) \<and> (\<forall>k. p < k \<and> k \<le> hi \<longrightarrow> elem w p \<le> elem w k)"
proof -
  have "v[nat lo := elem v lo] = v" by (simp add: elem_def)
  then have "part_inv v lo hi (elem v lo) v lo hi" using assms by (simp add: part_inv_def)
  then obtain w p where w: "part_loop v (elem v lo) lo hi = Some (w, p)"
    "part_inv v lo hi (elem v lo) w p p"
    using part_loop_result assms by blast
  then have p: "lo \<le> p" "p \<le> hi" "length w = length v" by (auto simp: part_inv_def)
  have "ParititionSort v lo hi = Some (w[nat p := elem v lo], p)"
    using w(1) assms p by (simp add: ParititionSort_def in_range)
  with w(2) p assms show ?thesis by (simp add: part_inv_def elem_update)
qed

subsection \<open>\<open>QuickSort\<close>\<close>

lemma QuickSort_result:
  assumes "0 \<le> lo" "lo \<le> hi + 1" "hi < int (length v)" "int (length v) \<le> max_len"
  shows "\<exists>w. QuickSort v lo hi = Some w \<and> sorts v lo hi w"
  using assms
proof (induction "nat (hi - lo)" arbitrary: v lo hi rule: less_induct)
  case less
  show ?case
  proof (cases "lo < hi")
    case False
    then show ?thesis by (simp add: QuickSort.simps sorts_def)
  next
    case True
    obtain v1 p where p: "ParititionSort v lo hi = Some (v1, p)" "lo \<le> p" "p \<le> hi"
      "permutes_in v lo hi v1" "\<forall>k. lo \<le> k \<and> k < p \<longrightarrow> elem v1 k \<le> elem v1 p"
      "\<forall>k. p < k \<and> k \<le> hi \<longrightarrow> elem v1 p \<le> elem v1 k"
      using ParititionSort_result[of lo hi v] less.prems True by auto
    note len1 = permutes_in_length[OF p(4)]
    obtain v2 where v2: "QuickSort v1 lo (p - 1) = Some v2" "sorted_on v2 lo (p - 1)"
      "permutes_in v1 lo (p - 1) v2"
      using less.hyps[of "p - 1" lo v1] less.prems p True len1 by (auto simp: sorts_def)
    note len2 = permutes_in_length[OF v2(3)]
    obtain w where w: "QuickSort v2 (p + 1) hi = Some w" "sorted_on w (p + 1) hi"
      "permutes_in v2 (p + 1) hi w"
      using less.hyps[of hi "p + 1" v2] less.prems p True len1 len2 by (auto simp: sorts_def)
    have low: "elem w k = elem v2 k" if "lo \<le> k" "k \<le> p" for k
      using that less.prems p len1 len2 by (intro permutes_in_outside[OF w(3)]) auto
    have high: "elem v2 k = elem v1 k" if "p \<le> k" "k \<le> hi" for k
      using that less.prems p len1 by (intro permutes_in_outside[OF v2(3)]) auto
    have left: "elem w k \<le> elem v1 p" if "lo \<le> k" "k < p" for k
      unfolding low[OF that(1) order_less_imp_le[OF that(2)]]
      using that less.prems p len1 by (intro permutes_in_upper[OF v2(3)]) auto
    have right: "elem v1 p \<le> elem w k" if "p < k" "k \<le> hi" for k
      using that less.prems p len1 len2 high by (intro permutes_in_lower[OF w(3)]) auto
    have mid: "elem w p = elem v1 p" using low[of p] high[of p] p by simp
    have "sorted_on w lo (p - 1)"
      using v2(2) low by (simp cong: sorted_on_cong)
    moreover have "elem w i \<le> elem w j" if "lo \<le> i" "i \<le> p - 1" "p - 1 < j" "j \<le> p" for i j
      using left[of i] mid that by (cases "j = p") auto
    ultimately have "sorted_on w lo p" by (intro sorted_on_join[of w lo "p - 1" p]) auto
    then have "sorted_on w lo hi"
      using w(2) left right mid
      by (intro sorted_on_join[of w lo p hi]) (metis order.trans order_le_less)+
    moreover have "permutes_in v lo hi w"
      using p v2(3) w(3) by (meson order.trans permutes_in_trans permutes_in_weaken zle_add1_eq_le
          order_refl less_imp_le diff_le_eq add_increasing2 zero_le_one)
    moreover have "QuickSort v lo hi = Some w"
      using True p(1-3) v2(1) w(1) less.prems
      by (subst QuickSort.simps) (simp add: in_range)
    ultimately show ?thesis by (auto simp: sorts_def)
  qed
qed

interpretation quick: range_sort QuickSort
  using QuickSort_result by unfold_locales simp

end
