(* ===== verification/Heap_Sort.thy ===== *)
theory Heap_Sort
  imports Sort_Spec
begin

section \<open>Heap sort\<close>

text \<open>
  \<^verbatim>\<open>src/sort_algo/heap_sort.cc\<close>. \<open>Heap\<close> sifts the element at \<open>start\<close> down in the array that ends
  at \<open>end\<close>; its loop is \<open>heap_loop\<close> with the loop variables \<open>head\<close> and \<open>son\<close>. \<open>HeapSort\<close> builds
  a heap (\<open>heap_build\<close>) and repeatedly moves the root to the end (\<open>heap_extract\<close>).
\<close>

function heap_loop :: "int list \<Rightarrow> int \<Rightarrow> int \<Rightarrow> int \<Rightarrow> int list option" where
  "heap_loop vec head son hi =
     (if son \<le> hi then do {
        s1 \<leftarrow> i32 (son + 1);
        son' \<leftarrow> (if s1 \<le> hi then do {
                     a \<leftarrow> rd vec son;
                     b \<leftarrow> rd vec s1;
                     Some (if a < b then s1 else son)
                   } else Some son);
        s \<leftarrow> rd vec son';
        h \<leftarrow> rd vec head;
        if s < h then Some vec
        else do {
          vec' \<leftarrow> swap_at vec head son';
          d \<leftarrow> i32 (son' * 2);
          n \<leftarrow> i32 (d + 1);
          heap_loop vec' son' n hi
        }
      } else Some vec)"
  by pat_completeness auto
termination
  by (relation "measure (\<lambda>(vec, head, son, hi). nat (hi + 1 - son))")
    (auto simp: i32_Some_iff rd_def split: if_splits)

definition Heap :: "int list \<Rightarrow> int \<Rightarrow> int \<Rightarrow> int list option" where
  "Heap vec start hi = do {
     d \<leftarrow> i32 (start * 2);
     son \<leftarrow> i32 (d + 1);
     heap_loop vec start son hi
   }"

function heap_build :: "int list \<Rightarrow> int \<Rightarrow> int \<Rightarrow> int list option" where
  "heap_build vec i hi =
     (if i \<ge> 0 then do {
        vec' \<leftarrow> Heap vec i hi;
        i' \<leftarrow> i32 (i - 1);
        heap_build vec' i' hi
      } else Some vec)"
  by pat_completeness auto
termination
  by (relation "measure (\<lambda>(vec, i, hi). nat (i + 1))") (auto simp: i32_Some_iff)

function heap_extract :: "int list \<Rightarrow> int \<Rightarrow> int list option" where
  "heap_extract vec i =
     (if i \<ge> 0 then do {
        vec1 \<leftarrow> swap_at vec 0 i;
        i' \<leftarrow> i32 (i - 1);
        vec2 \<leftarrow> Heap vec1 0 i';
        heap_extract vec2 i'
      } else Some vec)"
  by pat_completeness auto
termination
  by (relation "measure (\<lambda>(vec, i). nat (i + 1))") (auto simp: i32_Some_iff)

definition HeapSort :: "int list \<Rightarrow> int \<Rightarrow> int \<Rightarrow> int list option" where
  "HeapSort vec start hi = do {
     d \<leftarrow> i32 (hi - start);
     len \<leftarrow> i32 (d + 1);
     i \<leftarrow> i32 (len sdiv 2 - 1);
     vec1 \<leftarrow> heap_build vec i hi;
     k \<leftarrow> i32 (len - 1);
     heap_extract vec1 k
   }"

declare heap_loop.simps [simp del] heap_build.simps [simp del] heap_extract.simps [simp del]

subsection \<open>Heaps\<close>

definition child :: "int \<Rightarrow> int \<Rightarrow> bool" where
  "child p c \<longleftrightarrow> c = 2 * p + 1 \<or> c = 2 * p + 2"

text \<open>The heap order for every parent from \<open>lo\<close> on, with children up to \<open>hi\<close>.\<close>

definition heap_from :: "int list \<Rightarrow> int \<Rightarrow> int \<Rightarrow> bool" where
  "heap_from v lo hi \<longleftrightarrow> (\<forall>p c. lo \<le> p \<and> child p c \<and> c \<le> hi \<longrightarrow> elem v c \<le> elem v p)"

text \<open>The same but for the parent \<open>h\<close>, whose children are still below the parent of \<open>h\<close>.\<close>

definition heap_but :: "int list \<Rightarrow> int \<Rightarrow> int \<Rightarrow> int \<Rightarrow> bool" where
  "heap_but v h lo hi \<longleftrightarrow>
     (\<forall>p c. lo \<le> p \<and> p \<noteq> h \<and> child p c \<and> c \<le> hi \<longrightarrow> elem v c \<le> elem v p) \<and>
     (\<forall>p c. lo \<le> p \<and> child p h \<and> child h c \<and> c \<le> hi \<longrightarrow> elem v c \<le> elem v p)"

lemma child_greater: "0 \<le> p \<Longrightarrow> child p c \<Longrightarrow> p < c"
  by (auto simp: child_def)

lemma child_unique: "child p c \<Longrightarrow> child q c \<Longrightarrow> p = q"
  unfolding child_def by presburger

lemma parent_exists: "0 < k \<Longrightarrow> \<exists>p. 0 \<le> p \<and> p < k \<and> child p k"
  by (intro exI[of _ "(k - 1) div 2"]) (auto simp: child_def)

lemma heap_from_start: "heap_from v (i + 1) hi \<Longrightarrow> 0 \<le> i \<Longrightarrow> heap_but v i i hi"
  by (auto simp: heap_from_def heap_but_def child_def)

lemma heap_from_leaves: "hi < 2 * lo + 1 \<Longrightarrow> heap_from v lo hi"
  by (auto simp: heap_from_def child_def)

lemma heap_but_done:
  "heap_but v h lo hi \<Longrightarrow> (\<And>c. child h c \<Longrightarrow> c \<le> hi \<Longrightarrow> elem v c \<le> elem v h) \<Longrightarrow> heap_from v lo hi"
  by (auto simp: heap_but_def heap_from_def)

lemma heap_but_step:
  assumes hb: "heap_but v h lo hi" and b: "0 \<le> lo" "lo \<le> h" "hi < int (length v)"
    and m: "child h m" "m \<le> hi" "\<And>c. child h c \<Longrightarrow> c \<le> hi \<Longrightarrow> elem v c \<le> elem v m"
    and ge: "elem v h \<le> elem v m"
  shows "heap_but (swapped v h m) m lo hi"
proof -
  have hm: "h < m" using child_greater[OF _ m(1)] b by simp
  have val: "elem (swapped v h m) k = (if k = m then elem v h else if k = h then elem v m else elem v k)"
    if "0 \<le> k" for k
    using b hm m(2) that by (intro elem_swapped) auto
  have one: "elem v c \<le> elem v p" if "lo \<le> p" "p \<noteq> h" "child p c" "c \<le> hi" for p c
    using hb that by (auto simp: heap_but_def)
  have two: "elem v c \<le> elem v p" if "lo \<le> p" "child p h" "child h c" "c \<le> hi" for p c
    using hb that by (auto simp: heap_but_def)
  have "elem (swapped v h m) c \<le> elem (swapped v h m) p"
    if pc: "lo \<le> p" "p \<noteq> m" "child p c" "c \<le> hi" for p c
  proof -
    have "0 \<le> p" "0 \<le> c" "p < c" using pc b child_greater[of p c] by auto
    show ?thesis
    proof (cases "p = h")
      case True
      then show ?thesis using pc m(3)[of c] ge hm \<open>0 \<le> p\<close> \<open>0 \<le> c\<close> \<open>p < c\<close> by (auto simp: val)
    next
      case False
      then have "c \<noteq> m" using child_unique pc(3) m(1) by blast
      then show ?thesis
        using False pc one[of p c] two[of p m] m(1,2) \<open>0 \<le> p\<close> \<open>0 \<le> c\<close> by (auto simp: val)
    qed
  qed
  moreover have "elem (swapped v h m) c \<le> elem (swapped v h m) p"
    if pc: "lo \<le> p" "child p m" "child m c" "c \<le> hi" for p c
  proof -
    have "p = h" using pc(2) m(1) child_unique by blast
    moreover have "m < c" using child_greater[OF _ pc(3)] hm b by simp
    ultimately show ?thesis using pc one[of m c] hm b by (simp add: val)
  qed
  ultimately show ?thesis by (simp add: heap_but_def)
qed

lemma heap_root_max:
  assumes "heap_from v 0 hi" "0 \<le> k" "k \<le> hi"
  shows "elem v k \<le> elem v 0"
  using assms(2,3)
proof (induction "nat k" arbitrary: k rule: less_induct)
  case less
  show ?case
  proof (cases "k = 0")
    case False
    then obtain p where p: "0 \<le> p" "p < k" "child p k" using parent_exists[of k] less.prems by auto
    then have "elem v k \<le> elem v p" using assms(1) less.prems by (auto simp: heap_from_def)
    also have "\<dots> \<le> elem v 0" using less.hyps[of p] p less.prems by simp
    finally show ?thesis .
  qed simp
qed

subsection \<open>Sifting\<close>

lemma heap_loop_result:
  assumes "heap_but v h lo hi" "0 \<le> lo" "lo \<le> h" "hi < int (length v)" "int (length v) \<le> max_len"
    and "s = 2 * h + 1"
  shows "\<exists>w. heap_loop v h s hi = Some w \<and> permutes_in v lo hi w \<and> heap_from w lo hi"
  using assms
proof (induction v h s hi rule: heap_loop.induct)
  case (1 v h s hi)
  show ?case
  proof (cases "s \<le> hi")
    case False
    have "heap_from v lo hi"
      by (rule heap_but_done[OF "1.prems"(1)]) (use False "1.prems"(6) in \<open>auto simp: child_def\<close>)
    with False show ?thesis by (simp add: heap_loop.simps[of v h s hi])
  next
    case True
    define m where "m = (if s + 1 \<le> hi \<and> elem v s < elem v (s + 1) then s + 1 else s)"
    have m: "child h m" "m \<le> hi" "s \<le> m" using True "1.prems"(6) by (auto simp: m_def child_def)
    have larger: "elem v c \<le> elem v m" if "child h c" "c \<le> hi" for c
    proof -
      have "c = s \<or> c = s + 1" using that(1) "1.prems"(6) by (auto simp: child_def)
      with that(2) show ?thesis by (auto simp: m_def)
    qed
    have steps: "i32 (s + 1) = Some (s + 1)" "rd v s = Some (elem v s)" "rd v m = Some (elem v m)"
      "rd v h = Some (elem v h)" "swap_at v h m = Some (swapped v h m)"
      "i32 (m * 2) = Some (m * 2)" "i32 (m * 2 + 1) = Some (m * 2 + 1)"
      using True "1.prems" m by (simp_all add: in_range)
    have sel: "(if s + 1 \<le> hi then do {
                     a \<leftarrow> rd v s;
                     b \<leftarrow> rd v (s + 1);
                     Some (if a < b then s + 1 else s)
                   } else Some s) = Some m"
      using True "1.prems" by (auto simp: m_def in_range)
    show ?thesis
    proof (cases "elem v m < elem v h")
      case stop: True
      have "heap_from v lo hi"
        by (rule heap_but_done[OF "1.prems"(1)]) (use larger stop in force)
      moreover have "heap_loop v h s hi = Some v"
        using True stop steps sel by (simp add: heap_loop.simps[of v h s hi])
      ultimately show ?thesis by auto
    next
      case down: False
      have but: "heap_but (swapped v h m) m lo hi"
        using "1.prems" m larger down by (intro heap_but_step) auto
      have perm: "permutes_in v lo hi (swapped v h m)"
        using "1.prems" m True by (intro permutes_in_swapped) auto
      obtain w where w: "heap_loop (swapped v h m) m (m * 2 + 1) hi = Some w"
        "permutes_in (swapped v h m) lo hi w" "heap_from w lo hi"
        using "1.IH"[OF True steps(1) sel steps(3,4) down steps(5-7)] but "1.prems" m True by auto
      have "heap_loop v h s hi = Some w"
        using True down steps sel w(1) by (simp add: heap_loop.simps[of v h s hi])
      with w(2,3) perm permutes_in_trans show ?thesis by blast
    qed
  qed
qed

lemma Heap_result:
  assumes "heap_but v i i hi" "0 \<le> i" "i \<le> hi \<or> i = 0" "hi < int (length v)" "int (length v) \<le> max_len"
  shows "\<exists>w. Heap v i hi = Some w \<and> permutes_in v i hi w \<and> heap_from w i hi"
  using heap_loop_result[OF assms(1,2) _ assms(4,5)] assms by (auto simp: Heap_def in_range mult.commute)

lemma heap_build_result:
  assumes "heap_from v (i + 1) hi" "- 1 \<le> i" "i \<le> hi" "hi < int (length v)" "int (length v) \<le> max_len"
  shows "\<exists>w. heap_build v i hi = Some w \<and> permutes_in v 0 hi w \<and> heap_from w 0 hi"
  using assms
proof (induction v i hi rule: heap_build.induct)
  case (1 v i hi)
  show ?case
  proof (cases "i \<ge> 0")
    case False
    then have "i = - 1" using "1.prems"(2) by simp
    then show ?thesis using "1.prems"(1) by (auto simp: heap_build.simps[of v "- 1" hi])
  next
    case True
    obtain v' where v': "Heap v i hi = Some v'" "permutes_in v i hi v'" "heap_from v' i hi"
      using Heap_result[OF heap_from_start] "1.prems" True by blast
    have i: "i32 (i - 1) = Some (i - 1)" using "1.prems" True by (simp add: in_range)
    obtain w where w: "heap_build v' (i - 1) hi = Some w" "permutes_in v' 0 hi w" "heap_from w 0 hi"
      using "1.IH"[OF True v'(1) i] v'(3) "1.prems" True permutes_in_length[OF v'(2)] by auto
    have "permutes_in v 0 hi v'" using v'(2) True by (auto intro: permutes_in_weaken)
    with w show ?thesis
      using True v'(1) i by (auto simp: heap_build.simps[of v i hi] intro: permutes_in_trans)
  qed
qed

subsection \<open>Extracting\<close>

text \<open>\<open>[0..i]\<close> is a heap of the smallest elements and everything after \<open>i\<close> is in place.\<close>

definition extract_inv :: "int list \<Rightarrow> int \<Rightarrow> int \<Rightarrow> bool" where
  "extract_inv v i hi \<longleftrightarrow> heap_from v 0 i \<and> sorted_on v (i + 1) hi
     \<and> (\<forall>a b. 0 \<le> a \<and> a \<le> i \<and> i < b \<and> b \<le> hi \<longrightarrow> elem v a \<le> elem v b)"

lemma extract_round:
  assumes inv: "extract_inv v i hi" and b: "0 \<le> i" "i \<le> hi" "hi < int (length v)" "int (length v) \<le> max_len"
  shows "\<exists>w. Heap (swapped v 0 i) 0 (i - 1) = Some w \<and> permutes_in v 0 hi w \<and> extract_inv w (i - 1) hi"
proof -
  let ?u = "swapped v 0 i"
  have heap: "heap_from v 0 i" and sorted: "sorted_on v (i + 1) hi"
    using inv by (auto simp: extract_inv_def)
  have below: "elem v a \<le> elem v c" if "0 \<le> a" "a \<le> i" "i < c" "c \<le> hi" for a c
    using inv that by (auto simp: extract_inv_def)
  have u: "elem ?u k = (if k = i then elem v 0 else if k = 0 then elem v i else elem v k)" if "0 \<le> k" for k
    using b that by (intro elem_swapped) auto
  have pu: "permutes_in v 0 i ?u" using b by (intro permutes_in_swapped) auto
  have "elem v c \<le> elem v p" if "0 \<le> p" "child p c" "c \<le> i" for p c
    using heap that by (auto simp: heap_from_def)
  then have "heap_but ?u 0 0 (i - 1)"
    by (auto simp: heap_but_def child_def u)
  then obtain w where w: "Heap ?u 0 (i - 1) = Some w" "permutes_in ?u 0 (i - 1) w" "heap_from w 0 (i - 1)"
    using Heap_result[of ?u 0 "i - 1"] b by auto
  have out: "elem w k = elem ?u k" if "i \<le> k" "k \<le> hi" for k
    using that b by (intro permutes_in_outside[OF w(2)]) auto
  have perm: "permutes_in v 0 hi w"
    using permutes_in_trans[OF permutes_in_weaken[OF pu, of 0 hi] permutes_in_weaken[OF w(2), of 0 hi]] b
    by simp
  have top_i: "elem w i = elem v 0" using out[of i] u[of i] b by simp
  have rest: "elem w k = elem v k" if "i < k" "k \<le> hi" for k using out[of k] u[of k] that b by simp
  have small: "elem w k \<le> elem v 0" if "0 \<le> k" "k \<le> i - 1" for k
  proof (rule permutes_in_upper[OF w(2)])
    fix k' assume k': "0 \<le> k'" "k' \<le> i - 1"
    show "elem ?u k' \<le> elem v 0"
      using k' heap_root_max[OF heap, of k'] heap_root_max[OF heap, of i] b by (simp add: u)
  qed (use that b in auto)
  have "elem w a \<le> elem w c" if ac: "0 \<le> a" "a \<le> i - 1" "i - 1 < c" "c \<le> hi" for a c
    using small[of a] below[of 0 c] rest[of c] top_i ac b by (cases "c = i") auto
  moreover have "sorted_on w i hi"
  proof (rule sorted_on_join[of w i i hi])
    show "sorted_on w (i + 1) hi" using sorted rest by (simp cong: sorted_on_cong)
    show "elem w a \<le> elem w c" if "i \<le> a" "a \<le> i" "i < c" "c \<le> hi" for a c
      using that below[of 0 c] rest[of c] top_i b by (cases "a = i") auto
  qed simp
  ultimately have "extract_inv w (i - 1) hi" using w(3) by (simp add: extract_inv_def)
  with w(1) perm show ?thesis by blast
qed

lemma heap_extract_result:
  assumes "extract_inv v i hi" "- 1 \<le> i" "i \<le> hi" "hi < int (length v)" "int (length v) \<le> max_len"
  shows "\<exists>w. heap_extract v i = Some w \<and> sorts v 0 hi w"
  using assms
proof (induction v i rule: heap_extract.induct)
  case (1 v i)
  show ?case
  proof (cases "i \<ge> 0")
    case False
    then have "i = - 1" using "1.prems"(2) by simp
    then show ?thesis
      using "1.prems"(1) by (simp add: heap_extract.simps[of v "- 1"] extract_inv_def sorts_def)
  next
    case True
    obtain v2 where v2: "Heap (swapped v 0 i) 0 (i - 1) = Some v2" "permutes_in v 0 hi v2"
      "extract_inv v2 (i - 1) hi"
      using extract_round[of v i hi] "1.prems" True by auto
    have "v \<noteq> []" using True "1.prems" by auto
    then have steps: "swap_at v 0 i = Some (swapped v 0 i)" "i32 (i - 1) = Some (i - 1)"
      using True "1.prems" by (simp_all add: in_range)
    obtain w where w: "heap_extract v2 (i - 1) = Some w" "sorts v2 0 hi w"
      using "1.IH"[OF True steps v2(1)] v2(3) "1.prems" True permutes_in_length[OF v2(2)] by auto
    have "heap_extract v i = Some w" using True steps v2(1) w(1) by (simp add: heap_extract.simps[of v i])
    with v2(2) w(2) show ?thesis by (auto simp: sorts_def intro: permutes_in_trans)
  qed
qed

lemma HeapSort_result:
  assumes "- 1 \<le> hi" "hi < int (length v)" "int (length v) \<le> max_len"
  shows "\<exists>w. HeapSort v 0 hi = Some w \<and> sorts v 0 hi w"
proof -
  define i where "i = (hi + 1) sdiv 2 - 1"
  have i: "- 1 \<le> i" "i \<le> hi" "hi < 2 * (i + 1) + 1"
    using assms(1) by (auto simp: i_def sdiv_nonneg)
  obtain v1 where v1: "heap_build v i hi = Some v1" "permutes_in v 0 hi v1" "heap_from v1 0 hi"
    using heap_build_result[of v i hi] heap_from_leaves i assms by blast
  then have "extract_inv v1 hi hi" by (simp add: extract_inv_def)
  then obtain w where w: "heap_extract v1 hi = Some w" "sorts v1 0 hi w"
    using heap_extract_result[of v1 hi hi] assms permutes_in_length[OF v1(2)] by auto
  have "i32 i = Some i" using i assms by (simp add: in_range)
  then have "HeapSort v 0 hi = Some w"
    using assms v1(1) w(1) by (simp add: HeapSort_def in_range i_def)
  with v1(2) w(2) show ?thesis by (auto simp: sorts_def intro: permutes_in_trans)
qed

interpretation heaping: prefix_sort HeapSort
  using HeapSort_result by unfold_locales simp

end
