(* ===== verification/Sort_Main.thy ===== *)
theory Sort_Main
  imports Exchange_Sorts Merge_Sort Quick_Sort Heap_Sort "HOL-Library.Word"
begin

unbundle bit_operations_syntax

section \<open>The sorting programs\<close>

text \<open>
  The \<open>main\<close> functions of \<^verbatim>\<open>src/sort_algo\<close>, which all sort the same eleven numbers and print
  indices 0 to 10, and the properties of the six routines.
\<close>

definition vec :: "int list" where
  "vec = [2, 43, 54, 1, 8, 5, 0, 2, 32, 78, 10]"

text \<open>The printing loop \<open>for (int i = 0; i <= n; ++i) std::cout << vec[i]\<close>.\<close>

fun print_from :: "int list \<Rightarrow> int list \<Rightarrow> int list option" where
  "print_from v [] = Some []"
| "print_from v (i # is) = do { x \<leftarrow> rd v i; xs \<leftarrow> print_from v is; Some (x # xs) }"

definition bubble_main :: "int list option" where
  "bubble_main = do { v \<leftarrow> BubbleSort vec 0 10; print_from v [0..10] }"

definition insert_main :: "int list option" where
  "insert_main = do { v \<leftarrow> InsertSort vec 0 10; print_from v [0..10] }"

definition merge_main :: "int list option" where
  "merge_main = do { v \<leftarrow> MergeSort vec 0 10; print_from v [0..10] }"

definition quick_main :: "int list option" where
  "quick_main = do { v \<leftarrow> QuickSort vec 0 10; print_from v [0..10] }"

text \<open>\<open>heap_sort.cc\<close> gives \<open>vec_len\<close> as 10, although the array has eleven elements.\<close>

definition heap_main :: "int list option" where
  "heap_main = (let vec_len = 10 in do { v \<leftarrow> HeapSort vec 0 (vec_len - 1); print_from v [0..vec_len] })"

text \<open>\<open>choose_sort.cc\<close> also exchanges two numbers by exclusive ors.\<close>

definition xor_swap :: "32 word \<times> 32 word \<Rightarrow> 32 word \<times> 32 word" where
  "xor_swap ab = (case ab of (a, b) \<Rightarrow>
     let a1 = a XOR b; b1 = a1 XOR b; a2 = a1 XOR b1 in (a2, b1))"

definition choose_main :: "(int list \<times> (32 word \<times> 32 word) list) option" where
  "choose_main = do {
     v \<leftarrow> ChooseSort vec 0 10;
     out \<leftarrow> print_from v [0..10];
     Some (out, [(10, 9), xor_swap (10, 9)])
   }"

lemma vec_bounds: "int (length vec) \<le> max_len" "int (length vec) = 11"
  by (simp_all add: vec_def)

lemma sort_vec: "sort vec = [0, 1, 2, 2, 5, 8, 10, 32, 43, 54, 78]"
  by (simp add: vec_def)

text \<open>What a client of a routine gets from its contract, in one statement.\<close>

definition in_place_sorted :: "int list \<Rightarrow> int \<Rightarrow> int \<Rightarrow> int list \<Rightarrow> bool" where
  "in_place_sorted v lo hi w \<longleftrightarrow>
     (\<forall>i j. lo \<le> i \<and> i \<le> j \<and> j \<le> hi \<longrightarrow> elem w i \<le> elem w j) \<and> mset w = mset v
     \<and> length w = length v \<and> (\<forall>k. 0 \<le> k \<and> k < int (length v) \<and> (k < lo \<or> hi < k) \<longrightarrow> elem w k = elem v k)"

lemma sorts_in_place: "sorts v lo hi w \<Longrightarrow> in_place_sorted v lo hi w"
  by (auto simp: sorts_def in_place_sorted_def sorted_on_def permutes_in_def same_outside_def)

lemmas in_place = in_place_sorted_def [symmetric]

subsection \<open>The six routines\<close>

text \<open>C11: on every subrange of an array \<open>QuickSort\<close> ends without leaving the array or overflowing,
  and leaves the range sorted, the array permuted, and everything outside the range untouched.\<close>

theorem QuickSort_sorts:
  assumes "0 \<le> lo" "lo \<le> hi + 1" "hi < int (length v)" "int (length v) \<le> 2 ^ 30"
  shows "\<exists>w. QuickSort v lo hi = Some w \<and> in_place_sorted v lo hi w \<and> w = sort_range v lo hi"
  using quick.range_correct[OF assms] quick.range_result[OF assms] sorts_in_place by force

theorem QuickSort_sorts_witness: "QuickSort vec 0 10 = Some [0, 1, 2, 2, 5, 8, 10, 32, 43, 54, 78]"
  using QuickSort_sorts[of 0 10 vec] sort_range_whole[of vec] sort_vec by (simp add: vec_bounds)

text \<open>C12: the same for \<open>MergeSort\<close>, whose buffer is never read before it is written or outside
  its bounds.\<close>

theorem MergeSort_sorts:
  assumes "0 \<le> lo" "lo \<le> hi + 1" "hi < int (length v)" "int (length v) \<le> 2 ^ 30"
  shows "\<exists>w. MergeSort v lo hi = Some w \<and> in_place_sorted v lo hi w \<and> w = sort_range v lo hi"
  using merging.range_correct[OF assms] merging.range_result[OF assms] sorts_in_place by force

theorem MergeSort_sorts_witness: "MergeSort vec 0 10 = Some [0, 1, 2, 2, 5, 8, 10, 32, 43, 54, 78]"
  using MergeSort_sorts[of 0 10 vec] sort_range_whole[of vec] sort_vec by (simp add: vec_bounds)

text \<open>C13: \<open>HeapSort\<close> on the first elements of an array, up to \<open>hi\<close>.\<close>

theorem HeapSort_sorts:
  assumes "- 1 \<le> hi" "hi < int (length v)" "int (length v) \<le> 2 ^ 30"
  shows "\<exists>w. HeapSort v 0 hi = Some w \<and> in_place_sorted v 0 hi w \<and> w = sort_range v 0 hi"
  using heaping.prefix_correct[OF assms] heaping.prefix_result[OF assms] sorts_in_place by force

theorem HeapSort_sorts_witness: "HeapSort vec 0 10 = Some [0, 1, 2, 2, 5, 8, 10, 32, 43, 54, 78]"
  using HeapSort_sorts[of 10 vec] sort_range_whole[of vec] sort_vec by (simp add: vec_bounds)

text \<open>C14: \<open>BubbleSort\<close>, \<open>ChooseSort\<close> and \<open>InsertSort\<close> sort the first elements of an array, up to \<open>hi\<close>,
  and agree with each other; their argument \<open>start\<close> plays no part.\<close>

theorem exchange_sorts_sort:
  assumes "- 1 \<le> hi" "hi < int (length v)" "int (length v) \<le> 2 ^ 30"
  shows "\<exists>w. BubbleSort v start hi = Some w \<and> ChooseSort v start hi = Some w \<and> InsertSort v start hi = Some w
    \<and> in_place_sorted v 0 hi w \<and> w = sort_range v 0 hi"
proof -
  have "in_place_sorted v 0 hi (sort_range v 0 hi)"
    using bubble.prefix_correct[OF assms] bubble.prefix_result[OF assms] sorts_in_place by force
  then show ?thesis
    using bubble.prefix_result[OF assms] choose.prefix_result[OF assms] insertion.prefix_result[OF assms]
    by (simp add: BubbleSort_def ChooseSort_def InsertSort_def)
qed

theorem exchange_sorts_sort_witness:
  "BubbleSort vec 3 10 = Some [0, 1, 2, 2, 5, 8, 10, 32, 43, 54, 78]
   \<and> ChooseSort vec 3 10 = BubbleSort vec 3 10 \<and> InsertSort vec 3 10 = BubbleSort vec 3 10"
  using exchange_sorts_sort[of 10 vec 3] sort_range_whole[of vec] sort_vec by (auto simp: vec_bounds)

subsection \<open>Their parts\<close>

text \<open>\<open>ParititionSort\<close> permutes the range and returns the index where the old first element now
  stands, with nothing greater before it and nothing smaller after it.\<close>

theorem ParititionSort_splits:
  assumes "0 \<le> lo" "lo \<le> hi" "hi < int (length v)" "int (length v) \<le> 2 ^ 30"
  shows "\<exists>w p. ParititionSort v lo hi = Some (w, p) \<and> lo \<le> p \<and> p \<le> hi \<and> mset w = mset v
    \<and> elem w p = elem v lo \<and> (\<forall>k. lo \<le> k \<and> k < p \<longrightarrow> elem w k \<le> elem w p)
    \<and> (\<forall>k. p < k \<and> k \<le> hi \<longrightarrow> elem w p \<le> elem w k)
    \<and> (\<forall>k. 0 \<le> k \<and> k < int (length v) \<and> (k < lo \<or> hi < k) \<longrightarrow> elem w k = elem v k)"
  using ParititionSort_result[OF assms] unfolding permutes_in_def same_outside_def by metis

theorem ParititionSort_splits_witness:
  "\<exists>w p. ParititionSort vec 0 10 = Some (w, p) \<and> 0 \<le> p \<and> p \<le> 10 \<and> elem w p = 2"
  using ParititionSort_splits[of 0 10 vec] by (auto simp: vec_bounds) (auto simp: vec_def elem_def)

text \<open>\<open>Merge\<close> makes of two adjacent sorted ranges their ordered merge, in which equal elements of
  the left range come first: what the functional merge of the two lists gives.\<close>

theorem Merge_merges:
  assumes "0 \<le> lo" "lo \<le> mid + 1" "mid \<le> hi" "hi < int (length v)" "int (length v) \<le> 2 ^ 30"
  shows "\<exists>w. Merge v lo mid hi = Some w \<and> length w = length v
    \<and> (\<forall>k. 0 \<le> k \<and> k < int (length v) \<and> (k < lo \<or> hi < k) \<longrightarrow> elem w k = elem v k)
    \<and> map (elem w) [lo..hi] = merge_ref (map (elem v) [lo..mid]) (map (elem v) [mid + 1..hi])"
  using Merge_result[OF assms] unfolding same_outside_def Sort_Spec.slice_def by metis

theorem Merge_merges_witness:
  "\<exists>w. Merge [9, 1, 4, 2, 3] 1 2 4 = Some w \<and> map (elem w) [1..4] = [1, 2, 3, 4] \<and> elem w 0 = 9"
proof -
  have "merge_ref (map (elem [9, 1, 4, 2, 3]) [1..2]) (map (elem [9, 1, 4, 2, 3]) [2 + 1..4]) = [1, 2, 3, 4]"
    by (simp add: elem_def upto.simps)
  then show ?thesis
    using Merge_merges[of 1 2 4 "[9, 1, 4, 2, 3]"] by (force simp: elem_def)
qed

subsection \<open>The programs\<close>

lemma print_all: "int (length v) = 11 \<Longrightarrow> print_from v [0..10] = Some v"
proof -
  assume len: "int (length v) = 11"
  have "set is \<subseteq> {0..<int (length v)} \<Longrightarrow> print_from v is = Some (map (elem v) is)" for "is"
    by (induction "is") (auto simp: in_range)
  moreover have "set [0..10] \<subseteq> {0..<int (length v)}" using len by auto
  ultimately have "print_from v [0..10] = Some (map (elem v) [0..10])" by blast
  also have "map (elem v) [0..10] = v"
    using slice_all[of v] len by (simp add: Sort_Spec.slice_def)
  finally show ?thesis .
qed

text \<open>The programs print the numbers in order, except for \<open>heap_sort.cc\<close>, which sorts the first
  ten of its eleven numbers and prints the last one, 10, where it stood.\<close>

theorem programs_print:
  "bubble_main = Some [0, 1, 2, 2, 5, 8, 10, 32, 43, 54, 78]
   \<and> insert_main = bubble_main \<and> merge_main = bubble_main \<and> quick_main = bubble_main
   \<and> choose_main = Some ([0, 1, 2, 2, 5, 8, 10, 32, 43, 54, 78], [(10, 9), (9, 10)])
   \<and> heap_main = Some [0, 1, 2, 2, 5, 8, 32, 43, 54, 78, 10]"
proof -
  have "print_from (sort vec) [0..10] = Some (sort vec)"
    by (rule print_all) (simp add: vec_def)
  moreover have "print_from (sort_range vec 0 9) [0..10] = Some (sort_range vec 0 9)"
    by (rule print_all) (simp add: vec_def sort_range_def)
  moreover have "sort_range vec 0 9 = [0, 1, 2, 2, 5, 8, 32, 43, 54, 78, 10]"
    by (simp add: vec_def sort_range_def)
  moreover have "xor_swap (10, 9) = (9, 10)" by (simp add: xor_swap_def)
  ultimately show ?thesis
    using bubble.whole_result[OF vec_bounds(1)] insertion.whole_result[OF vec_bounds(1)]
      merging.whole_result[OF vec_bounds(1)] quick.whole_result[OF vec_bounds(1)]
      choose.whole_result[OF vec_bounds(1)] heaping.prefix_result[of 9 vec] sort_vec
    by (simp add: bubble_main_def insert_main_def merge_main_def quick_main_def choose_main_def
        heap_main_def vec_bounds)
qed

text \<open>The exchange by exclusive ors exchanges any two numbers.\<close>

theorem xor_swap_swaps: "xor_swap (a, b) = (b, a)"
  by (simp add: xor_swap_def Let_def xor.assoc)

end
