(* ===== verification/Decimal.thy ===== *)
theory Decimal
  imports Prelude
begin

section \<open>Decimal numbers as text\<close>

text \<open>
  What \<open>printf\<close> and \<open>std::ostream\<close> print for an integer: a minus sign and the decimal digits, with
  \<open>%0w\<close> padded with zeros to \<open>w\<close> characters, the sign included. Reading the digits back gives
  the number.
\<close>

fun digits_of :: "nat \<Rightarrow> string" where
  "digits_of n = (if n < 10 then [char_of (48 + n)] else digits_of (n div 10) @ [char_of (48 + n mod 10)])"

declare digits_of.simps [simp del]

definition print_i64 :: "int \<Rightarrow> string" where
  "print_i64 x = (if x < 0 then CHR ''-'' # digits_of (nat (- x)) else digits_of (nat x))"

definition print_padded :: "nat \<Rightarrow> int \<Rightarrow> string" where
  "print_padded w x =
     (let ds = digits_of (nat \<bar>x\<bar>); sign = (if x < 0 then [CHR ''-''] else [])
      in sign @ replicate (w - length sign - length ds) (CHR ''0'') @ ds)"

lemma digit_chars [simp]:
  "char_of (48 :: nat) = CHR ''0''" "char_of (49 :: nat) = CHR ''1''" "char_of (50 :: nat) = CHR ''2''"
  "char_of (51 :: nat) = CHR ''3''" "char_of (52 :: nat) = CHR ''4''" "char_of (53 :: nat) = CHR ''5''"
  "char_of (54 :: nat) = CHR ''6''" "char_of (55 :: nat) = CHR ''7''" "char_of (56 :: nat) = CHR ''8''"
  "char_of (57 :: nat) = CHR ''9''"
  by (simp_all add: char_of_def bit_0)

text \<open>\<open>snprintf\<close> into a buffer of \<open>n\<close> characters, the last of which is the terminating zero.\<close>

definition snprintf :: "nat \<Rightarrow> string \<Rightarrow> string" where
  "snprintf n s = take (n - 1) s"

lemma snprintf_fits [simp]: "length s < n \<Longrightarrow> snprintf n s = s"
  by (simp add: snprintf_def)

text \<open>The number that a string of digits denotes.\<close>

definition digit_val :: "char \<Rightarrow> nat" where
  "digit_val c = of_char c - 48"

definition number_of :: "string \<Rightarrow> nat" where
  "number_of s = foldl (\<lambda>n c. 10 * n + digit_val c) 0 s"

lemma digit_val_char [simp]: "d < 10 \<Longrightarrow> digit_val (char_of (48 + d)) = d"
  by (simp add: digit_val_def)

lemma number_of_snoc [simp]: "number_of (s @ [c]) = 10 * number_of s + digit_val c"
  by (simp add: number_of_def)

lemma number_of_Nil [simp]: "number_of [] = 0"
  by (simp add: number_of_def)

lemma number_of_digits [simp]: "number_of (digits_of n) = n"
proof (induction n rule: digits_of.induct)
  case (1 n)
  show ?case
  proof (cases "n < 10")
    case True
    then show ?thesis using number_of_snoc[of "[]"] by (simp add: digits_of.simps[of n])
  next
    case False
    then show ?thesis using 1 by (simp add: digits_of.simps[of n])
  qed
qed

lemma number_of_zeros [simp]: "number_of (replicate k (CHR ''0'') @ s) = number_of s"
proof (induction s rule: rev_induct)
  case Nil
  show ?case by (induction k) (simp_all add: number_of_def digit_val_def)
next
  case (snoc c s)
  then show ?case using number_of_snoc[of "replicate k (CHR ''0'') @ s" c] by simp
qed

lemma length_digits: "n < 10 ^ w \<Longrightarrow> 0 < w \<Longrightarrow> length (digits_of n) \<le> w"
proof (induction n arbitrary: w rule: digits_of.induct)
  case (1 n)
  show ?case
  proof (cases "n < 10")
    case True
    then show ?thesis using 1 by (simp add: digits_of.simps[of n])
  next
    case False
    then have "w \<noteq> 1" using 1(2) by auto
    then obtain v where v: "w = Suc v" "0 < v" using 1(3) by (cases w) auto
    then have "n div 10 < 10 ^ v" using 1(2) by auto
    then show ?thesis using 1(1)[OF False _ v(2)] False v by (simp add: digits_of.simps[of n])
  qed
qed

lemma digits_longer: "10 ^ w \<le> n \<Longrightarrow> w < length (digits_of n)"
proof (induction n arbitrary: w rule: digits_of.induct)
  case (1 n)
  show ?case
  proof (cases w)
    case 0
    then show ?thesis by (simp add: digits_of.simps[of n])
  next
    case (Suc v)
    have "(1 :: nat) \<le> 10 ^ v" by simp
    moreover have "10 * 10 ^ v \<le> n" using 1(2) Suc by simp
    ultimately have big: "\<not> n < 10" "10 ^ v \<le> n div 10"
      by (linarith, simp add: less_eq_div_iff_mult_less_eq mult.commute)
    then show ?thesis using 1(1)[OF big] Suc by (simp add: digits_of.simps[of n])
  qed
qed

lemma number_of_padded: "0 \<le> x \<Longrightarrow> number_of (print_padded w x) = nat x"
  by (simp add: print_padded_def Let_def)

lemma length_padded: "0 \<le> x \<Longrightarrow> x < 10 ^ w \<Longrightarrow> 0 < w \<Longrightarrow> length (print_padded w x) = w"
  using length_digits[of "nat x" w] by (auto simp: print_padded_def Let_def nat_less_iff)

end
