(* ===== verification/Heap_Demo.thy ===== *)
theory Heap_Demo
  imports Decimal
begin

section \<open>The library's heap functions\<close>

text \<open>
  \<^verbatim>\<open>src/sort_algo/use_heap.cc\<close> calls \<open>std::make_heap\<close>, \<open>push_heap\<close>, \<open>pop_heap\<close> and \<open>sort_heap\<close> on a vector
  of nine numbers and prints it after each call. Which heap the library builds is not specified: its
  functions are arguments, with what the standard says of them as hypotheses. What the standard
  requires of their arguments is tested before each call; outside it their behaviour is undefined.
\<close>

definition is_heap :: "int list \<Rightarrow> bool" where
  "is_heap v \<longleftrightarrow> (\<forall>i < length v. 0 < i \<longrightarrow> v ! i \<le> v ! ((i - 1) div 2))"

record heap_functions =
  make_heap :: "int list \<Rightarrow> int list"
  push_heap :: "int list \<Rightarrow> int list"
  pop_heap :: "int list \<Rightarrow> int list"
  sort_heap :: "int list \<Rightarrow> int list"

definition heap_functions_ok :: "heap_functions \<Rightarrow> bool" where
  "heap_functions_ok hf \<longleftrightarrow>
     (\<forall>v. mset (make_heap hf v) = mset v \<and> is_heap (make_heap hf v)) \<and>
     (\<forall>v. v \<noteq> [] \<and> is_heap (butlast v) \<longrightarrow> mset (push_heap hf v) = mset v \<and> is_heap (push_heap hf v)) \<and>
     (\<forall>v. v \<noteq> [] \<and> is_heap v \<longrightarrow> mset (pop_heap hf v) = mset v \<and> is_heap (butlast (pop_heap hf v)) \<and>
        last (pop_heap hf v) = v ! 0) \<and>
     (\<forall>v. is_heap v \<longrightarrow> sort_heap hf v = sort v)"

definition PrintHeap :: "int list \<Rightarrow> string" where
  "PrintHeap vec = ''>>>:'' @ concat (map (\<lambda>item. print_i64 item @ '','') vec) @ [CHR 0x0A]"

text \<open>What has been printed, and the vector, unless a call is undefined.\<close>

definition heap_demo_main :: "heap_functions \<Rightarrow> string \<times> int list option" where
  "heap_demo_main hf =
     (let vec = [2, 5, 1, 6, 3, 0, 9, 2]; out = PrintHeap vec;
          vec = make_heap hf vec; out = out @ PrintHeap vec;
          vec = vec @ [4]
      in if \<not> is_heap (butlast vec) then (out, None)
      else let vec = push_heap hf vec; out = out @ PrintHeap vec
      in if vec = [] \<or> \<not> is_heap vec then (out, None)
      else let vec = pop_heap hf vec; out = out @ PrintHeap vec
      in if \<not> is_heap vec then (out, None)
      else let vec = sort_heap hf vec in (out @ PrintHeap vec, Some vec))"

lemma heap_root: "is_heap v \<Longrightarrow> i < length v \<Longrightarrow> v ! i \<le> v ! 0"
proof (induction i rule: less_induct)
  case (less i)
  show ?case
  proof (cases "i = 0")
    case False
    then have "v ! i \<le> v ! ((i - 1) div 2)" using less.prems by (simp add: is_heap_def)
    also have "\<dots> \<le> v ! 0" using less False by (intro less.IH) auto
    finally show ?thesis .
  qed simp
qed

text \<open>A heap whose last element is its largest has that element twice.\<close>

lemma last_not_largest:
  assumes "is_heap w" "1 < length w" "\<forall>x \<in> set w. x \<le> last w"
  shows "1 < count (mset w) (last w)"
proof -
  let ?i = "(length w - 1 - 1) div 2"
  have i: "?i < length w - 1" using assms(2) by auto
  have "w \<noteq> []" using assms(2) by auto
  then have l: "last w = w ! (length w - 1)" by (rule last_conv_nth)
  have "length w - 1 < length w" "0 < length w - 1" using assms(2) by simp_all
  then have "last w \<le> w ! ?i" using assms(1) unfolding l is_heap_def by blast
  moreover have "w ! ?i \<le> last w" using assms(3) i by (simp add: less_diff_conv)
  ultimately have eq: "butlast w ! ?i = last w" using i by (simp add: nth_butlast)
  have "?i < length (butlast w)" using i by simp
  then have "last w \<in> set (butlast w)" using eq nth_mem by metis
  then have "0 < count (mset (butlast w)) (last w)" by simp
  moreover have "mset w = add_mset (last w) (mset (butlast w))"
    using \<open>w \<noteq> []\<close> by (metis append_butlast_last_id mset_append mset_single_iff_right add_mset_add_single mset.simps)
  ultimately show ?thesis by simp
qed

text \<open>The program calls \<open>sort_heap\<close> on the whole vector after \<open>pop_heap\<close> has moved the largest
  element to its end, which is not a heap: whatever the library, the call is undefined.\<close>

theorem heap_demo_undefined:
  assumes "heap_functions_ok hf"
  shows "snd (heap_demo_main hf) = None"
proof -
  let ?v = "[2, 5, 1, 6, 3, 0, 9, 2] :: int list"
  define v1 v2 v3 where v: "v1 = make_heap hf ?v" "v2 = push_heap hf (v1 @ [4])" "v3 = pop_heap hf v2"
  have v1: "mset v1 = mset ?v" "is_heap v1" using assms unfolding v by (auto simp: heap_functions_ok_def)
  then have v2: "mset v2 = mset (v1 @ [4])" "is_heap v2" using assms unfolding v by (auto simp: heap_functions_ok_def)
  then have "v2 \<noteq> []" by auto
  then have v3: "mset v3 = mset v2" "last v3 = v2 ! 0" using assms v2 unfolding v by (auto simp: heap_functions_ok_def)
  have m: "mset v3 = mset (?v @ [4])" using v1 v2 v3 by simp
  have set: "set v2 = {2, 5, 1, 6, 3, 0, 9, 4}" "set v3 = set v2"
    using mset_eq_setD[of v2 "?v @ [4]"] mset_eq_setD[OF v3(1)] v1 v2 by auto
  have "\<forall>x \<in> set v2. x \<le> v2 ! 0" using heap_root[OF v2(2)] by (auto simp: in_set_conv_nth)
  moreover have "v2 ! 0 \<in> set v2" using \<open>v2 \<noteq> []\<close> by simp
  ultimately have nine: "last v3 = 9" using set v3(2) by auto
  have "\<not> is_heap v3"
  proof
    assume "is_heap v3"
    moreover have "length v3 = 9" using arg_cong[OF m, of size] by simp
    ultimately have "1 < count (mset v3) 9" using last_not_largest[of v3] nine set by auto
    then show False using m by simp
  qed
  then show ?thesis by (simp add: heap_demo_main_def Let_def v[symmetric])
qed

text \<open>A library that keeps its heaps in descending order.\<close>

definition descending :: heap_functions where
  "descending =
     \<lparr>make_heap = (\<lambda>v. rev (sort v)), push_heap = (\<lambda>v. rev (sort v)),
      pop_heap = (\<lambda>v. rev (sort (tl v)) @ take 1 v), sort_heap = sort\<rparr>"

lemma rev_sort_heap: "is_heap (rev (sort v))"
proof -
  have "rev (sort v) ! i \<le> rev (sort v) ! ((i - 1) div 2)" if "i < length v" for i
  proof -
    have "(i - 1) div 2 \<le> i" by simp
    then show ?thesis using that by (simp add: rev_nth sorted_nth_mono)
  qed
  then show ?thesis by (simp add: is_heap_def)
qed

lemma descending_ok: "heap_functions_ok descending"
proof -
  have "mset (pop_heap descending v) = mset v \<and> is_heap (butlast (pop_heap descending v)) \<and>
      last (pop_heap descending v) = v ! 0" if "v \<noteq> []" for v
    using that by (cases v) (simp_all add: descending_def rev_sort_heap)
  then show ?thesis by (simp add: heap_functions_ok_def) (simp add: descending_def rev_sort_heap)
qed

theorem heap_demo_undefined_witness: "snd (heap_demo_main descending) = None"
  by (rule heap_demo_undefined[OF descending_ok])

end
