(* ===== verification/Timer_Channel.thy ===== *)
theory Timer_Channel
  imports Prelude "HOL-Library.Word"
begin

section \<open>Channels and epoll\<close>

text \<open>
  \<^verbatim>\<open>src/timerfd/timer_channel.h\<close>, \<^verbatim>\<open>timer_channel.cpp\<close>, \<^verbatim>\<open>timer_epoll.h\<close> and \<^verbatim>\<open>timer_epoll.cpp\<close>. Channels are
  objects in a store, addressed by pointers. The kernel's side is the interest list of the epoll
  descriptor, from file descriptors to the events asked for and the pointer given with them, and
  the set of open descriptors: \<open>epoll_ctl\<close> fails on a descriptor that is closed, that is already
  in the list (\<open>ADD\<close>) or that is not (\<open>MOD\<close>, \<open>DEL\<close>). Failed calls are logged, as the code does.
\<close>

unbundle bit_operations_syntax

type_synonym events = "32 word"
type_synonym chan = nat

definition EPOLLIN :: events where "EPOLLIN = 1"
definition EPOLLPRI :: events where "EPOLLPRI = 2"
definition EPOLLOUT :: events where "EPOLLOUT = 4"
definition EPOLLERR :: events where "EPOLLERR = 8"
definition EPOLLHUP :: events where "EPOLLHUP = 16"
definition EPOLLRDHUP :: events where "EPOLLRDHUP = 8192"

lemmas epoll_bits = EPOLLIN_def EPOLLPRI_def EPOLLOUT_def EPOLLERR_def EPOLLHUP_def EPOLLRDHUP_def

datatype handler = CloseCallback | ErrorCallback | ReadCallback | WriteCallback

record channel =
  fd :: int
  events :: events
  revents :: events
  isInEpoll :: bool
  callbacks :: "handler list" \<comment> \<open>those that are set\<close>

datatype ctl = CtlAdd | CtlMod | CtlDel

record reactor =
  chans :: "chan \<rightharpoonup> channel"
  interest :: "int \<rightharpoonup> events \<times> chan"
  open_fds :: "int list"
  epoll_log :: "ctl list"

subsection \<open>\<open>EpollTimer\<close>\<close>

text \<open>The system call.\<close>

definition epoll_ctl :: "ctl \<Rightarrow> int \<Rightarrow> events \<times> chan \<Rightarrow> reactor \<Rightarrow> bool \<times> reactor" where
  "epoll_ctl op f ev r =
     (if f \<notin> set (open_fds r) then (False, r)
      else case (op, interest r f) of
        (CtlAdd, None) \<Rightarrow> (True, r\<lparr>interest := (interest r)(f \<mapsto> ev)\<rparr>)
      | (CtlMod, Some _) \<Rightarrow> (True, r\<lparr>interest := (interest r)(f \<mapsto> ev)\<rparr>)
      | (CtlDel, Some _) \<Rightarrow> (True, r\<lparr>interest := (interest r)(f := None)\<rparr>)
      | _ \<Rightarrow> (False, r))"

definition logged_ctl :: "ctl \<Rightarrow> int \<Rightarrow> events \<times> chan \<Rightarrow> reactor \<Rightarrow> reactor" where
  "logged_ctl op f ev r =
     (case epoll_ctl op f ev r of (ok, r1) \<Rightarrow> if ok then r1 else r1\<lparr>epoll_log := epoll_log r1 @ [op]\<rparr>)"

definition get_chan :: "reactor \<Rightarrow> chan \<Rightarrow> fault + channel" where
  "get_chan r p = or_fault UseAfterFree (chans r p)"

definition set_chan :: "chan \<Rightarrow> channel \<Rightarrow> reactor \<Rightarrow> reactor" where
  "set_chan p ch r = r\<lparr>chans := (chans r)(p \<mapsto> ch)\<rparr>"

definition IsNoneEvent :: "channel \<Rightarrow> bool" where
  "IsNoneEvent ch \<longleftrightarrow> events ch = 0"

definition SetInEpoll :: "bool \<Rightarrow> channel \<Rightarrow> channel" where
  "SetInEpoll b ch = ch\<lparr>isInEpoll := b\<rparr>"

definition DelChannel :: "chan \<Rightarrow> reactor \<Rightarrow> fault + reactor" where
  "DelChannel p r =
     bindE (get_chan r p) (\<lambda>ch.
       if isInEpoll ch then Inr (set_chan p (SetInEpoll False ch) (logged_ctl CtlDel (fd ch) (0, p) r))
       else Inr r)"

definition UpdateChannel :: "chan \<Rightarrow> reactor \<Rightarrow> fault + reactor" where
  "UpdateChannel p r =
     bindE (get_chan r p) (\<lambda>ch.
       if isInEpoll ch then
         if IsNoneEvent ch then DelChannel p r
         else Inr (logged_ctl CtlMod (fd ch) (events ch, p) r)
       else Inr (set_chan p (SetInEpoll True ch) (logged_ctl CtlAdd (fd ch) (events ch, p) r)))"

text \<open>
  What \<open>epoll_wait\<close> returned is an argument: no events when it timed out or failed, and never more
  than the array holds, as the number of channels is far below its size.
\<close>

definition SetRevents :: "events \<Rightarrow> channel \<Rightarrow> channel" where
  "SetRevents ev ch = ch\<lparr>revents := ev\<rparr>"

fun EpollWaitActive :: "(events \<times> chan) list \<Rightarrow> reactor \<Rightarrow> fault + chan list \<times> reactor" where
  "EpollWaitActive [] r = Inr ([], r)"
| "EpollWaitActive ((ev, p) # evs) r =
     bindE (get_chan r p) (\<lambda>ch.
     bindE (EpollWaitActive evs (set_chan p (SetRevents ev ch) r)) (\<lambda>(ps, r1). Inr (p # ps, r1)))"

subsection \<open>\<open>ChannelTimer\<close>\<close>

definition ChannelTimer :: "int \<Rightarrow> channel" where
  "ChannelTimer f = \<lparr>fd = f, events = 0, revents = 0, isInEpoll = False, callbacks = []\<rparr>"

definition SetEvents :: "events \<Rightarrow> channel \<Rightarrow> channel" where
  "SetEvents ev ch = ch\<lparr>events := ev\<rparr>"

definition IsWrite :: "channel \<Rightarrow> bool" where
  "IsWrite ch \<longleftrightarrow> events ch AND EPOLLOUT \<noteq> 0"

definition IsRead :: "channel \<Rightarrow> bool" where
  "IsRead ch \<longleftrightarrow> events ch AND (EPOLLIN OR EPOLLPRI) \<noteq> 0"

definition SetCallback :: "handler \<Rightarrow> channel \<Rightarrow> channel" where
  "SetCallback h ch = ch\<lparr>callbacks := h # callbacks ch\<rparr>"

definition change_events :: "(events \<Rightarrow> events) \<Rightarrow> chan \<Rightarrow> reactor \<Rightarrow> fault + reactor" where
  "change_events f p r =
     bindE (get_chan r p) (\<lambda>ch. UpdateChannel p (set_chan p (ch\<lparr>events := f (events ch)\<rparr>) r))"

datatype channel_op =
    EnableReading chan | DisableReading chan | EnableWriting chan | DisableWriting chan | DisableAll chan
  | Remove chan

fun channel_step :: "channel_op \<Rightarrow> reactor \<Rightarrow> fault + reactor" where
  "channel_step (EnableReading p) r = change_events (\<lambda>e. e OR (EPOLLIN OR EPOLLPRI)) p r"
| "channel_step (DisableReading p) r = change_events (\<lambda>e. e AND NOT (EPOLLIN OR EPOLLPRI)) p r"
| "channel_step (EnableWriting p) r = change_events (\<lambda>e. e OR EPOLLOUT) p r"
| "channel_step (DisableWriting p) r = change_events (\<lambda>e. e AND NOT EPOLLOUT) p r"
| "channel_step (DisableAll p) r = change_events (\<lambda>_. 0) p r"
| "channel_step (Remove p) r = DelChannel p r"

fun op_target :: "channel_op \<Rightarrow> chan" where
  "op_target (EnableReading p) = p"
| "op_target (DisableReading p) = p"
| "op_target (EnableWriting p) = p"
| "op_target (DisableWriting p) = p"
| "op_target (DisableAll p) = p"
| "op_target (Remove p) = p"

text \<open>Which callbacks an event starts, in this order.\<close>

definition HandleEventWithGuard :: "channel \<Rightarrow> handler list" where
  "HandleEventWithGuard ch =
     (let has = (\<lambda>mask. revents ch AND mask \<noteq> 0); call = (\<lambda>h. if h \<in> set (callbacks ch) then [h] else [])
      in (if has EPOLLHUP \<and> \<not> has EPOLLIN then call CloseCallback else [])
       @ (if has EPOLLERR then call ErrorCallback else [])
       @ (if has (EPOLLIN OR EPOLLPRI OR EPOLLRDHUP) then call ReadCallback else [])
       @ (if has EPOLLOUT then call WriteCallback else []))"

subsection \<open>The kernel's list agrees with the channels\<close>

definition synced :: "reactor \<Rightarrow> bool" where
  "synced r \<longleftrightarrow>
     (\<forall>p c. chans r p = Some c \<longrightarrow> fd c \<in> set (open_fds r))
     \<and> (\<forall>p c p' c'. chans r p = Some c \<longrightarrow> chans r p' = Some c' \<longrightarrow> fd c = fd c' \<longrightarrow> p = p')
     \<and> (\<forall>p c. chans r p = Some c \<longrightarrow> isInEpoll c \<longrightarrow> interest r (fd c) = Some (events c, p))
     \<and> (\<forall>f e p. interest r f = Some (e, p) \<longrightarrow> (\<exists>c. chans r p = Some c \<and> fd c = f \<and> isInEpoll c \<and> events c = e))"

lemma syncedD:
  assumes "synced r"
  shows "chans r p = Some c \<Longrightarrow> fd c \<in> set (open_fds r)"
    and "chans r p = Some c \<Longrightarrow> chans r p' = Some c' \<Longrightarrow> fd c = fd c' \<Longrightarrow> p = p'"
    and "chans r p = Some c \<Longrightarrow> isInEpoll c \<Longrightarrow> interest r (fd c) = Some (events c, p)"
    and "interest r f = Some (e, p) \<Longrightarrow> \<exists>c. chans r p = Some c \<and> fd c = f \<and> isInEpoll c \<and> events c = e"
  using assms unfolding synced_def by blast+

text \<open>
  An update of one channel together with the kernel's entry for its descriptor keeps the agreement:
  each operation is an instance of this.
\<close>

definition reconciled :: "chan \<Rightarrow> channel \<Rightarrow> reactor \<Rightarrow> reactor" where
  "reconciled p c r = r\<lparr>chans := (chans r)(p \<mapsto> c),
     interest := (interest r)(fd c := if isInEpoll c then Some (events c, p) else None)\<rparr>"

lemma reconciled_synced:
  assumes s: "synced r" and old: "chans r p = Some c0" "fd c = fd c0"
  shows "synced (reconciled p c r)"
  unfolding synced_def
proof (intro conjI allI impI)
  let ?r = "reconciled p c r"
  have others: "fd d \<noteq> fd c0" if "chans r q = Some d" "q \<noteq> p" for q d
    using syncedD(2)[OF s that(1) old(1)] that(2) by blast
  fix q d assume q: "chans ?r q = Some d"
  show "fd d \<in> set (open_fds ?r)"
    using q syncedD(1)[OF s] old by (auto simp: reconciled_def split: if_splits)
  show "interest ?r (fd d) = Some (events d, q)" if "isInEpoll d"
    using q that syncedD(3)[OF s] others old(2) by (auto simp: reconciled_def split: if_splits)
  fix q' d' assume "chans ?r q' = Some d'" "fd d = fd d'"
  then show "q = q'"
    using q syncedD(2)[OF s] old others by (auto simp: reconciled_def split: if_splits)
next
  fix f e q assume "interest (reconciled p c r) f = Some (e, q)"
  then show "\<exists>d. chans (reconciled p c r) q = Some d \<and> fd d = f \<and> isInEpoll d \<and> events d = e"
    using syncedD(4)[OF s, of f e q] old by (auto simp: reconciled_def split: if_splits)
qed

lemma synced_unregistered:
  assumes "synced r" "chans r p = Some c" "\<not> isInEpoll c"
  shows "interest r (fd c) = None"
proof (rule ccontr)
  assume "interest r (fd c) \<noteq> None"
  then obtain e q where q: "interest r (fd c) = Some (e, q)" by auto
  then obtain d where "chans r q = Some d" "fd d = fd c" "isInEpoll d" using syncedD(4)[OF assms(1)] by blast
  then show False using syncedD(2)[OF assms(1,2), of q d] assms(2,3) by auto
qed

lemma isInEpoll_same: "isInEpoll c = b \<Longrightarrow> c\<lparr>isInEpoll := b\<rparr> = c"
  by (cases c) simp

lemma DelChannel_eq:
  assumes "synced r" "chans r p = Some c"
  shows "DelChannel p r = Inr (if isInEpoll c then reconciled p (SetInEpoll False c) r else r)"
  using syncedD(1,3)[OF assms] assms(2)
  by (auto simp: DelChannel_def get_chan_def set_chan_def logged_ctl_def epoll_ctl_def reconciled_def SetInEpoll_def)

lemma change_events_eq:
  assumes s: "synced r" and c: "chans r p = Some c"
  shows "change_events f p r = Inr (reconciled p (c\<lparr>events := f (events c),
    isInEpoll := \<not> isInEpoll c \<or> f (events c) \<noteq> 0\<rparr>) r)"
proof (cases "isInEpoll c")
  case True
  then show ?thesis
    using syncedD(1,3)[OF s c] c
    by (simp add: change_events_def UpdateChannel_def DelChannel_def get_chan_def set_chan_def logged_ctl_def
        epoll_ctl_def reconciled_def SetInEpoll_def IsNoneEvent_def isInEpoll_same)
next
  case False
  then show ?thesis
    using syncedD(1)[OF s c] synced_unregistered[OF s c] c
    by (simp add: change_events_def UpdateChannel_def get_chan_def set_chan_def logged_ctl_def epoll_ctl_def
        reconciled_def SetInEpoll_def)
qed

definition op_mask :: "channel_op \<Rightarrow> events \<Rightarrow> events" where
  "op_mask op e =
     (case op of
        EnableReading _ \<Rightarrow> e OR (EPOLLIN OR EPOLLPRI) | DisableReading _ \<Rightarrow> e AND NOT (EPOLLIN OR EPOLLPRI)
      | EnableWriting _ \<Rightarrow> e OR EPOLLOUT | DisableWriting _ \<Rightarrow> e AND NOT EPOLLOUT
      | DisableAll _ \<Rightarrow> 0 | Remove _ \<Rightarrow> e)"

text \<open>What an operation makes of its channel.\<close>

definition op_result :: "channel_op \<Rightarrow> channel \<Rightarrow> channel" where
  "op_result op c = c\<lparr>events := op_mask op (events c),
     isInEpoll := (case op of Remove _ \<Rightarrow> False | _ \<Rightarrow> \<not> isInEpoll c \<or> op_mask op (events c) \<noteq> 0)\<rparr>"

lemma reconciled_same:
  assumes "synced r" "chans r p = Some c"
  shows "reconciled p c r = r"
  using syncedD(3)[OF assms] synced_unregistered[OF assms] assms(2)
  by (auto simp: reconciled_def fun_upd_idem)

lemma channel_step_eq:
  assumes "synced r" "chans r (op_target op) = Some c"
  shows "channel_step op r = Inr (reconciled (op_target op) (op_result op c) r)"
proof (cases op)
  case (Remove p)
  then show ?thesis
    using DelChannel_eq[OF assms(1), of p c] reconciled_same[OF assms(1), of p c] assms(2)
    by (cases "isInEpoll c") (simp_all add: op_result_def op_mask_def SetInEpoll_def isInEpoll_same)
qed (use change_events_eq[OF assms(1)] assms(2) in \<open>simp_all add: op_result_def op_mask_def\<close>)

text \<open>C17: as long as the descriptors of the channels are open and no two channels share one, every sequence of
  operations on existing channels succeeds, no \<open>epoll_ctl\<close> call fails, and the kernel's interest
  list agrees with the channels at the end: registered exactly as \<open>isInEpoll_\<close> says, for the events
  of \<open>events_\<close>.\<close>

theorem channels_synced:
  assumes "synced r" "\<forall>op \<in> set ops. op_target op \<in> dom (chans r)"
  shows "\<exists>r'. steps channel_step ops r = Inr r' \<and> synced r' \<and> epoll_log r' = epoll_log r \<and> dom (chans r') = dom (chans r)"
  using assms
proof (induction ops arbitrary: r)
  case (Cons op ops)
  then obtain c where c: "chans r (op_target op) = Some c" by auto
  let ?r = "reconciled (op_target op) (op_result op c) r"
  have r: "synced ?r" by (rule reconciled_synced[OF Cons.prems(1) c]) (simp add: op_result_def)
  moreover have same: "dom (chans ?r) = dom (chans r)" "epoll_log ?r = epoll_log r" using c by (auto simp: reconciled_def)
  ultimately obtain r' where "steps channel_step ops ?r = Inr r'" "synced r'" "epoll_log r' = epoll_log r"
    "dom (chans r') = dom (chans r)"
    using Cons.IH[of ?r] Cons.prems(2) by auto
  then show ?case using channel_step_eq[OF Cons.prems(1) c] by simp
qed simp

text \<open>Two channels on the descriptors 4 and 5.\<close>

definition demo_reactor :: reactor where
  "demo_reactor = \<lparr>chans = [0 \<mapsto> ChannelTimer 4, 1 \<mapsto> ChannelTimer 5], interest = Map.empty, open_fds = [4, 5], epoll_log = []\<rparr>"

lemma demo_reactor_synced: "synced demo_reactor"
  by (auto simp: synced_def demo_reactor_def ChannelTimer_def split: if_splits)

theorem channels_synced_witness:
  "\<exists>r'. steps channel_step [EnableReading 0, EnableWriting 1, DisableAll 0, EnableReading 1] demo_reactor = Inr r' \<and> synced r'"
  using channels_synced[OF demo_reactor_synced, of "[EnableReading 0, EnableWriting 1, DisableAll 0, EnableReading 1]"]
  by (auto simp: demo_reactor_def)

text \<open>An operation that changes the events of a channel which is not registered registers it, even
  when it takes events away and none are left: \<open>DisableAll\<close> on a new channel adds its descriptor to
  the interest list with an empty mask, and a second \<open>DisableAll\<close> takes it off again.\<close>

theorem disabling_registers:
  assumes "synced r" "chans r p = Some c" "\<not> isInEpoll c"
  shows "\<exists>r1 r2. channel_step (DisableAll p) r = Inr r1 \<and> interest r1 (fd c) = Some (0, p)
    \<and> channel_step (DisableAll p) r1 = Inr r2 \<and> interest r2 (fd c) = None"
proof -
  let ?c1 = "op_result (DisableAll p) c"
  let ?r1 = "reconciled p ?c1 r"
  have c1: "fd ?c1 = fd c" "isInEpoll ?c1" "events ?c1 = 0" using assms(3) by (simp_all add: op_result_def op_mask_def)
  have 1: "channel_step (DisableAll p) r = Inr ?r1" using channel_step_eq[OF assms(1), of "DisableAll p"] assms(2) by simp
  have "synced ?r1" by (rule reconciled_synced[OF assms(1,2) c1(1)])
  moreover have "chans ?r1 p = Some ?c1" by (simp add: reconciled_def)
  ultimately have "channel_step (DisableAll p) ?r1 = Inr (reconciled p (op_result (DisableAll p) ?c1) ?r1)"
    using channel_step_eq[of ?r1 "DisableAll p"] by simp
  then show ?thesis using 1 c1 by (simp add: reconciled_def op_result_def op_mask_def)
qed

theorem disabling_registers_witness:
  "\<exists>r1. channel_step (DisableAll 0) demo_reactor = Inr r1 \<and> interest r1 4 = Some (0, 0)"
  using disabling_registers[OF demo_reactor_synced, of 0 "ChannelTimer 4"] by (auto simp: demo_reactor_def ChannelTimer_def)

end
