(* ===== verification/Double.thy ===== *)
theory Double
  imports Prelude Complex_Main
begin

section \<open>The C++ type \<open>double\<close>\<close>

text \<open>
  Timers and the rate limiter compute with \<open>double\<close>. A value is a finite rational, an infinity or
  a NaN; every arithmetic operation is the exact rational operation followed by the IEEE 754
  binary64 rounding to nearest, ties to even, with the subnormal range and overflow to infinity.
  The sign of zero is not represented: dividing by a zero gives the infinity of a positive zero.
\<close>

datatype double = Fin rat | PInf | NInf | NaN

subsection \<open>Rounding\<close>

function ilog2 :: "int \<Rightarrow> nat" where
  "ilog2 n = (if n < 2 then 0 else Suc (ilog2 (n div 2)))"
  by pat_completeness auto

termination
  by (relation "measure nat") auto

declare ilog2.simps [simp del]

text \<open>The exponent \<open>e\<close> of a positive rational: $2^e \le x < 2^{e+1}$.\<close>

definition rat_exp :: "rat \<Rightarrow> int" where
  "rat_exp x =
     (let (a, b) = quotient_of x; k = int (ilog2 a) - int (ilog2 b)
      in if 2 powi k \<le> x then k else k - 1)"

text \<open>The exponent of the last place: 53 significant bits, none below $2^{-1074}$.\<close>

definition ulp_exp :: "rat \<Rightarrow> int" where
  "ulp_exp x = max (rat_exp x - 52) (- 1074)"

definition half_even :: "rat \<Rightarrow> int" where
  "half_even x =
     (let f = \<lfloor>x\<rfloor>; d = x - of_int f
      in if d < 1 / 2 then f else if d > 1 / 2 then f + 1 else if even f then f else f + 1)"

definition round_pos :: "rat \<Rightarrow> rat" where
  "round_pos x = of_int (half_even (x / 2 powi ulp_exp x)) * 2 powi ulp_exp x"

definition round64 :: "rat \<Rightarrow> rat" where
  "round64 x = (if x = 0 then 0 else if 0 < x then round_pos x else - round_pos (- x))"

text \<open>Overflow: the rounded value has an exponent above 1023.\<close>

definition dbl :: "rat \<Rightarrow> double" where
  "dbl x = (let r = round64 x
            in if r = 0 \<or> rat_exp \<bar>r\<bar> < 1024 then Fin r else if 0 < r then PInf else NInf)"

subsection \<open>Operations\<close>

fun dneg :: "double \<Rightarrow> double" where
  "dneg (Fin x) = Fin (- x)"
| "dneg PInf = NInf"
| "dneg NInf = PInf"
| "dneg NaN = NaN"

fun dadd :: "double \<Rightarrow> double \<Rightarrow> double" where
  "dadd (Fin x) (Fin y) = dbl (x + y)"
| "dadd NaN _ = NaN"
| "dadd _ NaN = NaN"
| "dadd PInf NInf = NaN"
| "dadd NInf PInf = NaN"
| "dadd PInf _ = PInf"
| "dadd NInf _ = NInf"
| "dadd _ PInf = PInf"
| "dadd _ NInf = NInf"

definition dsub :: "double \<Rightarrow> double \<Rightarrow> double" where
  "dsub x y = dadd x (dneg y)"

text \<open>The infinity with the sign of a rational, and what a product with an infinity is.\<close>

definition inf_of_sign :: "rat \<Rightarrow> double" where
  "inf_of_sign x = (if 0 < x then PInf else if x < 0 then NInf else NaN)"

fun dmul :: "double \<Rightarrow> double \<Rightarrow> double" where
  "dmul (Fin x) (Fin y) = dbl (x * y)"
| "dmul NaN _ = NaN"
| "dmul _ NaN = NaN"
| "dmul (Fin x) PInf = inf_of_sign x"
| "dmul (Fin x) NInf = inf_of_sign (- x)"
| "dmul PInf (Fin y) = inf_of_sign y"
| "dmul NInf (Fin y) = inf_of_sign (- y)"
| "dmul PInf PInf = PInf"
| "dmul NInf NInf = PInf"
| "dmul PInf NInf = NInf"
| "dmul NInf PInf = NInf"

fun ddiv :: "double \<Rightarrow> double \<Rightarrow> double" where
  "ddiv (Fin x) (Fin y) = (if y = 0 then inf_of_sign x else dbl (x / y))"
| "ddiv NaN _ = NaN"
| "ddiv _ NaN = NaN"
| "ddiv (Fin x) PInf = Fin 0"
| "ddiv (Fin x) NInf = Fin 0"
| "ddiv PInf (Fin y) = (if y < 0 then NInf else PInf)"
| "ddiv NInf (Fin y) = (if y < 0 then PInf else NInf)"
| "ddiv _ _ = NaN"

fun dless :: "double \<Rightarrow> double \<Rightarrow> bool" where
  "dless (Fin x) (Fin y) = (x < y)"
| "dless NInf (Fin y) = True"
| "dless NInf PInf = True"
| "dless (Fin x) PInf = True"
| "dless _ _ = False"

text \<open>\<open>std::min(a, b)\<close> is \<open>b < a ? b : a\<close>.\<close>

definition dmin :: "double \<Rightarrow> double \<Rightarrow> double" where
  "dmin a b = (if dless b a then b else a)"

text \<open>\<open>a <= b\<close>: false as soon as one of the two is a NaN.\<close>

definition dle :: "double \<Rightarrow> double \<Rightarrow> bool" where
  "dle a b \<longleftrightarrow> a \<noteq> NaN \<and> b \<noteq> NaN \<and> \<not> dless b a"

definition of_i :: "int \<Rightarrow> double" where
  "of_i n = dbl (of_int n)"

text \<open>
  Conversion to an integer type truncates towards zero and is undefined when the result does not
  fit.
\<close>

definition trunc :: "rat \<Rightarrow> int" where
  "trunc x = (if 0 \<le> x then \<lfloor>x\<rfloor> else \<lceil>x\<rceil>)"

fun to_i64 :: "double \<Rightarrow> int option" where
  "to_i64 (Fin x) = (if in_i64 (trunc x) then Some (trunc x) else None)"
| "to_i64 _ = None"

fun to_u64 :: "double \<Rightarrow> int option" where
  "to_u64 (Fin x) = (if 0 \<le> trunc x \<and> trunc x < 2 ^ 64 then Some (trunc x) else None)"
| "to_u64 _ = None"

subsection \<open>Exponents\<close>

lemma ilog2_bounds:
  assumes "0 < n"
  shows "2 ^ ilog2 n \<le> n \<and> n < 2 ^ Suc (ilog2 n)"
  using assms
proof (induction n rule: ilog2.induct)
  case (1 n)
  show ?case
  proof (cases "n < 2")
    case True
    with "1.prems" show ?thesis by (simp add: ilog2.simps[of n])
  next
    case False
    then have "2 ^ ilog2 (n div 2) \<le> n div 2 \<and> n div 2 < 2 ^ Suc (ilog2 (n div 2))"
      using "1.IH" by simp
    with False show ?thesis by (simp add: ilog2.simps[of n]) linarith
  qed
qed

lemma ilog2_powi:
  assumes "0 < (a :: int)"
  shows "(2 :: rat) powi int (ilog2 a) \<le> of_int a" "(of_int a :: rat) < 2 powi (int (ilog2 a) + 1)"
proof -
  have "(of_int (2 ^ ilog2 a) :: rat) \<le> of_int a"
    using ilog2_bounds[OF assms] of_int_le_iff by blast
  then show "(2 :: rat) powi int (ilog2 a) \<le> of_int a" by simp
  have "(of_int a :: rat) < of_int (2 ^ Suc (ilog2 a))"
    using ilog2_bounds[OF assms] of_int_less_iff by blast
  then show "(of_int a :: rat) < 2 powi (int (ilog2 a) + 1)"
    by (simp add: power_int_add)
qed

lemma rat_exp_bounds:
  assumes "0 < x"
  shows "2 powi rat_exp x \<le> x" "x < 2 powi (rat_exp x + 1)"
proof -
  obtain a b where q: "quotient_of x = (a, b)" by (cases "quotient_of x")
  have b: "0 < b" and x: "x = of_int a / of_int b"
    using q by (simp_all add: quotient_of_denom_pos quotient_of_div)
  then have a: "0 < a" using assms by (simp add: zero_less_divide_iff)
  define la where "la = int (ilog2 a)"
  define lb where "lb = int (ilog2 b)"
  have "x < 2 powi (la + 1) / 2 powi lb"
    unfolding x la_def lb_def using ilog2_powi[OF a] ilog2_powi[OF b] a b
    by (intro frac_less) auto
  then have up: "x < 2 powi (la - lb + 1)" by (simp add: power_int_add power_int_diff)
  have "2 powi la / 2 powi (lb + 1) \<le> x"
    unfolding x la_def lb_def using ilog2_powi[OF a] ilog2_powi[OF b] a b
    by (intro frac_le) auto
  then have low: "2 powi (la - lb - 1) \<le> x" by (simp add: power_int_add power_int_diff)
  have e: "rat_exp x = (if 2 powi (la - lb) \<le> x then la - lb else la - lb - 1)"
    by (simp add: rat_exp_def q Let_def la_def lb_def)
  show "2 powi rat_exp x \<le> x" using low by (simp add: e)
  show "x < 2 powi (rat_exp x + 1)" using up by (simp add: e)
qed

lemma powi_less_iff: "(2 :: rat) powi a < 2 powi b \<longleftrightarrow> a < b"
  using power_int_strict_increasing[of a b "2 :: rat"] power_int_increasing[of b a "2 :: rat"] by force

lemma powi_le_iff: "(2 :: rat) powi a \<le> 2 powi b \<longleftrightarrow> a \<le> b"
  using powi_less_iff[of b a] by (simp add: not_less[symmetric])

lemma rat_exp_mono:
  assumes "0 < x" "x \<le> y"
  shows "rat_exp x \<le> rat_exp y"
proof -
  have "(2 :: rat) powi rat_exp x < 2 powi (rat_exp y + 1)"
    using rat_exp_bounds[of x] rat_exp_bounds[of y] assms by linarith
  then show ?thesis by (simp add: powi_less_iff)
qed

subsection \<open>Rounding is monotone and keeps representable values\<close>

lemma half_even_of_int [simp]: "half_even (of_int n) = n"
  by (simp add: half_even_def)

lemma half_even_bounds: "\<lfloor>x\<rfloor> \<le> half_even x" "half_even x \<le> \<lfloor>x\<rfloor> + 1"
  by (auto simp: half_even_def Let_def)

lemma half_even_mono:
  assumes "x \<le> y"
  shows "half_even x \<le> half_even y"
proof (cases "\<lfloor>x\<rfloor> = \<lfloor>y\<rfloor>")
  case True
  with assms show ?thesis by (auto simp: half_even_def Let_def)
next
  case False
  then have "\<lfloor>x\<rfloor> + 1 \<le> \<lfloor>y\<rfloor>" using floor_mono[OF assms] by linarith
  then show ?thesis using half_even_bounds(2)[of x] half_even_bounds(1)[of y] by linarith
qed

lemma half_even_le: "x \<le> of_int n \<Longrightarrow> half_even x \<le> n"
  using half_even_mono[of x "of_int n"] by simp

lemma half_even_ge: "of_int n \<le> x \<Longrightarrow> n \<le> half_even x"
  using half_even_mono[of "of_int n" x] by simp

lemma round_pos_exact: "x = of_int k * 2 powi ulp_exp x \<Longrightarrow> round_pos x = x"
proof -
  assume x: "x = of_int k * 2 powi ulp_exp x"
  then have "x / 2 powi ulp_exp x = of_int k"
    by (metis nonzero_mult_div_cancel_right power_int_not_zero zero_neq_numeral)
  then have "round_pos x = of_int k * 2 powi ulp_exp x" by (simp add: round_pos_def)
  with x show ?thesis by simp
qed

lemma round_pos_nonneg: "0 < x \<Longrightarrow> 0 \<le> round_pos x"
  using half_even_ge[of 0 "x / 2 powi ulp_exp x"] by (simp add: round_pos_def)

lemma powi_nat: "0 \<le> e \<Longrightarrow> (2 :: rat) powi e = of_int (2 ^ nat e)"
  by (simp add: power_int_def)

lemma round_pos_mono:
  assumes "0 < x" "x \<le> y"
  shows "round_pos x \<le> round_pos y"
proof (cases "ulp_exp x = ulp_exp y")
  case True
  have "x / 2 powi ulp_exp y \<le> y / 2 powi ulp_exp y" using assms by (simp add: divide_right_mono)
  then have "half_even (x / 2 powi ulp_exp y) \<le> half_even (y / 2 powi ulp_exp y)" by (rule half_even_mono)
  with True show ?thesis by (simp add: round_pos_def mult_right_mono)
next
  case False
  define e where "e = rat_exp y"
  have "rat_exp x \<le> e" using rat_exp_mono[OF assms] by (simp add: e_def)
  with False have q: "rat_exp x + 1 \<le> e" "ulp_exp y = e - 52" "ulp_exp x \<le> e"
    by (auto simp: ulp_exp_def e_def)
  have x: "x \<le> 2 powi e"
    using rat_exp_bounds(2)[OF assms(1)] powi_le_iff[of "rat_exp x + 1" e] q(1) by linarith
  have y: "2 powi e \<le> y" using rat_exp_bounds(1)[of y] assms by (simp add: e_def)
  have "x / 2 powi ulp_exp x \<le> 2 powi e / 2 powi ulp_exp x" using x by (simp add: divide_right_mono)
  also have "\<dots> = of_int (2 ^ nat (e - ulp_exp x))"
    using q(3) powi_nat[of "e - ulp_exp x"] by (simp add: power_int_diff)
  finally have "half_even (x / 2 powi ulp_exp x) \<le> 2 ^ nat (e - ulp_exp x)" by (rule half_even_le)
  then have "round_pos x \<le> of_int (2 ^ nat (e - ulp_exp x)) * 2 powi ulp_exp x"
    unfolding round_pos_def by (intro mult_right_mono) (simp_all only: of_int_le_iff, simp)
  also have "\<dots> = 2 powi e"
    using q(3) powi_nat[of "e - ulp_exp x", symmetric] by (simp add: power_int_diff)
  also have "\<dots> = of_int (2 ^ 52) * 2 powi ulp_exp y"
    by (simp add: q(2) power_int_diff)
  also have "\<dots> \<le> round_pos y"
  proof -
    have "of_int (2 ^ 52) \<le> y / 2 powi ulp_exp y"
      using y by (simp add: q(2) power_int_diff field_simps)
    then have "2 ^ 52 \<le> half_even (y / 2 powi ulp_exp y)" by (rule half_even_ge)
    then show ?thesis
      unfolding round_pos_def by (intro mult_right_mono) (simp_all only: of_int_le_iff, simp)
  qed
  finally show ?thesis .
qed

lemma round64_zero [simp]: "round64 0 = 0"
  by (simp add: round64_def)

lemma round64_mono: "x \<le> y \<Longrightarrow> round64 x \<le> round64 y"
  using round_pos_mono[of x y] round_pos_mono[of "- y" "- x"] round_pos_nonneg[of y] round_pos_nonneg[of "- x"]
  by (auto simp: round64_def)

lemma round64_nonneg: "0 \<le> x \<Longrightarrow> 0 \<le> round64 x"
  using round64_mono[of 0 x] by simp

text \<open>Integers of up to 53 bits are represented exactly.\<close>

lemma round_pos_of_int:
  assumes "0 < n" "n \<le> 2 ^ 53"
  shows "round_pos (of_int n) = of_int n"
proof -
  define e where "e = rat_exp (of_int n)"
  have "(2 :: rat) powi 0 < 2 powi (e + 1)"
    using rat_exp_bounds(2)[of "of_int n :: rat"] assms by (simp add: e_def)
  then have e0: "0 \<le> e" using powi_less_iff[of 0 "e + 1"] by simp
  have "(of_int n :: rat) \<le> of_int (2 ^ 53)" using assms(2) of_int_le_iff by blast
  then have "(2 :: rat) powi e \<le> 2 powi 53"
    using rat_exp_bounds(1)[of "of_int n :: rat"] assms(1) by (simp add: e_def)
  then have e53: "e \<le> 53" by (simp only: powi_le_iff)
  have ulp: "ulp_exp (of_int n) = e - 52" using e0 by (simp add: ulp_exp_def e_def)
  show ?thesis
  proof (cases "e = 53")
    case True
    then have "(2 :: rat) powi 53 \<le> of_int n" using rat_exp_bounds(1)[of "of_int n :: rat"] assms(1) by (simp add: e_def)
    then have "n = 2 ^ 53"
      using \<open>(of_int n :: rat) \<le> of_int (2 ^ 53)\<close> by (metis of_int_eq_iff order_antisym powi_nat nat_numeral zero_le_numeral)
    then show ?thesis
      using ulp True by (intro round_pos_exact[of _ "2 ^ 52"]) simp
  next
    case False
    then have "(2 :: rat) powi (52 - e) * 2 powi (e - 52) = 1" by (simp flip: power_int_add)
    then have "(of_int n :: rat) = of_int (n * 2 ^ nat (52 - e)) * 2 powi ulp_exp (of_int n)"
      using ulp e53 False powi_nat[of "52 - e"] by simp
    then show ?thesis by (rule round_pos_exact)
  qed
qed

lemma round64_of_int: "\<bar>n\<bar> \<le> 2 ^ 53 \<Longrightarrow> round64 (of_int n) = of_int n"
  using round_pos_of_int[of n] round_pos_of_int[of "- n"] by (auto simp: round64_def)

lemma dbl_of_int [simp]:
  assumes "\<bar>n\<bar> \<le> 2 ^ 53"
  shows "dbl (of_int n) = Fin (of_int n)"
proof (cases "n = 0")
  case False
  let ?r = "of_int \<bar>n\<bar> :: rat"
  have "?r \<le> of_int (2 ^ 53)" using assms by (simp only: of_int_le_iff)
  moreover have "0 < ?r" using False by simp
  ultimately have "(2 :: rat) powi rat_exp ?r \<le> 2 powi 53"
    using rat_exp_bounds(1)[of ?r] by simp
  then have "rat_exp ?r \<le> 53" by (simp only: powi_le_iff)
  then show ?thesis by (simp add: dbl_def round64_of_int[OF assms])
qed (simp add: dbl_def)

lemma dbl_Fin: "dbl x = Fin r \<Longrightarrow> r = round64 x"
  by (auto simp: dbl_def Let_def split: if_splits)

lemma dbl_NInf: "dbl x = NInf \<Longrightarrow> round64 x < 0"
  by (auto simp: dbl_def Let_def split: if_splits)

subsection \<open>Representable values\<close>

definition representable :: "rat \<Rightarrow> bool" where
  "representable x \<longleftrightarrow> round64 x = x"

lemma round_pos_scaled:
  assumes "0 < h" "h \<le> 2 ^ 53" "- 1074 \<le> u"
  shows "round_pos (of_int h * 2 powi u) = of_int h * 2 powi u" (is "round_pos ?r = ?r")
proof (cases "h = 2 ^ 53")
  case True
  then have r: "?r = 2 powi (u + 53)" by (simp add: power_int_add)
  then have "(2 :: rat) powi (u + 53) < 2 powi (rat_exp ?r + 1)" "(2 :: rat) powi rat_exp ?r \<le> 2 powi (u + 53)"
    using rat_exp_bounds[of ?r] by simp_all
  then have "rat_exp ?r = u + 53" by (simp only: powi_less_iff powi_le_iff)
  then have "ulp_exp ?r = u + 1" using assms(3) by (simp add: ulp_exp_def)
  then have "?r = of_int (2 ^ 52) * 2 powi ulp_exp ?r" by (simp add: True power_int_add)
  then show ?thesis by (rule round_pos_exact)
next
  case False
  then have h: "(of_int h :: rat) < 2 powi 53"
    using assms(2) powi_nat[of 53] by (simp add: less_le del: of_int_power)
  have "2 powi rat_exp ?r \<le> ?r" using assms(1) by (intro rat_exp_bounds(1)) simp
  also have "?r < 2 powi 53 * 2 powi u" using h by (intro mult_strict_right_mono) auto
  also have "\<dots> = 2 powi (u + 53)" by (simp add: power_int_add)
  finally have "(2 :: rat) powi rat_exp ?r < 2 powi (u + 53)" .
  then have ulp: "ulp_exp ?r \<le> u" using assms(3) by (simp add: powi_less_iff ulp_exp_def)
  have "(2 :: rat) powi u = 2 powi (u - ulp_exp ?r) * 2 powi ulp_exp ?r" by (simp flip: power_int_add)
  also have "2 powi (u - ulp_exp ?r) = (of_int (2 ^ nat (u - ulp_exp ?r)) :: rat)"
    using ulp by (intro powi_nat) simp
  finally have "?r = of_int (h * 2 ^ nat (u - ulp_exp ?r)) * 2 powi ulp_exp ?r" by simp
  then show ?thesis by (rule round_pos_exact)
qed

lemma round_pos_idem:
  assumes "0 < x"
  shows "round_pos (round_pos x) = round_pos x \<or> round_pos x = 0"
proof -
  let ?h = "half_even (x / 2 powi ulp_exp x)"
  have "rat_exp x + 1 \<le> ulp_exp x + 53" by (simp add: ulp_exp_def)
  then have "(2 :: rat) powi (rat_exp x + 1) \<le> 2 powi (ulp_exp x + 53)" by (simp only: powi_le_iff)
  then have "x < 2 powi (ulp_exp x + 53)" using rat_exp_bounds(2)[OF assms] by linarith
  then have "x / 2 powi ulp_exp x \<le> of_int (2 ^ 53)"
    by (simp add: power_int_add pos_divide_le_eq mult.commute)
  then have "?h \<le> 2 ^ 53" by (rule half_even_le)
  moreover have "0 \<le> ?h" using assms by (intro half_even_ge) simp
  moreover have "- 1074 \<le> ulp_exp x" by (simp add: ulp_exp_def)
  ultimately show ?thesis
    using round_pos_scaled[of ?h "ulp_exp x"] by (cases "?h = 0") (auto simp: round_pos_def)
qed

lemma representable_round64: "representable (round64 x)"
  using round_pos_idem[of x] round_pos_idem[of "- x"] round_pos_nonneg[of x] round_pos_nonneg[of "- x"]
  by (auto simp: representable_def round64_def)

lemma representable_dbl: "dbl x = Fin r \<Longrightarrow> representable r"
  using dbl_Fin representable_round64 by metis

lemma representable_of_int: "\<bar>n\<bar> \<le> 2 ^ 53 \<Longrightarrow> representable (of_int n)"
  by (simp add: representable_def round64_of_int)

text \<open>A result that is rounded stays on its side of a representable bound.\<close>

lemma dbl_ge:
  assumes "representable c" "0 \<le> c" "c \<le> x"
  shows "dbl x = PInf \<or> (\<exists>r. dbl x = Fin r \<and> c \<le> r)"
proof -
  have "c \<le> round64 x" using round64_mono[OF assms(3)] assms(1) by (simp add: representable_def)
  then show ?thesis using assms(2) by (auto simp: dbl_def Let_def)
qed

lemma dbl_le:
  assumes "representable c" "c \<le> 0" "x \<le> c"
  shows "dbl x = NInf \<or> (\<exists>r. dbl x = Fin r \<and> r \<le> c)"
proof -
  have "round64 x \<le> c" using round64_mono[OF assms(3)] assms(1) by (simp add: representable_def)
  then show ?thesis using assms(2) by (auto simp: dbl_def Let_def)
qed

lemma dbl_between:
  assumes "representable c" "0 \<le> x" "x \<le> c" "c < 2 powi 1024"
  obtains r where "dbl x = Fin r" "0 \<le> r" "r \<le> c" "representable r"
proof -
  have r: "0 \<le> round64 x" "round64 x \<le> c"
    using round64_mono[OF assms(3)] round64_nonneg[OF assms(2)] assms(1) by (simp_all add: representable_def)
  have "rat_exp (round64 x) < 1024" if "round64 x \<noteq> 0"
  proof -
    have "2 powi rat_exp (round64 x) \<le> round64 x" using rat_exp_bounds(1)[of "round64 x"] r that by simp
    then have "(2 :: rat) powi rat_exp (round64 x) < 2 powi 1024" using r assms(4) by linarith
    then show ?thesis by (simp only: powi_less_iff)
  qed
  then have "dbl x = Fin (round64 x)" using r by (auto simp: dbl_def Let_def)
  with r representable_round64 show thesis by (blast intro: that)
qed

end
