(* ===== verification/Timer_Stamp.thy ===== *)
theory Timer_Stamp
  imports Double Decimal "HOL-Library.Product_Lexorder"
begin

section \<open>Time stamps\<close>

text \<open>
  \<^verbatim>\<open>src/timerfd/timer_stamp.h\<close> and \<^verbatim>\<open>timer_stamp.cpp\<close>: a \<open>TimerStamp\<close> is a count of microseconds in
  an \<open>int64_t\<close>. Its comparison operators make it a linear order, so pairs of a stamp and an
  address are ordered lexicographically, as \<open>std::pair\<close> orders them.
\<close>

datatype timer_stamp = TimerStamp (micros: int)

definition stamp_less :: "timer_stamp \<Rightarrow> timer_stamp \<Rightarrow> bool" where
  "stamp_less lhs rhs \<longleftrightarrow> micros lhs < micros rhs"

definition stamp_equal :: "timer_stamp \<Rightarrow> timer_stamp \<Rightarrow> bool" where
  "stamp_equal lhs rhs \<longleftrightarrow> micros lhs = micros rhs"

instantiation timer_stamp :: linorder
begin

definition less_timer_stamp :: "timer_stamp \<Rightarrow> timer_stamp \<Rightarrow> bool" where
  "less_timer_stamp lhs rhs \<longleftrightarrow> stamp_less lhs rhs"

definition less_eq_timer_stamp :: "timer_stamp \<Rightarrow> timer_stamp \<Rightarrow> bool" where
  "less_eq_timer_stamp lhs rhs \<longleftrightarrow> micros lhs \<le> micros rhs"

instance
  by intro_classes (auto simp: less_timer_stamp_def stamp_less_def less_eq_timer_stamp_def timer_stamp.expand)

end

lemmas stamp_order = less_timer_stamp_def stamp_less_def less_eq_timer_stamp_def

lemma stamp_equal_eq: "stamp_equal lhs rhs \<longleftrightarrow> lhs = rhs"
  by (cases lhs; cases rhs) (simp add: stamp_equal_def)

definition kMicroSecondsPerSecond :: int where
  "kMicroSecondsPerSecond = 1000 * 1000"

definition Invalid :: timer_stamp where
  "Invalid = TimerStamp 0"

definition Valid :: "timer_stamp \<Rightarrow> bool" where
  "Valid t \<longleftrightarrow> 0 < micros t"

text \<open>The \<open>int64_t\<close> result of an operation: undefined when it does not fit.\<close>

definition i64 :: "int \<Rightarrow> int option" where
  "i64 x = (if in_i64 x then Some x else None)"

lemma i64_in_range [in_range]: "- (2 ^ 63) \<le> x \<Longrightarrow> x < 2 ^ 63 \<Longrightarrow> i64 x = Some x"
  by (simp add: i64_def in_i64_def)

lemma i64_Some_iff: "i64 x = Some y \<longleftrightarrow> y = x \<and> in_i64 x"
  by (auto simp: i64_def)

definition TimeDifference :: "timer_stamp \<Rightarrow> timer_stamp \<Rightarrow> double option" where
  "TimeDifference high low = do {
     diff \<leftarrow> i64 (micros high - micros low);
     Some (ddiv (of_i diff) (of_i kMicroSecondsPerSecond))
   }"

definition AddTime :: "timer_stamp \<Rightarrow> double \<Rightarrow> timer_stamp option" where
  "AddTime timestamp seconds = do {
     delta \<leftarrow> to_i64 (dmul seconds (of_i kMicroSecondsPerSecond));
     m \<leftarrow> i64 (micros timestamp + delta);
     Some (TimerStamp m)
   }"

lemma AddTime_Some: "AddTime t s = Some u \<Longrightarrow> in_i64 (micros u)"
  by (auto simp: AddTime_def bind_eq_Some_conv i64_Some_iff)

subsection \<open>Printing\<close>

text \<open>
  \<open>ToString\<close>: \<open>snprintf\<close> of \<^verbatim>\<open>"%" PRId64 ".%06" PRId64\<close> into a buffer of 32
  characters.
\<close>

definition ToString :: "timer_stamp \<Rightarrow> string" where
  "ToString t =
     (let seconds = micros t sdiv kMicroSecondsPerSecond;
          microseconds = micros t smod kMicroSecondsPerSecond
      in snprintf 32 (print_i64 seconds @ ''.'' @ print_padded 6 microseconds))"

subsection \<open>Adding and subtracting whole seconds\<close>

lemma k_value: "kMicroSecondsPerSecond = 1000000"
  by (simp add: kMicroSecondsPerSecond_def)

lemma delta_of_seconds:
  assumes "\<bar>n * 1000000\<bar> \<le> 2 ^ 53"
  shows "to_i64 (dmul (of_i n) (of_i kMicroSecondsPerSecond)) = Some (n * 1000000)"
proof -
  have "\<bar>n\<bar> \<le> 2 ^ 53" using assms by auto
  then have "dmul (of_i n) (of_i kMicroSecondsPerSecond) = dbl (of_int n * of_int 1000000)"
    using dbl_of_int[of 1000000] by (simp add: of_i_def k_value)
  also have "\<dots> = Fin (of_int (n * 1000000))" using dbl_of_int[OF assms] by simp
  finally have "to_i64 (dmul (of_i n) (of_i kMicroSecondsPerSecond)) = to_i64 (Fin (of_int (n * 1000000)))"
    by simp
  moreover have "trunc (of_int (n * 1000000)) = n * 1000000" by (simp add: trunc_def del: of_int_mult)
  moreover have "in_i64 (n * 1000000)" using assms by (auto simp: in_i64_def)
  ultimately show ?thesis by (simp del: of_int_mult)
qed

lemma AddTime_seconds:
  assumes "\<bar>n * 1000000\<bar> \<le> 2 ^ 53" "in_i64 (micros t + n * 1000000)"
  shows "AddTime t (of_i n) = Some (TimerStamp (micros t + n * 1000000))"
  using assms by (simp add: AddTime_def delta_of_seconds i64_def)

lemma TimeDifference_seconds:
  assumes "\<bar>n * 1000000\<bar> \<le> 2 ^ 53" "micros high - micros low = n * 1000000"
  shows "TimeDifference high low = Some (of_i n)"
proof -
  have "of_i (n * 1000000) = Fin (of_int (n * 1000000))" "of_i 1000000 = Fin 1000000"
    using dbl_of_int[OF assms(1)] dbl_of_int[of 1000000] by (simp_all add: of_i_def)
  then have "ddiv (of_i (n * 1000000)) (of_i kMicroSecondsPerSecond) = of_i n"
    by (simp add: k_value of_i_def)
  moreover have "i64 (n * 1000000) = Some (n * 1000000)"
    using assms(1) by (intro i64_in_range) auto
  ultimately show ?thesis using assms(2) by (simp add: TimeDifference_def)
qed

end
