(* ===== verification/Timer_Queue.thy ===== *)
theory Timer_Queue
  imports Timer_Stamp
begin

section \<open>Timers and the timer queue\<close>

text \<open>
  \<^verbatim>\<open>src/timerfd/timer.h\<close>, \<^verbatim>\<open>timer.cpp\<close>, \<^verbatim>\<open>timer_queue.h\<close> and \<^verbatim>\<open>timer_queue.cpp\<close>.

  Timer objects live in an explicit store from addresses to objects: \<open>new\<close> adds one, \<open>delete\<close>
  removes it, and every access through a pointer fails with \<open>UseAfterFree\<close> when it is gone.
  \<open>std::set<std::pair<TimerStamp, Timer*>>\<close> is a strictly sorted list, \<open>std::unordered_map\<close> an
  association list with distinct keys. The kernel's timerfd is part of the state: when it is due,
  and how many expirations can be read from it.

  What the code gets from outside is one record: the addresses that \<open>new\<close> returns, the readings
  of the clock in the order they are taken, and for each callback the calls it makes to the timer
  interface, which is how callbacks re-enter the queue.
\<close>

type_synonym addr = int

definition UINTPTR_MAX :: addr where
  "UINTPTR_MAX = 2 ^ 64 - 1"

record timer =
  callback :: nat
  expiration :: timer_stamp
  interval :: double
  repeat_timer :: bool
  sequence :: int

datatype action =
    AddAt timer_stamp nat \<comment> \<open>\<open>AddtimerAtTime\<close>\<close>
  | AddAfter double nat \<comment> \<open>\<open>AddtimerAfterTime\<close>\<close>
  | AddEvery double nat \<comment> \<open>\<open>AddtimerEveryTime\<close>\<close>
  | Stop int \<comment> \<open>\<open>StopTimer\<close>\<close>

datatype event =
    Fired int \<comment> \<open>the callback of the timer with this sequence number starts\<close>
  | ReadError \<comment> \<open>\<open>TimerQueue::HandleRead() reads\<close> other than 8 bytes\<close>
  | SettimeError

record env =
  alloc :: "(addr \<Rightarrow> timer option) \<Rightarrow> addr option"
  clock :: "nat \<Rightarrow> int"
  program :: "nat \<Rightarrow> action list"

record queue =
  timers :: "(timer_stamp \<times> addr) list"
  active_timers :: "(int \<times> addr) list"
  canceling_timers :: "(int \<times> addr) list"
  calling_expired :: "bool option" \<comment> \<open>\<open>None\<close>: not yet written, as the constructor leaves it\<close>
  store :: "addr \<Rightarrow> timer option"
  num_created :: int
  ticks :: nat \<comment> \<open>clock readings taken\<close>
  tfd_due :: "int option"
  tfd_count :: nat
  log :: "event list"

subsection \<open>Timer objects\<close>

definition new_timer :: "nat \<Rightarrow> timer_stamp \<Rightarrow> double \<Rightarrow> int \<Rightarrow> timer" where
  "new_timer cb when ival seq =
     \<lparr>callback = cb, expiration = when, interval = ival,
      repeat_timer = dless (Fin 0) ival, sequence = seq\<rparr>"

definition ReStart :: "timer_stamp \<Rightarrow> timer \<Rightarrow> fault + timer" where
  "ReStart now t =
     (if repeat_timer t
      then bindE (or_fault BadCast (AddTime now (interval t))) (\<lambda>e. Inr (t\<lparr>expiration := e\<rparr>))
      else Inr (t\<lparr>expiration := Invalid\<rparr>))"

text \<open>Reading an object through a pointer.\<close>

definition deref :: "queue \<Rightarrow> addr \<Rightarrow> fault + timer" where
  "deref q p = or_fault UseAfterFree (store q p)"

definition delete_timer :: "addr \<Rightarrow> queue \<Rightarrow> fault + queue" where
  "delete_timer p q =
     bindE (deref q p) (\<lambda>_. Inr (q\<lparr>store := (store q)(p := None)\<rparr>))"

subsection \<open>The timer file descriptor\<close>

definition read_clock :: "env \<Rightarrow> queue \<Rightarrow> timer_stamp \<times> queue" where
  "read_clock env q = (TimerStamp (clock env (ticks q)), q\<lparr>ticks := Suc (ticks q)\<rparr>)"

text \<open>\<open>howMuchTimeFronNow\<close>: seconds and nanoseconds, at least 100 microseconds.\<close>

definition howMuchTimeFronNow :: "timer_stamp \<Rightarrow> timer_stamp \<Rightarrow> (int \<times> int) option" where
  "howMuchTimeFronNow when now = do {
     d \<leftarrow> i64 (micros when - micros now);
     let microseconds = (if d < 100 then 100 else d);
     Some (microseconds sdiv kMicroSecondsPerSecond,
           (microseconds smod kMicroSecondsPerSecond) * 1000)
   }"

text \<open>
  \<open>timerfd_settime\<close> with a relative, non-repeating value: refused outside the valid range of
  nanoseconds, disarms for zero, otherwise arms and forgets unread expirations.
\<close>

definition timerfd_settime :: "timer_stamp \<Rightarrow> int \<times> int \<Rightarrow> queue \<Rightarrow> bool \<times> queue" where
  "timerfd_settime now ts q =
     (case ts of (sec, nsec) \<Rightarrow>
       if sec < 0 \<or> nsec < 0 \<or> 999999999 < nsec then (False, q)
       else (True, q\<lparr>tfd_count := 0,
              tfd_due := (if sec = 0 \<and> nsec = 0 then None
                          else Some (micros now + sec * 1000000 + nsec div 1000))\<rparr>))"

definition resetTimerfd :: "env \<Rightarrow> timer_stamp \<Rightarrow> queue \<Rightarrow> fault + queue" where
  "resetTimerfd env e q =
     (case read_clock env q of (now, q1) \<Rightarrow>
       bindE (or_fault IntOverflow (howMuchTimeFronNow e now)) (\<lambda>ts.
         case timerfd_settime now ts q1 of (ok, q2) \<Rightarrow>
           Inr (if ok then q2 else q2\<lparr>log := log q2 @ [SettimeError]\<rparr>)))"

text \<open>A non-blocking read: it fails when nothing has expired, and otherwise clears the count.\<close>

definition readTimerfd :: "queue \<Rightarrow> queue" where
  "readTimerfd q =
     (if tfd_count q = 0 then q\<lparr>log := log q @ [ReadError]\<rparr> else q\<lparr>tfd_count := 0\<rparr>)"

text \<open>The kernel's own step: the armed time has come.\<close>

definition timerfd_expire :: "int \<Rightarrow> queue \<Rightarrow> queue" where
  "timerfd_expire t q =
     (case tfd_due q of
        Some d \<Rightarrow> if d \<le> t then q\<lparr>tfd_due := None, tfd_count := Suc (tfd_count q)\<rparr> else q
      | None \<Rightarrow> q)"

subsection \<open>Operations of the queue\<close>

definition check_sizes :: "queue \<Rightarrow> fault + queue" where
  "check_sizes q = (if length (timers q) = length (active_timers q) then Inr q else Inl AssertFailed)"

text \<open>\<open>unordered_map::emplace\<close>: an existing key keeps its value.\<close>

definition emplace :: "'k \<Rightarrow> 'v \<Rightarrow> ('k \<times> 'v) list \<Rightarrow> ('k \<times> 'v) list" where
  "emplace k v m = (if map_of m k = None then (k, v) # m else m)"

definition erase_key :: "'k \<Rightarrow> ('k \<times> 'v) list \<Rightarrow> ('k \<times> 'v) list" where
  "erase_key k m = filter (\<lambda>e. fst e \<noteq> k) m"

definition insert_timer :: "addr \<Rightarrow> queue \<Rightarrow> fault + bool \<times> queue" where
  "insert_timer p q =
     bindE (check_sizes q) (\<lambda>_.
     bindE (deref q p) (\<lambda>t.
     let when = expiration t;
         earliestChanged = (case timers q of [] \<Rightarrow> True | (w, _) # _ \<Rightarrow> when < w);
         q1 = q\<lparr>timers := insort_insert (when, p) (timers q),
                active_timers := emplace (sequence t) p (active_timers q)\<rparr>
     in bindE (check_sizes q1) (\<lambda>q2. Inr (earliestChanged, q2))))"

definition AddTimerInLoop :: "env \<Rightarrow> addr \<Rightarrow> queue \<Rightarrow> fault + queue" where
  "AddTimerInLoop env p q =
     bindE (insert_timer p q) (\<lambda>(earliestChanged, q1).
       if earliestChanged
       then bindE (deref q1 p) (\<lambda>t. resetTimerfd env (expiration t) q1)
       else Inr q1)"

definition AddTimer :: "env \<Rightarrow> nat \<Rightarrow> timer_stamp \<Rightarrow> double \<Rightarrow> queue \<Rightarrow> fault + int \<times> queue" where
  "AddTimer env cb when ival q =
     bindE (or_fault BadAlloc (alloc env (store q))) (\<lambda>p.
     let q1 = q\<lparr>store := (store q)(p \<mapsto> new_timer cb when ival (num_created q)),
                num_created := num_created q + 1\<rparr>
     in bindE (AddTimerInLoop env p q1) (\<lambda>q2.
        bindE (deref q2 p) (\<lambda>t. Inr (sequence t, q2))))"

text \<open>
  \<open>CancelInLoop\<close>. In the last branch \<open>it\<close> is the end iterator, and \<open>it->second\<close> dereferences it.
\<close>

definition CancelInLoop :: "int \<Rightarrow> queue \<Rightarrow> fault + queue" where
  "CancelInLoop timerId q =
     (case map_of (active_timers q) timerId of
        Some p \<Rightarrow>
          bindE (deref q p) (\<lambda>t.
          let q1 = q\<lparr>timers := remove1 (expiration t, p) (timers q)\<rparr>
          in bindE (delete_timer p q1) (\<lambda>q2.
             check_sizes (q2\<lparr>active_timers := erase_key timerId (active_timers q2)\<rparr>)))
      | None \<Rightarrow>
          (case calling_expired q of
             None \<Rightarrow> Inl UninitRead
           | Some True \<Rightarrow> Inl EndDeref
           | Some False \<Rightarrow> check_sizes q))"

definition StopTimer :: "int \<Rightarrow> queue \<Rightarrow> fault + queue" where
  "StopTimer timerId q = CancelInLoop timerId q"

subsection \<open>The interface of \<open>TimerEventMgr\<close>, and what callbacks do with it\<close>

definition AddtimerAtTime :: "env \<Rightarrow> timer_stamp \<Rightarrow> nat \<Rightarrow> queue \<Rightarrow> fault + int \<times> queue" where
  "AddtimerAtTime env time cb q = AddTimer env cb time (Fin 0) q"

definition AddtimerAfterTime :: "env \<Rightarrow> double \<Rightarrow> nat \<Rightarrow> queue \<Rightarrow> fault + int \<times> queue" where
  "AddtimerAfterTime env delay cb q =
     (case read_clock env q of (now, q1) \<Rightarrow>
       bindE (or_fault BadCast (AddTime now delay)) (\<lambda>time. AddtimerAtTime env time cb q1))"

definition AddtimerEveryTime :: "env \<Rightarrow> double \<Rightarrow> nat \<Rightarrow> queue \<Rightarrow> fault + int \<times> queue" where
  "AddtimerEveryTime env ival cb q =
     (case read_clock env q of (now, q1) \<Rightarrow>
       bindE (or_fault BadCast (AddTime now ival)) (\<lambda>time. AddTimer env cb time ival q1))"

fun run_action :: "env \<Rightarrow> action \<Rightarrow> queue \<Rightarrow> fault + queue" where
  "run_action env (AddAt time cb) q = bindE (AddtimerAtTime env time cb q) (\<lambda>(_, q'). Inr q')"
| "run_action env (AddAfter d cb) q = bindE (AddtimerAfterTime env d cb q) (\<lambda>(_, q'). Inr q')"
| "run_action env (AddEvery d cb) q = bindE (AddtimerEveryTime env d cb q) (\<lambda>(_, q'). Inr q')"
| "run_action env (Stop i) q = StopTimer i q"

text \<open>\<open>Timer::Start\<close> through a pointer.\<close>

definition Start :: "env \<Rightarrow> addr \<Rightarrow> queue \<Rightarrow> fault + queue" where
  "Start env p q =
     bindE (deref q p) (\<lambda>t.
       steps (run_action env) (program env (callback t)) (q\<lparr>log := log q @ [Fired (sequence t)]\<rparr>))"

subsection \<open>Expiry\<close>

fun forget_active :: "(timer_stamp \<times> addr) list \<Rightarrow> queue \<Rightarrow> fault + queue" where
  "forget_active [] q = Inr q"
| "forget_active ((w, p) # es) q =
     bindE (deref q p) (\<lambda>t.
       forget_active es (q\<lparr>active_timers := erase_key (sequence t) (active_timers q)\<rparr>))"

text \<open>\<open>upper_bound(sentry)\<close> is the first entry greater than \<open>(NowTime, UINTPTR_MAX)\<close>.\<close>

definition GetExpired :: "timer_stamp \<Rightarrow> queue \<Rightarrow> fault + (timer_stamp \<times> addr) list \<times> queue" where
  "GetExpired now q =
     (let sentry = (now, UINTPTR_MAX);
          expired = takeWhile (\<lambda>e. e \<le> sentry) (timers q);
          q1 = q\<lparr>timers := dropWhile (\<lambda>e. e \<le> sentry) (timers q)\<rparr>
      in bindE (forget_active expired q1) (\<lambda>q2. bindE (check_sizes q2) (\<lambda>q3. Inr (expired, q3))))"

fun start_all :: "env \<Rightarrow> (timer_stamp \<times> addr) list \<Rightarrow> queue \<Rightarrow> fault + queue" where
  "start_all env [] q = Inr q"
| "start_all env ((w, p) # es) q = bindE (Start env p q) (start_all env es)"

fun reset_all :: "timer_stamp \<Rightarrow> (timer_stamp \<times> addr) list \<Rightarrow> queue \<Rightarrow> fault + queue" where
  "reset_all now [] q = Inr q"
| "reset_all now ((w, p) # es) q =
     bindE (deref q p) (\<lambda>t.
       if repeat_timer t \<and> map_of (canceling_timers q) (sequence t) = None
       then bindE (ReStart now t) (\<lambda>t'.
            bindE (insert_timer p (q\<lparr>store := (store q)(p \<mapsto> t')\<rparr>)) (\<lambda>(_, q1). reset_all now es q1))
       else bindE (delete_timer p q) (reset_all now es))"

definition Reset :: "env \<Rightarrow> (timer_stamp \<times> addr) list \<Rightarrow> timer_stamp \<Rightarrow> queue \<Rightarrow> fault + queue" where
  "Reset env expired now q =
     bindE (reset_all now expired q) (\<lambda>q1.
       case timers q1 of
         [] \<Rightarrow> Inr q1
       | (_, p) # _ \<Rightarrow>
           bindE (deref q1 p) (\<lambda>t.
             if Valid (expiration t) then resetTimerfd env (expiration t) q1 else Inr q1))"

definition HandleRead :: "env \<Rightarrow> queue \<Rightarrow> fault + queue" where
  "HandleRead env q =
     (case read_clock env q of (now, q1) \<Rightarrow>
       bindE (GetExpired now (readTimerfd q1)) (\<lambda>(expired, q2).
       bindE (start_all env expired (q2\<lparr>calling_expired := Some True, canceling_timers := []\<rparr>)) (\<lambda>q3.
         Reset env expired now (q3\<lparr>calling_expired := Some False\<rparr>))))"

text \<open>The queue after its constructor, and the destructor's loop over \<open>timers\<close>.\<close>

definition new_queue :: queue where
  "new_queue =
     \<lparr>timers = [], active_timers = [], canceling_timers = [], calling_expired = None,
      store = Map.empty, num_created = 0, ticks = 0, tfd_due = None, tfd_count = 0, log = []\<rparr>"

fun delete_all :: "(timer_stamp \<times> addr) list \<Rightarrow> queue \<Rightarrow> fault + queue" where
  "delete_all [] q = Inr q"
| "delete_all ((w, p) # es) q = bindE (delete_timer p q) (delete_all es)"

definition destroy_queue :: "queue \<Rightarrow> fault + queue" where
  "destroy_queue q = delete_all (timers q) q"

end
