(* ===== verification/Timer_Queue_Inv.thy ===== *)
theory Timer_Queue_Inv
  imports Timer_Queue
begin

section \<open>The invariant of the timer queue\<close>

text \<open>
  \<open>queue_inv E q\<close>: the two containers hold the same timers, each under its own expiration and its
  own sequence number; the set is strictly sorted; the live timer objects are exactly those in the
  containers and the detached ones \<open>E\<close> (the expired timers that \<open>HandleRead\<close> holds in a local
  vector, or the one that is about to be inserted); sequence numbers identify objects.
\<close>

definition owned :: "queue \<Rightarrow> addr set" where
  "owned q = snd ` set (timers q)"

lemma owned_snd: "p \<in> owned q \<longleftrightarrow> (\<exists>w. (w, p) \<in> set (timers q))"
  by (force simp: owned_def)

definition queue_inv :: "addr set \<Rightarrow> queue \<Rightarrow> bool" where
  "queue_inv E q \<longleftrightarrow>
     sorted (timers q) \<and> distinct (timers q) \<and>
     (\<forall>w p. (w, p) \<in> set (timers q) \<longrightarrow> (\<exists>t. store q p = Some t \<and> expiration t = w)) \<and>
     distinct (map fst (active_timers q)) \<and>
     (\<forall>i p. (i, p) \<in> set (active_timers q) \<longleftrightarrow>
        p \<in> owned q \<and> (\<exists>t. store q p = Some t \<and> sequence t = i)) \<and>
     dom (store q) = owned q \<union> E \<and> owned q \<inter> E = {} \<and>
     (\<forall>p t. store q p = Some t \<longrightarrow> p < UINTPTR_MAX \<and> sequence t < num_created q
        \<and> repeat_timer t = dless (Fin 0) (interval t)) \<and>
     (\<forall>p p' t t'. store q p = Some t \<and> store q p' = Some t' \<and> sequence t = sequence t' \<longrightarrow> p = p')"

definition allocator_ok :: "env \<Rightarrow> bool" where
  "allocator_ok env \<longleftrightarrow> (\<forall>h p. alloc env h = Some p \<longrightarrow> h p = None \<and> p < UINTPTR_MAX)"

subsection \<open>What the invariant gives\<close>

lemma queue_invD:
  assumes "queue_inv E q"
  shows "sorted (timers q)" "distinct (timers q)" "distinct (map fst (active_timers q))"
    "dom (store q) = owned q \<union> E" "owned q \<inter> E = {}"
  using assms by (auto simp: queue_inv_def)

lemma queue_inv_timers:
  "queue_inv E q \<Longrightarrow> (w, p) \<in> set (timers q) \<Longrightarrow> \<exists>t. store q p = Some t \<and> expiration t = w"
  by (auto simp: queue_inv_def)

lemma queue_inv_active:
  "queue_inv E q \<Longrightarrow>
   (i, p) \<in> set (active_timers q) \<longleftrightarrow> p \<in> owned q \<and> (\<exists>t. store q p = Some t \<and> sequence t = i)"
  by (simp add: queue_inv_def)

lemma queue_inv_store:
  "queue_inv E q \<Longrightarrow> store q p = Some t \<Longrightarrow> p < UINTPTR_MAX \<and> sequence t < num_created q
    \<and> repeat_timer t = dless (Fin 0) (interval t)"
  by (simp add: queue_inv_def)

lemma queue_inv_sequence:
  "queue_inv E q \<Longrightarrow> store q p = Some t \<Longrightarrow> store q p' = Some t' \<Longrightarrow> sequence t = sequence t' \<Longrightarrow> p = p'"
  unfolding queue_inv_def by blast

lemma owned_iff:
  assumes "queue_inv E q" "store q p = Some t"
  shows "p \<in> owned q \<longleftrightarrow> (expiration t, p) \<in> set (timers q)"
proof
  assume "p \<in> owned q"
  then obtain w where "(w, p) \<in> set (timers q)" by (auto simp: owned_def)
  then show "(expiration t, p) \<in> set (timers q)" using queue_inv_timers[OF assms(1), of w p] assms(2) by auto
qed (force simp: owned_def)

lemma timers_key: "queue_inv E q \<Longrightarrow> (w, p) \<in> set (timers q) \<Longrightarrow> (w', p) \<in> set (timers q) \<Longrightarrow> w = w'"
  using queue_inv_timers[of E q w p] queue_inv_timers[of E q w' p] by auto

lemma queue_inv_lookup:
  assumes "queue_inv E q"
  shows "map_of (active_timers q) i = Some p \<longleftrightarrow>
    p \<in> owned q \<and> (\<exists>t. store q p = Some t \<and> sequence t = i)"
  using queue_inv_active[OF assms] queue_invD(3)[OF assms] by simp

lemma queue_inv_sizes:
  assumes "queue_inv E q"
  shows "length (timers q) = length (active_timers q)"
proof -
  have "inj_on snd (set (timers q))"
    using timers_key[OF assms] by (auto intro!: inj_onI)
  then have "length (timers q) = card (owned q)"
    using queue_invD(2)[OF assms] by (simp add: owned_def card_image distinct_card)
  moreover have "inj_on snd (set (active_timers q))"
    using queue_inv_active[OF assms] by (auto intro!: inj_onI)
  moreover have "snd ` set (active_timers q) = owned q"
  proof -
    have "p \<in> snd ` set (active_timers q)" if own: "p \<in> owned q" for p
    proof -
      obtain w where "(w, p) \<in> set (timers q)" using own unfolding owned_def by force
      then obtain t where "store q p = Some t" using queue_inv_timers[OF assms] by blast
      then have "(sequence t, p) \<in> set (active_timers q)"
        using own queue_inv_active[OF assms] by blast
      then show ?thesis by force
    qed
    then show ?thesis using queue_inv_active[OF assms] by auto
  qed
  moreover have "distinct (active_timers q)"
    using queue_invD(3)[OF assms] by (simp add: distinct_map)
  ultimately show ?thesis by (metis card_image distinct_card)
qed

lemma check_sizes_inv: "queue_inv E q \<Longrightarrow> check_sizes q = Inr q"
  by (simp add: check_sizes_def queue_inv_sizes)

text \<open>The invariant reads only the containers, the objects and the counter.\<close>

lemma queue_inv_frame [simp]:
  "queue_inv E (q\<lparr>ticks := a\<rparr>) = queue_inv E q"
  "queue_inv E (q\<lparr>tfd_due := b\<rparr>) = queue_inv E q"
  "queue_inv E (q\<lparr>tfd_count := c\<rparr>) = queue_inv E q"
  "queue_inv E (q\<lparr>log := d\<rparr>) = queue_inv E q"
  "queue_inv E (q\<lparr>calling_expired := e\<rparr>) = queue_inv E q"
  "queue_inv E (q\<lparr>canceling_timers := f\<rparr>) = queue_inv E q"
  by (simp_all add: queue_inv_def owned_def)

subsection \<open>Attaching, detaching, creating and deleting a timer\<close>

definition attach :: "addr \<Rightarrow> timer \<Rightarrow> queue \<Rightarrow> queue" where
  "attach p t q = q\<lparr>timers := insort (expiration t, p) (timers q),
                    active_timers := (sequence t, p) # active_timers q\<rparr>"

lemma owned_attach [simp]: "owned (attach p t q) = insert p (owned q)"
  by (simp add: owned_def attach_def set_insort_key)

lemma attach_inv:
  assumes inv: "queue_inv E q" and p: "p \<in> E" "store q p = Some t"
  shows "queue_inv (E - {p}) (attach p t q)"
proof -
  have new: "p \<notin> owned q" using p queue_invD(5)[OF inv] by auto
  then have fresh: "(expiration t, p) \<notin> set (timers q)" by (force simp: owned_def)
  have no_seq: "sequence t \<notin> fst ` set (active_timers q)"
  proof
    assume "sequence t \<in> fst ` set (active_timers q)"
    then obtain p' where "(sequence t, p') \<in> set (active_timers q)" by auto
    then have "p' \<in> owned q" "p' = p"
      using queue_inv_active[OF inv] queue_inv_sequence[OF inv p(2)] by metis+
    with new show False by simp
  qed
  have "\<forall>i p'. (i, p') \<in> set (active_timers (attach p t q)) \<longleftrightarrow>
      p' \<in> owned (attach p t q) \<and> (\<exists>t. store q p' = Some t \<and> sequence t = i)"
    using queue_inv_active[OF inv] new p(2) unfolding owned_attach by (auto simp: attach_def)
  moreover have "\<forall>w p'. (w, p') \<in> set (timers (attach p t q)) \<longrightarrow>
      (\<exists>t. store q p' = Some t \<and> expiration t = w)"
    using queue_inv_timers[OF inv] p(2) by (auto simp: attach_def set_insort_key)
  ultimately show ?thesis
    using inv p new fresh no_seq
    unfolding queue_inv_def owned_attach
    by (auto simp: attach_def sorted_insort distinct_insort)
qed

lemma insert_timer_eq:
  assumes inv: "queue_inv E q" and p: "p \<in> E" "store q p = Some t"
  shows "insert_timer p q =
    Inr (case timers q of [] \<Rightarrow> True | (w, _) # _ \<Rightarrow> expiration t < w, attach p t q)"
proof -
  have new: "p \<notin> owned q" using p queue_invD(5)[OF inv] by auto
  then have fresh: "(expiration t, p) \<notin> set (timers q)" by (force simp: owned_def)
  have "sequence t \<notin> fst ` set (active_timers q)"
  proof
    assume "sequence t \<in> fst ` set (active_timers q)"
    then obtain p' where "(sequence t, p') \<in> set (active_timers q)" by auto
    then show False using queue_inv_active[OF inv] queue_inv_sequence[OF inv p(2)] new by metis
  qed
  then have "emplace (sequence t) p (active_timers q) = (sequence t, p) # active_timers q"
    by (simp add: emplace_def map_of_eq_None_iff)
  then have "q\<lparr>timers := insort_insert (expiration t, p) (timers q),
      active_timers := emplace (sequence t) p (active_timers q)\<rparr> = attach p t q"
    using fresh by (simp add: attach_def insort_insert_insort)
  then show ?thesis
    using check_sizes_inv[OF inv] check_sizes_inv[OF attach_inv[OF assms]] p(2)
    by (simp add: insert_timer_def deref_def Let_def)
qed

lemma create_inv:
  assumes inv: "queue_inv E q" and "store q p = None" "p < UINTPTR_MAX"
  shows "queue_inv (insert p E)
    (q\<lparr>store := (store q)(p \<mapsto> new_timer cb due ival (num_created q)), num_created := num_created q + 1\<rparr>)"
proof -
  have new: "p \<notin> owned q" "p \<notin> E" using assms(2) queue_invD(4)[OF inv] by auto
  have seq: "sequence t \<noteq> num_created q" if "store q p' = Some t" for p' t
    using queue_inv_store[OF inv that] by simp
  show ?thesis
    unfolding queue_inv_def
  proof (intro conjI allI impI, goal_cases)
    case (3 w p')
    then show ?case using queue_inv_timers[OF inv] new by (force simp: owned_def)
  next
    case (5 i p')
    then show ?case using queue_inv_active[OF inv, of i p'] new by (auto simp: owned_def)
  next
    case (8 p' t)
    then show ?case using queue_inv_store[OF inv] assms(3) by (fastforce simp: new_timer_def split: if_splits)
  next
    case (9 p' t)
    then show ?case using queue_inv_store[OF inv] by (fastforce simp: new_timer_def split: if_splits)
  next
    case (10 p' t)
    then show ?case using queue_inv_store[OF inv] by (fastforce simp: new_timer_def split: if_splits)
  next
    case (11 p' p'' t t')
    then show ?case
      using queue_inv_sequence[OF inv, of p' t p'' t'] seq[of p'] seq[of p'']
      by (auto simp: new_timer_def split: if_splits)
  qed (use inv new in \<open>auto simp: queue_inv_def owned_def\<close>)
qed

lemma delete_detached_inv:
  assumes inv: "queue_inv E q" and "p \<in> E"
  shows "queue_inv (E - {p}) (q\<lparr>store := (store q)(p := None)\<rparr>)"
proof -
  have "p \<notin> owned q" using assms queue_invD(5)[OF inv] by auto
  then have "\<And>w. (w, p) \<notin> set (timers q)" by (force simp: owned_def)
  with assms \<open>p \<notin> owned q\<close> show ?thesis
    unfolding queue_inv_def by (auto simp: owned_def)
qed

definition detach :: "addr \<Rightarrow> timer \<Rightarrow> queue \<Rightarrow> queue" where
  "detach p t q = q\<lparr>timers := remove1 (expiration t, p) (timers q),
                    active_timers := erase_key (sequence t) (active_timers q)\<rparr>"

lemma set_erase_key: "set (erase_key k m) = {e \<in> set m. fst e \<noteq> k}"
  by (auto simp: erase_key_def)

lemma distinct_erase_key: "distinct (map fst m) \<Longrightarrow> distinct (map fst (erase_key k m))"
  by (simp add: erase_key_def distinct_map_filter)

lemma owned_detach:
  assumes "queue_inv E q" "store q p = Some t"
  shows "owned (detach p t q) = owned q - {p}"
proof -
  have "set (timers (detach p t q)) = set (timers q) - {(expiration t, p)}"
    using queue_invD(2)[OF assms(1)] by (simp add: detach_def set_remove1_eq)
  moreover have only: "\<And>w. (w, p) \<in> set (timers q) \<Longrightarrow> w = expiration t"
    using queue_inv_timers[OF assms(1)] assms(2) by fastforce
  ultimately have "p \<notin> owned (detach p t q)"
    by (fastforce simp: owned_def)
  moreover have "p' \<in> owned (detach p t q) \<longleftrightarrow> p' \<in> owned q" if "p' \<noteq> p" for p'
  proof -
    have "(w, p') \<in> set (timers (detach p t q)) \<longleftrightarrow> (w, p') \<in> set (timers q)" for w
      using that queue_invD(2)[OF assms(1)] by (simp add: detach_def set_remove1_eq)
    then show ?thesis by (simp only: owned_snd)
  qed
  ultimately show ?thesis by (intro set_eqI) (metis DiffE DiffI insertCI singletonD)
qed

lemma detach_inv:
  assumes inv: "queue_inv E q" and p: "p \<in> owned q" "store q p = Some t"
  shows "queue_inv (insert p E) (detach p t q)"
proof -
  have sub: "set (timers (detach p t q)) \<subseteq> set (timers q)"
    by (simp add: detach_def set_remove1_subset)
  have "(i, p') \<in> set (active_timers (detach p t q)) \<longleftrightarrow>
      p' \<in> owned (detach p t q) \<and> (\<exists>t. store q p' = Some t \<and> sequence t = i)" for i p'
    unfolding owned_detach[OF inv p(2)]
    using queue_inv_active[OF inv, of i p'] queue_inv_sequence[OF inv p(2), of p'] p(2)
    by (auto simp: detach_def set_erase_key)
  moreover have "p \<notin> E" using p queue_invD(5)[OF inv] by auto
  ultimately show ?thesis
    using inv p sub queue_invD(3)[OF inv, THEN distinct_erase_key]
    unfolding queue_inv_def owned_detach[OF inv p(2)]
    by (auto simp: detach_def sorted_remove1)
qed

subsection \<open>The operations keep the invariant\<close>

text \<open>The timers whose callbacks have run, in order.\<close>

fun fired_of :: "event list \<Rightarrow> int list" where
  "fired_of [] = []"
| "fired_of (Fired s # es) = s # fired_of es"
| "fired_of (_ # es) = fired_of es"

definition fired :: "queue \<Rightarrow> int list" where
  "fired q = fired_of (log q)"

lemma fired_of_append [simp]: "fired_of (xs @ ys) = fired_of xs @ fired_of ys"
  by (induction xs rule: fired_of.induct) auto

text \<open>What the operations of the client leave alone: the detached timers \<open>E\<close>, the flags, the firing.\<close>

definition keeps :: "addr set \<Rightarrow> queue \<Rightarrow> queue \<Rightarrow> bool" where
  "keeps E q q' \<longleftrightarrow> (\<forall>p \<in> E. store q' p = store q p) \<and> calling_expired q' = calling_expired q
     \<and> canceling_timers q' = canceling_timers q \<and> num_created q \<le> num_created q'
     \<and> fired q' = fired q"

lemma keeps_refl [simp]: "keeps E q q"
  by (simp add: keeps_def)

lemma keeps_trans: "keeps E q q' \<Longrightarrow> keeps E q' q'' \<Longrightarrow> keeps E q q''"
  by (auto simp: keeps_def)

text \<open>Everything but the clock, the timer descriptor and the errors in the log.\<close>

definition same_core :: "queue \<Rightarrow> queue \<Rightarrow> bool" where
  "same_core q q' \<longleftrightarrow> timers q' = timers q \<and> active_timers q' = active_timers q
     \<and> store q' = store q \<and> num_created q' = num_created q
     \<and> calling_expired q' = calling_expired q \<and> canceling_timers q' = canceling_timers q
     \<and> fired q' = fired q"

lemma same_core_refl [simp]: "same_core q q"
  by (simp add: same_core_def)

lemma same_core_inv: "same_core q q' \<Longrightarrow> queue_inv E q' = queue_inv E q"
  by (simp add: same_core_def queue_inv_def owned_def)

lemma same_core_keeps: "same_core q q' \<Longrightarrow> keeps E q q'"
  by (simp add: same_core_def keeps_def)

text \<open>
  The faults that the queue's own bookkeeping cannot exclude: memory is exhausted, a delay or a
  date does not fit, or a timer that is not active is stopped. A use after free, or a failed
  assertion, is not among them.
\<close>

definition outside_fault :: "fault \<Rightarrow> bool" where
  "outside_fault e \<longleftrightarrow> e \<in> {BadAlloc, BadCast, IntOverflow, EndDeref, UninitRead}"

lemma resetTimerfd_outcome:
  "outcome outside_fault (same_core q) (resetTimerfd env e q)"
  unfolding resetTimerfd_def read_clock_def prod.case
proof (rule outcome_bindE)
  fix ts :: "int \<times> int"
  assume "True"
  show "outcome outside_fault (same_core q)
    (case timerfd_settime (TimerStamp (clock env (ticks q))) ts (q\<lparr>ticks := Suc (ticks q)\<rparr>) of
       (ok, q2) \<Rightarrow> Inr (if ok then q2 else q2\<lparr>log := log q2 @ [SettimeError]\<rparr>))"
    by (auto simp: timerfd_settime_def same_core_def fired_def split: prod.split)
qed (auto intro!: outcome_or_fault simp: outside_fault_def)

text \<open>The queue after \<open>AddTimer\<close> has made the object at \<open>p\<close> and inserted it.\<close>

definition added :: "nat \<Rightarrow> timer_stamp \<Rightarrow> double \<Rightarrow> addr \<Rightarrow> queue \<Rightarrow> queue" where
  "added cb due ival p q =
     (let t = new_timer cb due ival (num_created q)
      in attach p t (q\<lparr>store := (store q)(p \<mapsto> t), num_created := num_created q + 1\<rparr>))"

lemma expiration_new [simp]: "expiration (new_timer cb due ival n) = due"
  and sequence_new [simp]: "sequence (new_timer cb due ival n) = n"
  and interval_new [simp]: "interval (new_timer cb due ival n) = ival"
  and callback_new [simp]: "callback (new_timer cb due ival n) = cb"
  and repeat_new [simp]: "repeat_timer (new_timer cb due ival n) = dless (Fin 0) ival"
  by (simp_all add: new_timer_def)

lemma added_inv:
  assumes inv: "queue_inv E q" and p: "store q p = None" "p < UINTPTR_MAX"
  shows "queue_inv E (added cb due ival p q)"
proof -
  have "p \<notin> E" using p(1) queue_invD(4)[OF inv] by auto
  then have "insert p E - {p} = E" by simp
  then show ?thesis
    using attach_inv[OF create_inv[OF inv p, where cb = cb and due = due and ival = ival],
        where p = p and t = "new_timer cb due ival (num_created q)"]
    by (simp add: added_def Let_def)
qed

lemma added_keeps: "queue_inv E q \<Longrightarrow> store q p = None \<Longrightarrow> keeps E q (added cb due ival p q)"
  using queue_invD(4)[of E q] by (auto simp: keeps_def added_def attach_def Let_def fired_def)

lemma AddTimer_eq:
  assumes inv: "queue_inv E q" and p: "alloc env (store q) = Some p" "store q p = None" "p < UINTPTR_MAX"
  shows "AddTimer env cb due ival q =
    (if case timers q of [] \<Rightarrow> True | (w, _) # _ \<Rightarrow> due < w
     then bindE (resetTimerfd env due (added cb due ival p q)) (\<lambda>q'. Inr (num_created q, q'))
     else Inr (num_created q, added cb due ival p q))"
proof -
  let ?t = "new_timer cb due ival (num_created q)"
  let ?q = "q\<lparr>store := (store q)(p \<mapsto> ?t), num_created := num_created q + 1\<rparr>"
  have at: "store (added cb due ival p q) p = Some ?t"
    by (simp add: added_def attach_def Let_def)
  have ins: "insert_timer p ?q =
      Inr (case timers q of [] \<Rightarrow> True | (w, _) # _ \<Rightarrow> due < w, added cb due ival p q)"
    using insert_timer_eq[OF create_inv[OF inv p(2,3), where cb = cb and due = due and ival = ival],
        where p = p and t = ?t]
    by (simp add: added_def Let_def split: list.split)
  have reread: "deref q' p = Inr ?t" if "same_core (added cb due ival p q) q'" for q'
    using that at by (simp add: deref_def same_core_def)
  show ?thesis
  proof (cases "case timers q of [] \<Rightarrow> True | (w, _) # _ \<Rightarrow> due < w")
    case True
    have "bindE (resetTimerfd env due (added cb due ival p q)) (\<lambda>q2. bindE (deref q2 p) (\<lambda>t. Inr (sequence t, q2))) =
        bindE (resetTimerfd env due (added cb due ival p q)) (\<lambda>q'. Inr (num_created q, q'))"
      using resetTimerfd_outcome[of "added cb due ival p q" env due] reread
      by (cases "resetTimerfd env due (added cb due ival p q)") simp_all
    then show ?thesis
      using True ins at p(1) by (simp add: AddTimer_def AddTimerInLoop_def Let_def deref_def)
  next
    case False
    then show ?thesis
      using ins at p(1) by (simp add: AddTimer_def AddTimerInLoop_def Let_def deref_def)
  qed
qed

text \<open>Every number that \<open>AddTimer\<close> returns is the next one, and the timer is in the queue.\<close>

lemma AddTimer_result:
  assumes inv: "queue_inv E q" and ok: "allocator_ok env" and add: "AddTimer env cb due ival q = Inr (i, q')"
  obtains p where "i = num_created q" "store q p = None" "p < UINTPTR_MAX"
    "same_core (added cb due ival p q) q'"
proof -
  obtain p where p: "alloc env (store q) = Some p"
    using add by (cases "alloc env (store q)") (simp_all add: AddTimer_def)
  then have fresh: "store q p = None" "p < UINTPTR_MAX" using ok by (auto simp: allocator_ok_def)
  have "i = num_created q \<and> same_core (added cb due ival p q) q'"
  proof (cases "case timers q of [] \<Rightarrow> True | (w, _) # _ \<Rightarrow> due < w")
    case True
    then obtain "resetTimerfd env due (added cb due ival p q) = Inr q'" "i = num_created q"
      using add AddTimer_eq[OF inv p fresh, of cb due ival] by (auto simp: bindE_Inr_iff)
    then show ?thesis using resetTimerfd_outcome[of "added cb due ival p q" env due] by simp
  next
    case False
    then show ?thesis using add AddTimer_eq[OF inv p fresh, of cb due ival] by simp
  qed
  with fresh show thesis using that by blast
qed

definition op_ok :: "addr set \<Rightarrow> queue \<Rightarrow> queue \<Rightarrow> bool" where
  "op_ok E q q' \<longleftrightarrow> queue_inv E q' \<and> keeps E q q'"

lemma op_ok_same_core: "op_ok E q q1 \<Longrightarrow> same_core q1 q' \<Longrightarrow> op_ok E q q'"
  unfolding op_ok_def using same_core_inv same_core_keeps keeps_trans by metis

lemma AddTimer_outcome:
  assumes inv: "queue_inv E q" and ok: "allocator_ok env"
  shows "outcome outside_fault (\<lambda>(i, q'). op_ok E q q') (AddTimer env cb due ival q)"
proof (cases "alloc env (store q)")
  case None
  then show ?thesis by (simp add: AddTimer_def outside_fault_def)
next
  case (Some p)
  then have fresh: "store q p = None" "p < UINTPTR_MAX" using ok by (auto simp: allocator_ok_def)
  have added: "op_ok E q (added cb due ival p q)"
    using added_inv[OF inv fresh] added_keeps[OF inv fresh(1)] by (simp add: op_ok_def)
  have "outcome outside_fault (op_ok E q) (resetTimerfd env due (added cb due ival p q))"
    using outcome_mono[OF resetTimerfd_outcome] op_ok_same_core[OF added] by blast
  then show ?thesis
    using added unfolding AddTimer_eq[OF inv Some fresh]
    by (auto intro: outcome_bindE)
qed

lemma StopTimer_active:
  assumes inv: "queue_inv E q" and i: "map_of (active_timers q) i = Some p"
  obtains t where "store q p = Some t" "sequence t = i" "p \<in> owned q"
    "StopTimer i q = Inr ((detach p t q)\<lparr>store := (store q)(p := None)\<rparr>)"
    "queue_inv E ((detach p t q)\<lparr>store := (store q)(p := None)\<rparr>)"
proof -
  obtain t where t: "store q p = Some t" "sequence t = i" and own: "p \<in> owned q"
    using i queue_inv_lookup[OF inv] by blast
  let ?q = "(detach p t q)\<lparr>store := (store q)(p := None)\<rparr>"
  have "insert p E - {p} = E" using own queue_invD(5)[OF inv] by auto
  moreover have "store (detach p t q) = store q" by (simp add: detach_def)
  ultimately have inv': "queue_inv E ?q"
    using delete_detached_inv[OF detach_inv[OF inv own t(1)], of p] by simp
  then have "StopTimer i q = Inr ?q"
    using t i queue_inv_sizes[OF inv']
    by (simp add: StopTimer_def CancelInLoop_def deref_def delete_timer_def Let_def detach_def check_sizes_def)
  with t own inv' show thesis using that by blast
qed

lemma StopTimer_inactive:
  assumes "queue_inv E q" "map_of (active_timers q) i = None"
  shows "StopTimer i q = (case calling_expired q of
    None \<Rightarrow> Inl UninitRead | Some True \<Rightarrow> Inl EndDeref | Some False \<Rightarrow> Inr q)"
  using assms by (simp add: StopTimer_def CancelInLoop_def check_sizes_inv split: option.splits bool.splits)

lemma StopTimer_outcome:
  assumes inv: "queue_inv E q"
  shows "outcome outside_fault (op_ok E q) (StopTimer i q)"
proof (cases "map_of (active_timers q) i")
  case None
  then show ?thesis
    using inv by (auto simp: StopTimer_inactive[OF inv None] outside_fault_def op_ok_def split: option.splits bool.splits)
next
  case (Some p)
  then obtain t where t: "store q p = Some t" "p \<in> owned q"
      "StopTimer i q = Inr ((detach p t q)\<lparr>store := (store q)(p := None)\<rparr>)"
      "queue_inv E ((detach p t q)\<lparr>store := (store q)(p := None)\<rparr>)"
    by (rule StopTimer_active[OF inv])
  then show ?thesis
    using queue_invD(5)[OF inv] by (auto simp: op_ok_def keeps_def detach_def fired_def)
qed

lemma read_clock_core: "read_clock env q = (now, q1) \<Longrightarrow> same_core q q1"
  by (auto simp: read_clock_def same_core_def fired_def)

lemma op_ok_trans: "op_ok E q q1 \<Longrightarrow> op_ok E q1 q2 \<Longrightarrow> op_ok E q q2"
  unfolding op_ok_def using keeps_trans by blast

lemma AddTimer_outcome_after_clock:
  assumes "queue_inv E q" "allocator_ok env"
  shows "outcome outside_fault (\<lambda>(i, q'). op_ok E q q') (AddTimer env cb due ival (q\<lparr>ticks := n\<rparr>))"
proof (rule outcome_mono[OF AddTimer_outcome])
  fix x assume "case x of (i, q') \<Rightarrow> op_ok E (q\<lparr>ticks := n\<rparr>) q'"
  then show "case x of (i, q') \<Rightarrow> op_ok E q q'" by (auto simp: op_ok_def keeps_def fired_def)
qed (use assms in simp_all)

lemma run_action_outcome:
  assumes "queue_inv E q" "allocator_ok env"
  shows "outcome outside_fault (op_ok E q) (run_action env a q)"
  by (cases a)
    (auto simp: bindE_assoc AddtimerAtTime_def AddtimerAfterTime_def AddtimerEveryTime_def read_clock_def outside_fault_def
      intro!: outcome_bindE[OF outcome_or_fault[where P = "\<lambda>_. True"]] assms
        outcome_bindE[OF AddTimer_outcome] outcome_bindE[OF AddTimer_outcome_after_clock] StopTimer_outcome)

text \<open>So a callback, whatever calls it makes, keeps the invariant.\<close>

interpretation callback: safe_ops "run_action env" "\<lambda>q. queue_inv E q \<and> allocator_ok env" "keeps E" outside_fault
  for env E
proof
  fix q a
  assume "queue_inv E q \<and> allocator_ok env"
  then show "outcome outside_fault (\<lambda>q'. (queue_inv E q' \<and> allocator_ok env) \<and> keeps E q q') (run_action env a q)"
    using outcome_mono[OF run_action_outcome] by (fastforce simp: op_ok_def)
qed (auto intro: keeps_trans)

end
