(* ===== verification/Timer_Queue_Fire.thy ===== *)
theory Timer_Queue_Fire
  imports Timer_Queue_Inv
begin

section \<open>What a readable timer descriptor does to the queue\<close>

text \<open>
  \<open>HandleRead\<close> in its three parts: \<open>GetExpired\<close> detaches exactly the timers that are due, the
  callbacks run in the order of the set while these are detached, and \<open>Reset\<close> puts the repeating
  ones back at a later date and deletes the others.
\<close>

definition due_at :: "timer_stamp \<Rightarrow> queue \<Rightarrow> (timer_stamp \<times> addr) list" where
  "due_at now q = filter (\<lambda>e. fst e \<le> now) (timers q)"

definition sequence_at :: "queue \<Rightarrow> addr \<Rightarrow> int" where
  "sequence_at q p = (case store q p of Some t \<Rightarrow> sequence t | None \<Rightarrow> -1)"

subsection \<open>Detaching the expired timers\<close>

lemma takeWhile_filter_sorted:
  assumes "sorted xs" "\<And>x y. x \<le> y \<Longrightarrow> P y \<Longrightarrow> P x"
  shows "takeWhile P xs = filter P xs"
  using assms(1)
proof (induction xs)
  case (Cons x xs)
  show ?case
  proof (cases "P x")
    case False
    then have "\<forall>y \<in> set xs. \<not> P y" using Cons.prems assms(2) by auto
    then show ?thesis using False by simp
  qed (use Cons in simp)
qed simp

lemma expired_due:
  assumes inv: "queue_inv E q"
  shows "takeWhile (\<lambda>e. e \<le> (now, UINTPTR_MAX)) (timers q) = due_at now q"
proof -
  have "takeWhile (\<lambda>e. e \<le> (now, UINTPTR_MAX)) (timers q) = filter (\<lambda>e. e \<le> (now, UINTPTR_MAX)) (timers q)"
    by (rule takeWhile_filter_sorted[OF queue_invD(1)[OF inv]]) (rule order_trans)
  moreover have "e \<le> (now, UINTPTR_MAX) \<longleftrightarrow> fst e \<le> now" if e: "e \<in> set (timers q)" for e
  proof -
    obtain w p where wp: "e = (w, p)" by (cases e)
    then obtain t where "store q p = Some t" using e queue_inv_timers[OF inv] by blast
    then have "p < UINTPTR_MAX" using queue_inv_store[OF inv] by blast
    then show ?thesis by (auto simp: wp less_eq_prod_def)
  qed
  ultimately show ?thesis by (simp add: due_at_def cong: filter_cong)
qed

lemma forget_active_result:
  assumes "queue_inv E q" "timers q = es @ rest"
  shows "\<exists>A. forget_active es (q\<lparr>timers := rest\<rparr>) = Inr (q\<lparr>timers := rest, active_timers := A\<rparr>)
    \<and> queue_inv (snd ` set es \<union> E) (q\<lparr>timers := rest, active_timers := A\<rparr>)"
  using assms
proof (induction es arbitrary: E q)
  case Nil
  then have rest: "rest = timers q" by simp
  show ?case unfolding rest using Nil(1) by (intro exI[of _ "active_timers q"]) simp
next
  case (Cons e es)
  obtain w p where e: "e = (w, p)" by (cases e)
  then obtain t where t: "store q p = Some t" "expiration t = w"
    using Cons.prems queue_inv_timers[OF Cons.prems(1), of w p] by auto
  have own: "p \<in> owned q" using Cons.prems(2) e by (auto simp: owned_def)
  have d: "detach p t q = q\<lparr>timers := es @ rest, active_timers := erase_key (sequence t) (active_timers q)\<rparr>"
    using Cons.prems(2) e t by (simp add: detach_def)
  have inv: "queue_inv (insert p E) (detach p t q)"
    using detach_inv[OF Cons.prems(1) own t(1)] .
  have swap: "q\<lparr>timers := r, active_timers := a\<rparr> = q\<lparr>active_timers := a, timers := r\<rparr>" for r a
    by simp
  from Cons.IH[OF inv] d obtain A where
    A: "forget_active es ((detach p t q)\<lparr>timers := rest\<rparr>) = Inr ((detach p t q)\<lparr>timers := rest, active_timers := A\<rparr>)"
      "queue_inv (snd ` set es \<union> insert p E) ((detach p t q)\<lparr>timers := rest, active_timers := A\<rparr>)"
    by auto
  show ?case
    using A t(1) e by (intro exI[of _ A]) (simp add: d deref_def swap)
qed

lemma GetExpired_result:
  assumes inv: "queue_inv E q"
  obtains A where "GetExpired now q = Inr (due_at now q,
      q\<lparr>timers := filter (\<lambda>e. \<not> fst e \<le> now) (timers q), active_timers := A\<rparr>)"
    "queue_inv (snd ` set (due_at now q) \<union> E)
      (q\<lparr>timers := filter (\<lambda>e. \<not> fst e \<le> now) (timers q), active_timers := A\<rparr>)"
proof -
  let ?P = "\<lambda>e. e \<le> (now, UINTPTR_MAX)"
  let ?rest = "dropWhile ?P (timers q)"
  have "timers q = due_at now q @ ?rest"
    using expired_due[OF inv] by (metis takeWhile_dropWhile_id)
  moreover from this have "?rest = filter (\<lambda>e. \<not> fst e \<le> now) (timers q)"
  proof -
    have "filter (\<lambda>e. \<not> fst e \<le> now) (due_at now q) = []"
      by (auto simp: due_at_def filter_empty_conv)
    moreover have "filter (\<lambda>e. fst e \<le> now) ?rest = []"
    proof -
      have "due_at now q = filter (\<lambda>e. fst e \<le> now) (due_at now q) @ filter (\<lambda>e. fst e \<le> now) ?rest"
        using \<open>timers q = due_at now q @ ?rest\<close> unfolding due_at_def by (metis filter_append)
      then show ?thesis by (simp add: due_at_def)
    qed
    ultimately show ?thesis
      using \<open>timers q = due_at now q @ ?rest\<close>
      by (metis (no_types, lifting) append_Nil filter_True filter_append filter_empty_conv)
  qed
  ultimately obtain A where A:
    "forget_active (due_at now q) (q\<lparr>timers := ?rest\<rparr>) = Inr (q\<lparr>timers := ?rest, active_timers := A\<rparr>)"
    "queue_inv (snd ` set (due_at now q) \<union> E) (q\<lparr>timers := ?rest, active_timers := A\<rparr>)"
    and rest: "?rest = filter (\<lambda>e. \<not> fst e \<le> now) (timers q)"
    using forget_active_result[OF inv] by blast
  have "GetExpired now q = Inr (due_at now q, q\<lparr>timers := ?rest, active_timers := A\<rparr>)"
    using A check_sizes_inv[OF A(2)] by (simp add: GetExpired_def Let_def expired_due[OF inv])
  then show thesis using that A(2) unfolding rest by blast
qed

subsection \<open>Running the callbacks\<close>

text \<open>The effect of a run of callbacks \<open>ss\<close> on what they cannot change but the log.\<close>

definition ran :: "addr set \<Rightarrow> int list \<Rightarrow> queue \<Rightarrow> queue \<Rightarrow> bool" where
  "ran E ss q q' \<longleftrightarrow> queue_inv E q' \<and> keeps E (q\<lparr>log := log q @ map Fired ss\<rparr>) q'"

lemma fired_of_map [simp]: "fired_of (map Fired ss) = ss"
  by (induction ss) auto

lemma fired_append [simp]: "fired (q\<lparr>log := log q @ map Fired ss\<rparr>) = fired q @ ss"
  by (simp add: fired_def)

lemma ran_trans: "ran E ss q q1 \<Longrightarrow> ran E ts q1 q2 \<Longrightarrow> ran E (ss @ ts) q q2"
  by (auto simp: ran_def keeps_def fired_def)

lemma Start_outcome:
  assumes "queue_inv E q" "allocator_ok env" "store q p = Some t"
  shows "outcome outside_fault (ran E [sequence t] q) (Start env p q)"
proof -
  let ?q = "q\<lparr>log := log q @ [Fired (sequence t)]\<rparr>"
  have "outcome outside_fault (\<lambda>q'. (queue_inv E q' \<and> allocator_ok env) \<and> keeps E ?q q')
      (steps (run_action env) (program env (callback t)) ?q)"
    using assms by (intro callback.steps_safe) simp
  then show ?thesis
    using assms(3) by (auto simp: Start_def deref_def ran_def intro: outcome_mono)
qed

lemma start_all_outcome:
  assumes "queue_inv E q" "allocator_ok env" "snd ` set es \<subseteq> E"
  shows "outcome outside_fault (ran E (map (\<lambda>e. sequence_at q (snd e)) es) q) (start_all env es q)"
  using assms
proof (induction es arbitrary: q)
  case Nil
  then show ?case by (simp add: ran_def)
next
  case (Cons e es)
  obtain w p where e: "e = (w, p)" by (cases e)
  then have "p \<in> dom (store q)" using Cons.prems queue_invD(4)[OF Cons.prems(1)] by auto
  then obtain t where t: "store q p = Some t" by auto
  show ?case
    unfolding e start_all.simps
  proof (rule outcome_bindE[OF Start_outcome[OF Cons.prems(1,2) t]])
    fix q1 assume q1: "ran E [sequence t] q q1"
    then have inv1: "queue_inv E q1" by (simp add: ran_def)
    have "sequence_at q1 (snd e) = sequence_at q (snd e)" if "e \<in> set es" for e
      using q1 that Cons.prems(3) by (auto simp: ran_def keeps_def sequence_at_def image_subset_iff)
    then have same: "map (\<lambda>e. sequence_at q1 (snd e)) es = map (\<lambda>e. sequence_at q (snd e)) es"
      by simp
    have "outcome outside_fault (ran E (map (\<lambda>e. sequence_at q (snd e)) es) q1) (start_all env es q1)"
      using Cons.IH[of q1, unfolded same] inv1 Cons.prems(2,3) by simp
    then show "outcome outside_fault (ran E (map (\<lambda>e. sequence_at q (snd e)) ((w, p) # es)) q) (start_all env es q1)"
      using ran_trans[OF q1] t by (auto intro: outcome_mono simp: sequence_at_def)
  qed
qed

subsection \<open>Putting the repeating timers back\<close>

text \<open>What \<open>Reset\<close> makes of an expired timer object: \<open>None\<close> is a deleted one.\<close>

definition rescheduled :: "timer_stamp \<Rightarrow> timer \<Rightarrow> timer option" where
  "rescheduled now t =
     (if repeat_timer t
      then map_option (\<lambda>e. t\<lparr>expiration := e\<rparr>) (AddTime now (interval t))
      else None)"

text \<open>The effect of \<open>reset_all\<close>: every listed object is rescheduled or gone, the rest is unchanged.\<close>

definition reset_to :: "timer_stamp \<Rightarrow> addr set \<Rightarrow> queue \<Rightarrow> queue \<Rightarrow> bool" where
  "reset_to now D q q' \<longleftrightarrow>
     (\<forall>p \<in> D. \<forall>t. store q p = Some t \<longrightarrow> repeat_timer t \<longrightarrow> AddTime now (interval t) \<noteq> None)
     \<and> store q' = (\<lambda>p. if p \<in> D then Option.bind (store q p) (rescheduled now) else store q p)
     \<and> num_created q' = num_created q \<and> calling_expired q' = calling_expired q
     \<and> canceling_timers q' = canceling_timers q \<and> log q' = log q \<and> ticks q' = ticks q
     \<and> tfd_due q' = tfd_due q \<and> tfd_count q' = tfd_count q"

lemma reset_to_empty [simp]: "reset_to now {} q q"
  by (simp add: reset_to_def)

lemma reset_to_insert:
  assumes "reset_to now {p} q q1" "reset_to now D q1 q'" "p \<notin> D"
  shows "reset_to now (insert p D) q q'"
proof -
  have D: "store q1 r = store q r" if "r \<in> D" for r
    using assms(1,3) that by (auto simp: reset_to_def)
  have "\<forall>r \<in> insert p D. \<forall>t. store q r = Some t \<longrightarrow> repeat_timer t \<longrightarrow> AddTime now (interval t) \<noteq> None"
    using assms(1,2) D unfolding reset_to_def by (metis insert_iff)
  moreover have "store q' = (\<lambda>r. if r \<in> insert p D then Option.bind (store q r) (rescheduled now) else store q r)"
    using assms D by (auto simp: reset_to_def fun_eq_iff)
  ultimately show ?thesis using assms(1,2) by (simp add: reset_to_def)
qed

lemma update_detached_inv:
  assumes inv: "queue_inv E q" and "p \<in> E" "store q p = Some t"
  shows "queue_inv E (q\<lparr>store := (store q)(p \<mapsto> t\<lparr>expiration := e\<rparr>)\<rparr>)"
proof -
  let ?q = "q\<lparr>store := (store q)(p \<mapsto> t\<lparr>expiration := e\<rparr>)\<rparr>"
  have new: "p \<notin> owned q" using assms(2) queue_invD(5)[OF inv] by auto
  have own: "owned ?q = owned q" by (simp add: owned_def)
  have seq: "(\<exists>t'. store ?q p' = Some t' \<and> sequence t' = i) \<longleftrightarrow> (\<exists>t'. store q p' = Some t' \<and> sequence t' = i)" for p' i
    using assms(3) by auto
  have old: "\<exists>t''. store q p' = Some t'' \<and> sequence t'' = sequence t'
      \<and> repeat_timer t'' = repeat_timer t' \<and> interval t'' = interval t'" if "store ?q p' = Some t'" for p' t'
    using that assms(3) by (cases "p' = p") auto
  show ?thesis
    unfolding queue_inv_def own
  proof (intro conjI)
    show "\<forall>w p'. (w, p') \<in> set (timers ?q) \<longrightarrow> (\<exists>t. store ?q p' = Some t \<and> expiration t = w)"
      using queue_inv_timers[OF inv] new by (auto simp: owned_snd)
    show "\<forall>i p'. (i, p') \<in> set (active_timers ?q) \<longleftrightarrow>
        p' \<in> owned q \<and> (\<exists>t. store ?q p' = Some t \<and> sequence t = i)"
      unfolding seq using queue_inv_active[OF inv] by simp
    show "\<forall>p' t'. store ?q p' = Some t' \<longrightarrow> p' < UINTPTR_MAX \<and> sequence t' < num_created ?q
        \<and> repeat_timer t' = dless (Fin 0) (interval t')"
      using queue_inv_store[OF inv] old by fastforce
    show "\<forall>p p' t t'. store ?q p = Some t \<and> store ?q p' = Some t' \<and> sequence t = sequence t' \<longrightarrow> p = p'"
      using queue_inv_sequence[OF inv] old by metis
    show "dom (store ?q) = owned q \<union> E" using queue_invD(4)[OF inv] assms(3) by auto
  qed (use queue_invD[OF inv] in simp_all)
qed

definition cast_fault :: "fault \<Rightarrow> bool" where
  "cast_fault e \<longleftrightarrow> e = BadCast"

lemma reset_all_outcome:
  assumes "queue_inv E q" "distinct (map snd es)" "snd ` set es \<subseteq> E" "canceling_timers q = []"
  shows "outcome cast_fault
    (\<lambda>q'. queue_inv (E - snd ` set es) q' \<and> reset_to now (snd ` set es) q q') (reset_all now es q)"
  using assms
proof (induction es arbitrary: q E)
  case (Cons e es)
  obtain w p where e: "e = (w, p)" by (cases e)
  then have p: "p \<in> E" "p \<notin> snd ` set es" using Cons.prems by auto
  then obtain t where t: "store q p = Some t" using queue_invD(4)[OF Cons.prems(1)] by auto
  have rest: "snd ` set es \<subseteq> E - {p}" "E - {p} - snd ` set es = E - snd ` set (e # es)"
    using Cons.prems(3) p(2) e by auto
  have step: "outcome cast_fault (\<lambda>q'. queue_inv (E - snd ` set (e # es)) q' \<and> reset_to now (snd ` set (e # es)) q q')
      (reset_all now es q1)"
    if q1: "queue_inv (E - {p}) q1" "reset_to now {p} q q1" for q1
  proof -
    have "canceling_timers q1 = []" using q1(2) Cons.prems(4) by (simp add: reset_to_def)
    with Cons.IH[OF q1(1) _ rest(1)] Cons.prems(2)
    have "outcome cast_fault (\<lambda>q'. queue_inv (E - {p} - snd ` set es) q' \<and> reset_to now (snd ` set es) q1 q')
        (reset_all now es q1)" by simp
    then show ?thesis
      unfolding rest(2)
    proof (rule outcome_mono, elim conjE, intro conjI)
      fix q' assume "reset_to now (snd ` set es) q1 q'"
      from reset_to_insert[OF q1(2) this p(2)] show "reset_to now (snd ` set (e # es)) q q'"
        using e by simp
    qed
  qed
  show ?case
  proof (cases "repeat_timer t")
    case False
    have "reset_to now {p} q (q\<lparr>store := (store q)(p := None)\<rparr>)"
      using t False by (auto simp: reset_to_def rescheduled_def fun_eq_iff)
    from step[OF delete_detached_inv[OF Cons.prems(1) p(1)] this] show ?thesis
      using e t False by (simp add: deref_def delete_timer_def)
  next
    case True
    show ?thesis
    proof (cases "AddTime now (interval t)")
      case None
      then show ?thesis using e t True Cons.prems(4) by (simp add: deref_def ReStart_def cast_fault_def)
    next
      case (Some x)
      let ?t = "t\<lparr>expiration := x\<rparr>"
      let ?q = "q\<lparr>store := (store q)(p \<mapsto> ?t)\<rparr>"
      note inv = update_detached_inv[OF Cons.prems(1) p(1) t, of x]
      have at: "store ?q p = Some ?t" by simp
      have "reset_to now {p} q (attach p ?t ?q)"
        using t True Some by (auto simp: reset_to_def rescheduled_def fun_eq_iff attach_def)
      from step[OF attach_inv[OF inv p(1) at] this] show ?thesis
        using e t True Some Cons.prems(4) insert_timer_eq[OF inv p(1) at]
        by (simp add: deref_def ReStart_def)
    qed
  qed
qed simp

lemma Reset_outcome:
  assumes "queue_inv E q" "distinct (map snd es)" "snd ` set es \<subseteq> E" "canceling_timers q = []"
  shows "outcome outside_fault
    (\<lambda>q'. queue_inv (E - snd ` set es) q' \<and> (\<exists>q1. reset_to now (snd ` set es) q q1 \<and> same_core q1 q'))
    (Reset env es now q)"
  unfolding Reset_def
proof (rule outcome_bindE)
  show "outcome outside_fault (\<lambda>q'. queue_inv (E - snd ` set es) q' \<and> reset_to now (snd ` set es) q q') (reset_all now es q)"
    using reset_all_outcome[OF assms, of now]
    by (cases "reset_all now es q") (auto simp: cast_fault_def outside_fault_def)
next
  fix q1 assume q1: "queue_inv (E - snd ` set es) q1 \<and> reset_to now (snd ` set es) q q1"
  let ?P = "\<lambda>q'. queue_inv (E - snd ` set es) q' \<and> (\<exists>q1. reset_to now (snd ` set es) q q1 \<and> same_core q1 q')"
  have keep: "?P q'" if "same_core q1 q'" for q'
    using q1 that same_core_inv[OF that] by blast
  show "outcome outside_fault ?P
    (case timers q1 of [] \<Rightarrow> Inr q1
     | (_, p) # _ \<Rightarrow> bindE (deref q1 p)
         (\<lambda>t. if Valid (expiration t) then resetTimerfd env (expiration t) q1 else Inr q1))"
  proof (cases "timers q1")
    case Nil
    then show ?thesis using keep[of q1] by simp
  next
    case (Cons e rest)
    obtain w p where e: "e = (w, p)" by (cases e)
    then obtain t where t: "store q1 p = Some t"
      using Cons q1 queue_inv_timers[of "E - snd ` set es" q1 w p] by auto
    have "outcome outside_fault ?P (resetTimerfd env (expiration t) q1)"
      using outcome_mono[OF resetTimerfd_outcome keep] .
    then show ?thesis using Cons e t keep[of q1] by (simp add: deref_def)
  qed
qed

subsection \<open>\<open>HandleRead\<close>\<close>

definition now_of :: "env \<Rightarrow> queue \<Rightarrow> timer_stamp" where
  "now_of env q = TimerStamp (clock env (ticks q))"

text \<open>What \<open>HandleRead\<close> does: which callbacks ran, and what became of the timers that were due.\<close>

definition handled :: "timer_stamp \<Rightarrow> queue \<Rightarrow> queue \<Rightarrow> bool" where
  "handled now q q' \<longleftrightarrow>
     fired q' = fired q @ map (\<lambda>e. sequence_at q (snd e)) (due_at now q)
     \<and> (\<forall>p \<in> snd ` set (due_at now q). store q' p = Option.bind (store q p) (rescheduled now)
          \<and> (\<forall>t. store q p = Some t \<longrightarrow> repeat_timer t \<longrightarrow> AddTime now (interval t) \<noteq> None))
     \<and> calling_expired q' = Some False \<and> canceling_timers q' = []
     \<and> num_created q \<le> num_created q'"

lemma distinct_addrs: "queue_inv E q \<Longrightarrow> distinct (map snd (timers q))"
  using queue_invD(2) timers_key by (fastforce simp: distinct_map inj_on_def)

text \<open>The state in which the callbacks start, and what is left to do from there.\<close>

lemma HandleRead_start:
  assumes inv: "queue_inv {} q"
  obtains q3 where
    "HandleRead env q = bindE (start_all env (due_at (now_of env q) q) q3)
      (\<lambda>q4. Reset env (due_at (now_of env q) q) (now_of env q) (q4\<lparr>calling_expired := Some False\<rparr>))"
    "queue_inv (snd ` set (due_at (now_of env q) q)) q3"
    "store q3 = store q" "num_created q3 = num_created q" "fired q3 = fired q"
    "calling_expired q3 = Some True" "canceling_timers q3 = []"
    "\<And>e. e \<in> set (timers q3) \<Longrightarrow> now_of env q < fst e"
proof -
  let ?now = "now_of env q"
  let ?D = "snd ` set (due_at ?now q)"
  define q1 where "q1 = readTimerfd (q\<lparr>ticks := Suc (ticks q)\<rparr>)"
  have core: "same_core q q1"
    by (simp add: q1_def readTimerfd_def same_core_def fired_def)
  then have inv1: "queue_inv {} q1" using inv same_core_inv by blast
  have due: "due_at ?now q1 = due_at ?now q" using core by (simp add: due_at_def same_core_def)
  obtain A where A: "GetExpired ?now q1 = Inr (due_at ?now q,
      q1\<lparr>timers := filter (\<lambda>e. \<not> fst e \<le> ?now) (timers q1), active_timers := A\<rparr>)"
    and inv2: "queue_inv ?D (q1\<lparr>timers := filter (\<lambda>e. \<not> fst e \<le> ?now) (timers q1), active_timers := A\<rparr>)"
    using GetExpired_result[OF inv1, of ?now] unfolding due by auto
  let ?q3 = "q1\<lparr>timers := filter (\<lambda>e. \<not> fst e \<le> ?now) (timers q1), active_timers := A,
    calling_expired := Some True, canceling_timers := []\<rparr>"
  show thesis
  proof (rule that[of ?q3])
    show "HandleRead env q = bindE (start_all env (due_at ?now q) ?q3)
      (\<lambda>q4. Reset env (due_at ?now q) ?now (q4\<lparr>calling_expired := Some False\<rparr>))"
      using A by (simp add: HandleRead_def read_clock_def now_of_def q1_def)
  qed (use inv2 core in \<open>auto simp: same_core_def fired_def\<close>)
qed

lemma distinct_due: "queue_inv E q \<Longrightarrow> distinct (map snd (due_at now q))"
  using distinct_addrs unfolding due_at_def by (simp add: distinct_map_filter)

lemma HandleRead_outcome:
  assumes inv: "queue_inv {} q" and ok: "allocator_ok env"
  shows "outcome outside_fault (\<lambda>q'. queue_inv {} q' \<and> handled (now_of env q) q q') (HandleRead env q)"
proof -
  let ?now = "now_of env q"
  define D where "D = snd ` set (due_at ?now q)"
  define ss where "ss = map (\<lambda>e. sequence_at q (snd e)) (due_at ?now q)"
  obtain q3 where q3: "HandleRead env q = bindE (start_all env (due_at ?now q) q3)
      (\<lambda>q4. Reset env (due_at ?now q) ?now (q4\<lparr>calling_expired := Some False\<rparr>))"
    "queue_inv D q3" "store q3 = store q" "num_created q3 = num_created q" "fired q3 = fired q"
    "canceling_timers q3 = []"
    using HandleRead_start[OF inv, of env] unfolding D_def by metis
  have seq: "sequence_at q3 p = sequence_at q p" for p
    using q3(3) by (simp add: sequence_at_def)
  have run: "outcome outside_fault (ran D ss q3) (start_all env (due_at ?now q) q3)"
    using start_all_outcome[OF q3(2) ok, of "due_at ?now q"] unfolding seq by (simp add: D_def ss_def)
  have reset: "outcome outside_fault (\<lambda>q'. queue_inv {} q' \<and> handled ?now q q')
      (Reset env (due_at ?now q) ?now (q4\<lparr>calling_expired := Some False\<rparr>))"
    if q4: "ran D ss q3 q4" for q4
  proof (rule outcome_mono[OF Reset_outcome[where E = D, OF _ distinct_due[OF inv]]])
    show "queue_inv D (q4\<lparr>calling_expired := Some False\<rparr>)" using q4 by (simp add: ran_def)
    show "snd ` set (due_at ?now q) \<subseteq> D" by (simp add: D_def)
    show "canceling_timers (q4\<lparr>calling_expired := Some False\<rparr>) = []" using q4 q3 by (simp add: ran_def keeps_def)
    have at: "store q4 p = store q p" if "p \<in> D" for p
      using q4 q3 that by (simp add: ran_def keeps_def)
    have fired4: "fired q4 = fired q @ ss" using q4 q3 by (simp add: ran_def keeps_def fired_def)
    fix q' assume "queue_inv (D - snd ` set (due_at ?now q)) q' \<and>
      (\<exists>q5. reset_to ?now (snd ` set (due_at ?now q)) (q4\<lparr>calling_expired := Some False\<rparr>) q5 \<and> same_core q5 q')"
    then show "queue_inv {} q' \<and> handled ?now q q'"
      using at fired4 q4 q3 unfolding handled_def D_def[symmetric] ss_def[symmetric]
      by (auto simp: reset_to_def same_core_def ran_def keeps_def fired_def)
  qed
  show ?thesis unfolding q3(1) using outcome_bindE[OF run reset] .
qed

subsection \<open>Runs of the whole queue\<close>

text \<open>
  What happens to a queue between its constructor and its destructor: calls of the client, the
  passing of time in the kernel, and \<open>HandleRead\<close> when the channel finds the descriptor readable.
\<close>

datatype queue_op = Client action | Elapse int | Readable

fun queue_step :: "env \<Rightarrow> queue_op \<Rightarrow> queue \<Rightarrow> fault + queue" where
  "queue_step env (Client a) q = run_action env a q"
| "queue_step env (Elapse t) q = Inr (timerfd_expire t q)"
| "queue_step env Readable q = HandleRead env q"

definition grows :: "queue \<Rightarrow> queue \<Rightarrow> bool" where
  "grows q q' \<longleftrightarrow> num_created q \<le> num_created q' \<and> (\<exists>ss. fired q' = fired q @ ss)"

lemma queue_step_outcome:
  assumes "queue_inv {} q" "allocator_ok env"
  shows "outcome outside_fault (\<lambda>q'. queue_inv {} q' \<and> grows q q') (queue_step env op q)"
proof (cases op)
  case (Client a)
  then show ?thesis
    using outcome_mono[OF run_action_outcome[OF assms, of a]]
    by (auto simp: op_ok_def keeps_def grows_def)
next
  case (Elapse t)
  have "same_core q (timerfd_expire t q)"
    by (simp add: timerfd_expire_def same_core_def fired_def split: option.split)
  then show ?thesis
    using Elapse assms(1) same_core_inv[of q "timerfd_expire t q"] by (simp add: grows_def same_core_def)
next
  case Readable
  then show ?thesis
    using outcome_mono[OF HandleRead_outcome[OF assms]] by (auto simp: handled_def grows_def)
qed

interpretation runs: safe_ops "queue_step env" "\<lambda>q. queue_inv {} q \<and> allocator_ok env" grows outside_fault
  for env
proof
  fix q op
  assume "queue_inv {} q \<and> allocator_ok env"
  then show "outcome outside_fault (\<lambda>q'. (queue_inv {} q' \<and> allocator_ok env) \<and> grows q q') (queue_step env op q)"
    by (auto intro: outcome_mono[OF queue_step_outcome])
qed (auto simp: grows_def)

lemma new_queue_inv: "queue_inv {} new_queue"
  by (simp add: queue_inv_def new_queue_def owned_def)

end
