(* ===== verification/Timer_Queue_Wake.thy ===== *)
theory Timer_Queue_Wake
  imports Timer_Queue_Fire
begin

section \<open>No timer is left without a wake-up\<close>

text \<open>
  \<open>armed env w q\<close>: an expiration of the descriptor is pending, or the descriptor is set to expire no
  later than the date \<open>w\<close>, or than 100 microseconds after some reading of the clock. Between two
  operations of the queue every timer in it is covered in this way. While the callbacks run the
  descriptor has just been read, so only the dates in the past are covered until \<open>Reset\<close>.
\<close>

definition armed :: "env \<Rightarrow> timer_stamp \<Rightarrow> queue \<Rightarrow> bool" where
  "armed env w q \<longleftrightarrow> 0 < tfd_count q \<or>
     (\<exists>d n. tfd_due q = Some d \<and> n < ticks q \<and> d \<le> max (micros w) (clock env n + 100))"

definition covered :: "(timer_stamp \<Rightarrow> bool) \<Rightarrow> env \<Rightarrow> queue \<Rightarrow> bool" where
  "covered P env q \<longleftrightarrow> (\<forall>e \<in> set (timers q). P (fst e) \<longrightarrow> armed env (fst e) q)"

definition down_closed :: "(timer_stamp \<Rightarrow> bool) \<Rightarrow> bool" where
  "down_closed P \<longleftrightarrow> (\<forall>v w. v \<le> w \<longrightarrow> P w \<longrightarrow> P v)"

lemma armed_later: "armed env v q \<Longrightarrow> v \<le> w \<Longrightarrow> armed env w q"
  by (fastforce simp: armed_def less_eq_timer_stamp_def)

lemma armed_tick: "armed env w q \<Longrightarrow> armed env w (q\<lparr>ticks := Suc (ticks q)\<rparr>)"
  by (auto simp: armed_def intro: less_SucI)

lemma howMuchTime_exact:
  assumes "howMuchTimeFronNow e now = Some (sec, nsec)"
  shows "0 \<le> sec" "0 \<le> nsec" "nsec \<le> 999999999" "sec \<noteq> 0 \<or> nsec \<noteq> 0"
    "sec * 1000000 + nsec div 1000 = max 100 (micros e - micros now)"
proof -
  define m where "m = max 100 (micros e - micros now)"
  have m: "100 \<le> m" by (simp add: m_def)
  have "sec = m div 1000000" "nsec = (m mod 1000000) * 1000"
    using assms m
    by (auto simp: howMuchTimeFronNow_def bind_eq_Some_conv i64_Some_iff Let_def m_def max_def
        kMicroSecondsPerSecond_def sdiv_nonneg smod_nonneg split: if_splits)
  then show "0 \<le> sec" "0 \<le> nsec" "nsec \<le> 999999999" "sec \<noteq> 0 \<or> nsec \<noteq> 0"
    "sec * 1000000 + nsec div 1000 = max 100 (micros e - micros now)"
    using m unfolding m_def[symmetric] by simp_all
qed

lemma resetTimerfd_arms:
  assumes "resetTimerfd env e q = Inr q'"
  shows "armed env e q'"
proof -
  let ?now = "TimerStamp (clock env (ticks q))"
  obtain sec nsec where ts: "howMuchTimeFronNow e ?now = Some (sec, nsec)"
    using assms by (auto simp: resetTimerfd_def read_clock_def bindE_Inr_iff or_fault_Inr_iff)
  note ex = howMuchTime_exact[OF ts]
  then have "q' = q\<lparr>ticks := Suc (ticks q), tfd_count := 0,
      tfd_due := Some (clock env (ticks q) + (sec * 1000000 + nsec div 1000))\<rparr>"
    using assms ts by (auto simp: resetTimerfd_def read_clock_def timerfd_settime_def)
  then show ?thesis
    unfolding ex(5) by (auto simp: armed_def intro!: exI[of _ "ticks q"])
qed

lemma covered_reset:
  assumes "resetTimerfd env w q = Inr q'" "\<And>e. e \<in> set (timers q) \<Longrightarrow> w \<le> fst e"
  shows "covered P env q'"
  using resetTimerfd_arms[OF assms(1)] resetTimerfd_outcome[of q env w] assms armed_later
  by (auto simp: covered_def same_core_def)

lemma AddTimer_covered:
  assumes inv: "queue_inv E q" and ok: "allocator_ok env" and P: "down_closed P" and cov: "covered P env q"
    and add: "AddTimer env cb due ival q = Inr (i, q')"
  shows "covered P env q'"
proof -
  obtain p where p: "alloc env (store q) = Some p"
    using add by (cases "alloc env (store q)") (simp_all add: AddTimer_def)
  then have fresh: "store q p = None" "p < UINTPTR_MAX" using ok by (auto simp: allocator_ok_def)
  note eq = AddTimer_eq[OF inv p fresh, of cb due ival]
  have tm: "set (timers (added cb due ival p q)) = insert (due, p) (set (timers q))"
    by (simp add: added_def attach_def Let_def set_insort_key)
  have fd: "armed env w (added cb due ival p q) = armed env w q" for w
    by (simp add: added_def attach_def Let_def armed_def)
  show ?thesis
  proof (cases "timers q")
    case Nil
    then have "resetTimerfd env due (added cb due ival p q) = Inr q'"
      using add eq by (auto simp: bindE_Inr_iff)
    then show ?thesis by (rule covered_reset) (use tm Nil in auto)
  next
    case (Cons e es)
    obtain v r where e: "e = (v, r)" by (cases e)
    have hd: "v \<le> fst x" if "x \<in> set (timers q)" for x
      using that queue_invD(1)[OF inv] Cons e by (cases x) (auto simp: less_eq_prod_def)
    show ?thesis
    proof (cases "due < v")
      case True
      then have "resetTimerfd env due (added cb due ival p q) = Inr q'"
        using add eq Cons e by (auto simp: bindE_Inr_iff)
      then show ?thesis by (rule covered_reset) (use tm hd True in fastforce)
    next
      case False
      then have q': "q' = added cb due ival p q" using add eq Cons e by simp
      have "armed env due q" if "P due"
      proof -
        have "P v" using that False P by (auto simp: down_closed_def not_less)
        then have "armed env v q" using cov Cons e by (simp add: covered_def)
        then show ?thesis using False armed_later by simp
      qed
      then show ?thesis using cov tm by (auto simp: q' covered_def fd)
    qed
  qed
qed

lemma covered_tick: "covered P env q \<Longrightarrow> covered P env (q\<lparr>ticks := Suc (ticks q)\<rparr>)"
  using armed_tick by (auto simp: covered_def)

lemma StopTimer_covered:
  assumes inv: "queue_inv E q" and cov: "covered P env q" and "StopTimer i q = Inr q'"
  shows "covered P env q'"
proof (cases "map_of (active_timers q) i")
  case None
  then show ?thesis
    using assms by (auto simp: StopTimer_inactive[OF inv None] split: option.splits bool.splits)
next
  case (Some p)
  then obtain t where "StopTimer i q = Inr ((detach p t q)\<lparr>store := (store q)(p := None)\<rparr>)"
    by (rule StopTimer_active[OF inv])
  then show ?thesis
    using assms set_remove1_subset by (fastforce simp: covered_def detach_def armed_def)
qed

lemma run_action_covered:
  assumes inv: "queue_inv E q" and ok: "allocator_ok env" and P: "down_closed P" and cov: "covered P env q"
    and run: "run_action env a q = Inr q'"
  shows "covered P env q'"
proof -
  let ?q = "q\<lparr>ticks := Suc (ticks q)\<rparr>"
  have tick: "queue_inv E ?q" "covered P env ?q" using inv covered_tick[OF cov] by simp_all
  show ?thesis
    using run AddTimer_covered[OF inv ok P cov] AddTimer_covered[OF tick(1) ok P tick(2)]
      StopTimer_covered[OF inv cov]
    by (cases a)
      (auto simp: bindE_Inr_iff or_fault_Inr_iff AddtimerAtTime_def AddtimerAfterTime_def
        AddtimerEveryTime_def read_clock_def)
qed

interpretation covering: safe_ops "run_action env"
  "\<lambda>q. queue_inv E q \<and> allocator_ok env \<and> down_closed P \<and> covered P env q" "\<lambda>q q'. True" "\<lambda>e. True"
  for env E P
proof
  fix q a
  assume q: "queue_inv E q \<and> allocator_ok env \<and> down_closed P \<and> covered P env q"
  show "outcome (\<lambda>e. True) (\<lambda>q'. (queue_inv E q' \<and> allocator_ok env \<and> down_closed P \<and> covered P env q') \<and> True)
      (run_action env a q)"
    using q run_action_outcome[of E q env a] run_action_covered[of E q env P a]
    by (cases "run_action env a q") (auto simp: op_ok_def)
qed auto

lemma start_all_covered:
  assumes "queue_inv E q" "allocator_ok env" "down_closed P" "covered P env q" "snd ` set es \<subseteq> E"
    "start_all env es q = Inr q'"
  shows "covered P env q'"
  using assms
proof (induction es arbitrary: q)
  case (Cons e es)
  obtain w p where e: "e = (w, p)" by (cases e)
  then have "p \<in> dom (store q)" using Cons.prems(5) queue_invD(4)[OF Cons.prems(1)] by auto
  then obtain t where t: "store q p = Some t" by auto
  obtain q1 where q1: "Start env p q = Inr q1" "start_all env es q1 = Inr q'"
    using Cons.prems(6) e by (auto simp: bindE_Inr_iff)
  have "queue_inv E q1"
    using outcome_Inr[OF Start_outcome[OF Cons.prems(1,2) t] q1(1)] by (simp add: ran_def)
  moreover have "covered P env q1"
  proof -
    have "covered P env (q\<lparr>log := log q @ [Fired (sequence t)]\<rparr>)"
      using Cons.prems(4) by (simp add: covered_def armed_def)
    then show ?thesis
      using covering.steps_inv[of E "q\<lparr>log := log q @ [Fired (sequence t)]\<rparr>" env P "program env (callback t)" q1]
        Cons.prems q1(1) t by (simp add: Start_def deref_def)
  qed
  ultimately show ?case using Cons.IH[of q1] Cons.prems q1(2) by simp
qed simp

subsection \<open>\<open>HandleRead\<close>\<close>

text \<open>A repeating timer is put back at a date that is not before the reading of the clock.\<close>

lemma AddTime_later:
  assumes "AddTime now s = Some e" "dless (Fin 0) s"
  shows "now \<le> e"
proof -
  obtain d where d: "to_i64 (dmul s (of_i kMicroSecondsPerSecond)) = Some d" "micros e = micros now + d"
    using assms(1) by (auto simp: AddTime_def bind_eq_Some_conv i64_Some_iff)
  have "0 \<le> d"
  proof (cases s)
    case (Fin r)
    then have "0 \<le> round64 (r * 1000000)" using assms(2) by (intro round64_nonneg) simp
    then show ?thesis
      using d(1) Fin dbl_of_int[of 1000000]
      by (auto simp: of_i_def kMicroSecondsPerSecond_def dbl_def[of "r * 1000000"] Let_def trunc_def split: if_splits)
  qed (use assms(2) d(1) dbl_of_int[of 1000000] in
      \<open>auto simp: of_i_def kMicroSecondsPerSecond_def inf_of_sign_def\<close>)
  then show ?thesis using d(2) by (simp add: less_eq_timer_stamp_def)
qed

lemma reset_all_covered:
  assumes inv: "queue_inv D q" and inv': "queue_inv {} q'" and reset: "reset_to now D q q'"
    and now: "Valid now" and cov: "covered (\<lambda>w. \<not> Valid w) env q"
  shows "covered (\<lambda>w. \<not> Valid w) env q'"
  unfolding covered_def
proof (intro ballI impI)
  fix e assume e: "e \<in> set (timers q')" "\<not> Valid (fst e)"
  obtain w p where wp: "e = (w, p)" by (cases e)
  then obtain t where t: "store q' p = Some t" "expiration t = w"
    using e(1) queue_inv_timers[OF inv'] by blast
  have "p \<notin> D"
  proof
    assume "p \<in> D"
    then obtain s where s: "store q p = Some s" "rescheduled now s = Some t"
      using t(1) reset by (auto simp: reset_to_def bind_eq_Some_conv)
    then have "repeat_timer s" "AddTime now (interval s) = Some w"
      using t(2) by (auto simp: rescheduled_def split: if_splits)
    then have "now \<le> w" using AddTime_later queue_inv_store[OF inv s(1)] by blast
    then show False using e(2) wp now by (auto simp: Valid_def less_eq_timer_stamp_def)
  qed
  then have "store q p = Some t" "p \<in> owned q"
    using t(1) reset queue_invD(4)[OF inv] by (auto simp: reset_to_def)
  then have "(w, p) \<in> set (timers q)" using owned_iff[OF inv] t(2) by blast
  then have "armed env w q" using cov e(2) wp by (auto simp: covered_def)
  then show "armed env (fst e) q'" using reset wp by (simp add: armed_def reset_to_def)
qed

lemma rearm_covered:
  assumes inv: "queue_inv {} q" and cov: "covered (\<lambda>w. \<not> Valid w) env q"
    and last: "(case timers q of [] \<Rightarrow> Inr q
       | (_, p) # _ \<Rightarrow> bindE (deref q p)
           (\<lambda>t. if Valid (expiration t) then resetTimerfd env (expiration t) q else Inr q)) = Inr q'"
  shows "covered (\<lambda>_. True) env q'"
proof (cases "timers q")
  case Nil
  then show ?thesis using last by (simp add: covered_def)
next
  case (Cons e es)
  obtain v r where e: "e = (v, r)" by (cases e)
  have hd: "v \<le> fst x" if "x \<in> set (timers q)" for x
    using that queue_invD(1)[OF inv] Cons e by (cases x) (auto simp: less_eq_prod_def)
  obtain t where t: "store q r = Some t" "expiration t = v"
    using queue_inv_timers[OF inv, of v r] Cons e by auto
  show ?thesis
  proof (cases "Valid v")
    case True
    then have "resetTimerfd env v q = Inr q'" using last Cons e t by (simp add: deref_def)
    then show ?thesis by (rule covered_reset) (rule hd)
  next
    case False
    then have "armed env v q" using cov Cons e by (simp add: covered_def)
    then have "covered (\<lambda>_. True) env q" using hd armed_later by (auto simp: covered_def)
    then show ?thesis using last Cons e t False by (simp add: deref_def)
  qed
qed

lemma HandleRead_covered:
  assumes inv: "queue_inv {} q" and ok: "allocator_ok env" and clock: "\<And>n. 0 < clock env n"
    and run: "HandleRead env q = Inr q'"
  shows "covered (\<lambda>_. True) env q'"
proof -
  let ?now = "now_of env q" and ?P = "\<lambda>w. \<not> Valid w"
  let ?due = "due_at ?now q"
  let ?D = "snd ` set ?due"
  have now: "Valid ?now" using clock by (simp add: Valid_def now_of_def)
  obtain q3 where q3: "HandleRead env q = bindE (start_all env ?due q3)
      (\<lambda>q4. Reset env ?due ?now (q4\<lparr>calling_expired := Some False\<rparr>))"
    "queue_inv ?D q3" "canceling_timers q3 = []" "\<And>e. e \<in> set (timers q3) \<Longrightarrow> ?now < fst e"
    using HandleRead_start[OF inv, of env] by metis
  obtain q4 where q4: "start_all env ?due q3 = Inr q4"
    and reset: "Reset env ?due ?now (q4\<lparr>calling_expired := Some False\<rparr>) = Inr q'"
    using run unfolding q3(1) by (auto simp: bindE_Inr_iff)
  let ?q4 = "q4\<lparr>calling_expired := Some False\<rparr>"
  have "covered ?P env q3"
    using now q3(4) by (fastforce simp: covered_def Valid_def stamp_order)
  then have "covered ?P env q4"
    using start_all_covered[OF q3(2) ok _ _ _ q4] by (auto simp: down_closed_def Valid_def less_eq_timer_stamp_def)
  then have cov4: "covered ?P env ?q4" by (simp add: covered_def armed_def)
  have ran4: "queue_inv ?D ?q4 \<and> canceling_timers ?q4 = []"
    using outcome_Inr[OF start_all_outcome[OF q3(2) ok order_refl] q4] q3(3) by (simp add: ran_def keeps_def)
  obtain q5 where q5: "reset_all ?now ?due ?q4 = Inr q5"
    and last: "(case timers q5 of [] \<Rightarrow> Inr q5
       | (_, p) # _ \<Rightarrow> bindE (deref q5 p)
           (\<lambda>t. if Valid (expiration t) then resetTimerfd env (expiration t) q5 else Inr q5)) = Inr q'"
    using reset by (auto simp: Reset_def bindE_Inr_iff)
  have "queue_inv {} q5" "reset_to ?now ?D ?q4 q5"
    using outcome_Inr[OF reset_all_outcome[of ?D ?q4 ?due ?now] q5] ran4 distinct_due[OF inv] by auto
  then show ?thesis using rearm_covered[OF _ reset_all_covered[OF _ _ _ now cov4] last] ran4 by blast
qed

text \<open>Between operations every timer is covered, whatever happened before.\<close>

interpretation wakes: safe_ops "queue_step env"
  "\<lambda>q. queue_inv {} q \<and> allocator_ok env \<and> (\<forall>n. 0 < clock env n) \<and> covered (\<lambda>_. True) env q"
  "\<lambda>q q'. True" "\<lambda>e. True"
  for env
proof
  fix q op
  assume q: "queue_inv {} q \<and> allocator_ok env \<and> (\<forall>n. 0 < clock env n) \<and> covered (\<lambda>_. True) env q"
  have "covered (\<lambda>_. True) env q'" if "queue_step env op q = Inr q'" for q'
  proof (cases op)
    case (Client a)
    then show ?thesis using run_action_covered[of "{}" q env "\<lambda>_. True" a q'] q that by (simp add: down_closed_def)
  next
    case (Elapse t)
    then show ?thesis
      using q that by (auto simp: timerfd_expire_def covered_def armed_def split: option.splits if_splits)
  next
    case Readable
    then show ?thesis using HandleRead_covered[of q env q'] q that by simp
  qed
  then show "outcome (\<lambda>e. True) (\<lambda>q'. (queue_inv {} q' \<and> allocator_ok env \<and> (\<forall>n. 0 < clock env n)
      \<and> covered (\<lambda>_. True) env q') \<and> True) (queue_step env op q)"
    using q queue_step_outcome[of q env op] by (cases "queue_step env op q") auto
qed auto

lemma covered_run:
  assumes "queue_inv {} q" "allocator_ok env" "\<And>n. 0 < clock env n" "covered (\<lambda>_. True) env q"
    "steps (queue_step env) ops q = Inr q'"
  shows "covered (\<lambda>_. True) env q'"
  using wakes.steps_inv[of q env ops q'] assms by blast

end
