(* ===== verification/Timer_Queue_Props.thy ===== *)
theory Timer_Queue_Props
  imports Timer_Queue_Wake
begin

section \<open>What the timer queue promises\<close>

text \<open>
  The properties of the queue as its clients see it, for any interleaving of client calls, clock
  ticks and readable descriptors, and a small machine (an allocator with eight cells and a clock
  that advances by a second at each reading) on which they are exercised.
\<close>

definition demo_env :: "(nat \<Rightarrow> action list) \<Rightarrow> env" where
  "demo_env prog = \<lparr>alloc = (\<lambda>h. find (\<lambda>p. h p = None) [1, 2, 3, 4, 5, 6, 7, 8]),
                    clock = (\<lambda>n. 1000000 * (int n + 1)), program = prog\<rparr>"

lemma demo_env_simps [simp]:
  "clock (demo_env prog) n = 1000000 * (int n + 1)"
  "program (demo_env prog) = prog"
  "alloc (demo_env prog) = (\<lambda>h. find (\<lambda>p. h p = None) [1, 2, 3, 4, 5, 6, 7, 8])"
  by (simp_all add: demo_env_def)

lemma demo_allocator [simp]: "allocator_ok (demo_env prog)"
  by (auto simp: allocator_ok_def UINTPTR_MAX_def split: if_splits)

lemma demo_clock: "0 < clock (demo_env prog) n"
  by simp

subsection \<open>Safety of every run\<close>

text \<open>C1: from a new queue, any sequence of client calls, clock ticks and readable events ends in a
  state in which the two containers and the live timer objects agree, or stops at a fault that comes
  from outside the bookkeeping (no memory, a date that does not fit, a timer that is not active is
  stopped); in particular there is never a use after free, and no assertion fails.\<close>

theorem queue_runs_safe:
  assumes "allocator_ok env"
  shows "outcome outside_fault (queue_inv {}) (steps (queue_step env) ops new_queue)"
  using runs.steps_safe[of new_queue env ops] assms new_queue_inv by (auto intro: outcome_mono)

theorem queue_runs_safe_witness:
  "outcome outside_fault (queue_inv {})
     (steps (queue_step (demo_env (\<lambda>_. [])))
        [Client (AddAt (TimerStamp 5) 0), Readable, Client (Stop 0)] new_queue)"
  by (rule queue_runs_safe) simp

text \<open>C2: no timer is stranded: after any run that meets no fault, every timer in the queue has a
  pending expiration of the descriptor, or the descriptor is armed for no later than its date, or
  than 100 microseconds after the clock was last read to arm it.\<close>

theorem timers_never_stranded:
  assumes "allocator_ok env" "\<And>n. 0 < clock env n"
    and "steps (queue_step env) ops new_queue = Inr q" and "(w, p) \<in> set (timers q)"
  shows "armed env w q"
  using covered_run[OF new_queue_inv assms(1,2) _ assms(3)] assms(4)
  by (auto simp: covered_def new_queue_def)

theorem timers_never_stranded_witness:
  "\<exists>q. steps (queue_step (demo_env (\<lambda>_. []))) [Client (AddAt (TimerStamp 5) 0)] new_queue = Inr q
     \<and> (TimerStamp 5, 1) \<in> set (timers q) \<and> armed (demo_env (\<lambda>_. [])) (TimerStamp 5) q"
proof -
  let ?e = "demo_env (\<lambda>_. [])"
  have "yields (\<lambda>q. (TimerStamp 5, 1) \<in> set (timers q))
      (steps (queue_step ?e) [Client (AddAt (TimerStamp 5) 0)] new_queue)"
    by code_simp
  then obtain q where q: "steps (queue_step ?e) [Client (AddAt (TimerStamp 5) 0)] new_queue = Inr q"
    "(TimerStamp 5, 1) \<in> set (timers q)"
    by (rule yieldsE)
  then show ?thesis using timers_never_stranded[OF demo_allocator demo_clock q] by blast
qed

subsection \<open>The operations of the client\<close>

text \<open>C7: \<open>AddTimer\<close> returns a number that no object has; under it the queue now holds a new object
  with the callback, date and interval that were given, and every other object is as before.\<close>

theorem AddTimer_adds:
  assumes inv: "queue_inv {} q" and "allocator_ok env" and "AddTimer env cb due ival q = Inr (i, q')"
  shows "(\<forall>p t. store q p = Some t \<longrightarrow> sequence t \<noteq> i) \<and> queue_inv {} q' \<and>
    (\<exists>p. store q p = None \<and> map_of (active_timers q') i = Some p \<and> (due, p) \<in> set (timers q') \<and>
      store q' = (store q)(p \<mapsto> \<lparr>callback = cb, expiration = due, interval = ival,
        repeat_timer = dless (Fin 0) ival, sequence = i\<rparr>))"
proof -
  from AddTimer_result[OF assms] obtain p where p: "i = num_created q" "store q p = None" "p < UINTPTR_MAX"
    "same_core (added cb due ival p q) q'" .
  have "sequence t \<noteq> i" if "store q r = Some t" for r t
    using queue_inv_store[OF inv that] p(1) by simp
  moreover have "queue_inv {} q'"
    using added_inv[OF inv p(2,3)] same_core_inv[OF p(4)] by blast
  moreover have "map_of (active_timers q') i = Some p \<and> (due, p) \<in> set (timers q')
      \<and> store q' = (store q)(p \<mapsto> new_timer cb due ival i)"
    using p(1,4) by (auto simp: same_core_def added_def attach_def Let_def set_insort_key)
  ultimately show ?thesis using p(2) by (auto simp: new_timer_def)
qed

theorem AddTimer_adds_witness:
  "\<exists>q'. AddTimer (demo_env (\<lambda>_. [])) 7 (TimerStamp 5) (Fin 2) new_queue = Inr (0, q')
     \<and> queue_inv {} q' \<and> map_of (active_timers q') 0 = Some 1"
proof -
  have "yields (\<lambda>(i, q'). i = 0 \<and> map_of (active_timers q') 0 = Some 1)
      (AddTimer (demo_env (\<lambda>_. [])) 7 (TimerStamp 5) (Fin 2) new_queue)"
    by code_simp
  then obtain q' where q': "AddTimer (demo_env (\<lambda>_. [])) 7 (TimerStamp 5) (Fin 2) new_queue = Inr (0, q')"
    "map_of (active_timers q') 0 = Some 1"
    by (auto elim!: yieldsE)
  then show ?thesis using AddTimer_adds[OF new_queue_inv demo_allocator q'(1)] by blast
qed

text \<open>C8: \<open>StopTimer\<close> with the number of a timer that is in the queue removes that timer, and no other,
  from both containers and frees its object, and no other; every other field of the queue (the clock
  readings, the state of the descriptor, the flag, the cancelled timers, the count and the log) is as
  before.\<close>

theorem StopTimer_removes:
  assumes inv: "queue_inv {} q" and i: "map_of (active_timers q) i = Some p"
  shows "\<exists>q'. StopTimer i q = Inr q' \<and> queue_inv {} q' \<and> store q' = (store q)(p := None)
    \<and> timers q' = filter (\<lambda>e. snd e \<noteq> p) (timers q)
    \<and> map_of (active_timers q') = (map_of (active_timers q))(i := None)
    \<and> q' = q\<lparr>store := store q', timers := timers q', active_timers := active_timers q'\<rparr>"
proof -
  obtain t where t: "store q p = Some t" "p \<in> owned q"
    "StopTimer i q = Inr ((detach p t q)\<lparr>store := (store q)(p := None)\<rparr>)"
    "queue_inv {} ((detach p t q)\<lparr>store := (store q)(p := None)\<rparr>)" "sequence t = i"
    using StopTimer_active[OF inv i] by metis
  have "remove1 (expiration t, p) (timers q) = filter (\<lambda>e. snd e \<noteq> p) (timers q)"
    unfolding distinct_remove1_removeAll[OF queue_invD(2)[OF inv]] removeAll_filter_not_eq
    by (rule filter_cong[OF refl]) (use owned_iff[OF inv t(1)] t(1,2) queue_inv_timers[OF inv] in fastforce)
  moreover have "map_of (erase_key i m) = (map_of m)(i := None)" for m :: "(int \<times> addr) list"
    by (induction m) (auto simp: erase_key_def fun_eq_iff)
  ultimately show ?thesis using t(3-5) by (auto simp: detach_def)
qed

theorem StopTimer_removes_witness:
  "\<exists>q q'. AddTimer (demo_env (\<lambda>_. [])) 7 (TimerStamp 5) (Fin 2) new_queue = Inr (0, q)
     \<and> StopTimer 0 q = Inr q' \<and> store q' 1 = None"
proof -
  have "yields (\<lambda>(i, q'). i = 0 \<and> map_of (active_timers q') 0 = Some 1)
      (AddTimer (demo_env (\<lambda>_. [])) 7 (TimerStamp 5) (Fin 2) new_queue)"
    by code_simp
  then obtain q where q: "AddTimer (demo_env (\<lambda>_. [])) 7 (TimerStamp 5) (Fin 2) new_queue = Inr (0, q)"
    "map_of (active_timers q) 0 = Some 1"
    by (auto elim!: yieldsE)
  have "queue_inv {} q"
    using outcome_Inr[OF AddTimer_outcome[OF new_queue_inv demo_allocator] q(1)] by (simp add: op_ok_def)
  from StopTimer_removes[OF this q(2)] q(1) show ?thesis by fastforce
qed

text \<open>\<open>StopTimer\<close> with any other number. Between two expirations it does nothing. While expired
  callbacks run it dereferences the end iterator of \<open>active_timers_\<close>, where it means to note the
  cancellation; and before the first expiration it reads \<open>callingExpiredTimers_\<close>, which no
  constructor has set.\<close>

theorem StopTimer_unknown:
  assumes "queue_inv E q" "map_of (active_timers q) i = None"
  shows "StopTimer i q = (case calling_expired q of
    None \<Rightarrow> Inl UninitRead | Some True \<Rightarrow> Inl EndDeref | Some False \<Rightarrow> Inr q)"
  using assms by (rule StopTimer_inactive)

theorem StopTimer_unknown_witness:
  "StopTimer 3 (new_queue\<lparr>calling_expired := Some True\<rparr>) = Inl EndDeref \<and> StopTimer 3 new_queue = Inl UninitRead"
proof -
  have "queue_inv {} (new_queue\<lparr>calling_expired := Some True\<rparr>)" using new_queue_inv by simp
  from StopTimer_unknown[OF this, of 3] StopTimer_unknown[OF new_queue_inv, of 3]
  show ?thesis by (simp add: new_queue_def)
qed

subsection \<open>Expiry\<close>

text \<open>\<open>HandleRead\<close> runs the callbacks of exactly the timers whose date is not after the time it
  read, each once, in the order of their dates (of their addresses for equal dates), whatever the
  callbacks do to the queue meanwhile.\<close>

theorem HandleRead_fires:
  assumes "queue_inv {} q" "allocator_ok env" "HandleRead env q = Inr q'"
  shows "fired q' = fired q @ map (\<lambda>e. sequence_at q (snd e))
      (filter (\<lambda>e. fst e \<le> TimerStamp (clock env (ticks q))) (timers q))
    \<and> sorted (timers q) \<and> queue_inv {} q'"
  using outcome_Inr[OF HandleRead_outcome[OF assms(1,2)] assms(3)] queue_invD(1)[OF assms(1)]
  by (simp add: handled_def due_at_def now_of_def)

text \<open>A queue with three timers, two of which are due when it is read.\<close>

definition demo_ops :: "queue_op list" where
  "demo_ops = [Client (AddAt (TimerStamp 5) 0), Client (AddAt (TimerStamp (10 ^ 9)) 1),
               Client (AddEvery (Fin 1) 2), Elapse 4000000]"

definition demo_queue :: queue where
  "demo_queue = (case steps (queue_step (demo_env (\<lambda>_. []))) demo_ops new_queue of Inr q \<Rightarrow> q | Inl _ \<Rightarrow> new_queue)"

lemma demo_queue_inv: "queue_inv {} demo_queue"
  unfolding demo_queue_def
  using runs.steps_inv[of new_queue "demo_env (\<lambda>_. [])" demo_ops] new_queue_inv
  by (auto split: sum.split)

theorem HandleRead_fires_witness:
  "\<exists>q'. HandleRead (demo_env (\<lambda>_. [])) demo_queue = Inr q' \<and> fired q' = [0, 2]"
proof -
  have "yields (\<lambda>_. True) (HandleRead (demo_env (\<lambda>_. [])) demo_queue)"
    by code_simp
  then obtain q' where q': "HandleRead (demo_env (\<lambda>_. [])) demo_queue = Inr q'" by (rule yieldsE)
  have "(\<lambda>q. fired q = [] \<and> map (\<lambda>e. sequence_at q (snd e))
      (filter (\<lambda>e. fst e \<le> TimerStamp (clock (demo_env (\<lambda>_. [])) (ticks q))) (timers q)) = [0, 2]) demo_queue"
    by code_simp
  then show ?thesis using HandleRead_fires[OF demo_queue_inv demo_allocator q'] q' by simp
qed

text \<open>C6: what \<open>HandleRead\<close> makes of a timer that was due: a repeating one is still there, with its
  date moved to the time read plus its interval; any other is freed.\<close>

theorem HandleRead_reschedules:
  assumes "queue_inv {} q" "allocator_ok env" "HandleRead env q = Inr q'"
    and "(w, p) \<in> set (timers q)" "w \<le> TimerStamp (clock env (ticks q))" "store q p = Some t"
  shows "if repeat_timer t
         then \<exists>e. AddTime (TimerStamp (clock env (ticks q))) (interval t) = Some e
           \<and> store q' p = Some (t\<lparr>expiration := e\<rparr>) \<and> (e, p) \<in> set (timers q')
         else store q' p = None"
proof -
  let ?now = "TimerStamp (clock env (ticks q))"
  have q': "queue_inv {} q'" "handled ?now q q'"
    using outcome_Inr[OF HandleRead_outcome[OF assms(1,2)] assms(3)] by (simp_all add: now_of_def)
  have "p \<in> snd ` set (due_at ?now q)" using assms(4,5) by (force simp: due_at_def)
  then have st: "store q' p = rescheduled ?now t" "repeat_timer t \<Longrightarrow> AddTime ?now (interval t) \<noteq> None"
    using q'(2) assms(6) unfolding handled_def by (metis bind.bind_lunit, blast)
  show ?thesis
  proof (cases "repeat_timer t")
    case True
    then obtain e where e: "AddTime ?now (interval t) = Some e" using st(2) by auto
    then have "store q' p = Some (t\<lparr>expiration := e\<rparr>)" using st(1) True by (simp add: rescheduled_def)
    moreover from this have "(e, p) \<in> set (timers q')"
      using owned_iff[OF q'(1), of p] queue_invD(4)[OF q'(1)] by auto
    ultimately show ?thesis using True e by simp
  qed (use st in \<open>simp add: rescheduled_def\<close>)
qed

theorem HandleRead_reschedules_witness:
  "\<exists>q'. HandleRead (demo_env (\<lambda>_. [])) demo_queue = Inr q'
     \<and> store q' 1 = None \<and> (TimerStamp 4000000, 3) \<in> set (timers q')"
proof -
  let ?e = "demo_env (\<lambda>_. [])"
  have "(\<lambda>q. ((TimerStamp 5, 1) \<in> set (timers q) \<and> TimerStamp 5 \<le> TimerStamp (clock ?e (ticks q))
       \<and> (case store q 1 of Some t \<Rightarrow> \<not> repeat_timer t | None \<Rightarrow> False))
     \<and> ((TimerStamp 3000000, 3) \<in> set (timers q) \<and> TimerStamp 3000000 \<le> TimerStamp (clock ?e (ticks q))
       \<and> (case store q 3 of Some t \<Rightarrow> repeat_timer t \<and> interval t = Fin 1 | None \<Rightarrow> False))
     \<and> AddTime (TimerStamp (clock ?e (ticks q))) (Fin 1) = Some (TimerStamp 4000000)) demo_queue"
    by code_simp
  then obtain t u where due: "(TimerStamp 5, 1) \<in> set (timers demo_queue)"
      "TimerStamp 5 \<le> TimerStamp (clock ?e (ticks demo_queue))" "store demo_queue 1 = Some t" "\<not> repeat_timer t"
      "(TimerStamp 3000000, 3) \<in> set (timers demo_queue)"
      "TimerStamp 3000000 \<le> TimerStamp (clock ?e (ticks demo_queue))" "store demo_queue 3 = Some u"
      "repeat_timer u" "interval u = Fin 1"
      "AddTime (TimerStamp (clock ?e (ticks demo_queue))) (Fin 1) = Some (TimerStamp 4000000)"
    by (auto split: option.splits)
  have "yields (\<lambda>_. True) (HandleRead ?e demo_queue)" by code_simp
  then obtain q' where q': "HandleRead ?e demo_queue = Inr q'" by (rule yieldsE)
  show ?thesis
    using HandleRead_reschedules[OF demo_queue_inv demo_allocator q' due(1-3)]
      HandleRead_reschedules[OF demo_queue_inv demo_allocator q' due(5-7)] due q' by auto
qed

text \<open>C9: a callback that stops its own timer, one-shot or repeating, makes \<open>HandleRead\<close> dereference
  the end iterator: the timer has left \<open>active_timers_\<close>, and the branch for this very case reads
  \<open>it->second\<close>.\<close>

theorem callback_stops_itself:
  assumes inv: "queue_inv {} q" and ok: "allocator_ok env"
    and first: "timers q = (w, p) # es" "w \<le> TimerStamp (clock env (ticks q))"
    and prog: "store q p = Some t" "program env (callback t) = Stop (sequence t) # as"
  shows "HandleRead env q = Inl EndDeref"
proof -
  let ?now = "now_of env q" and ?due = "due_at (now_of env q) q"
  obtain q3 where q3: "HandleRead env q = bindE (start_all env ?due q3)
      (\<lambda>q4. Reset env ?due ?now (q4\<lparr>calling_expired := Some False\<rparr>))"
    "queue_inv (snd ` set ?due) q3" "store q3 = store q" "calling_expired q3 = Some True"
    using HandleRead_start[OF inv, of env] by metis
  obtain es' where due: "?due = (w, p) # es'" using first by (simp add: due_at_def now_of_def)
  let ?q = "q3\<lparr>log := log q3 @ [Fired (sequence t)]\<rparr>"
  have inv': "queue_inv (snd ` set ?due) ?q" using q3(2) by simp
  have "map_of (active_timers ?q) (sequence t) = None"
  proof (rule ccontr)
    assume "map_of (active_timers ?q) (sequence t) \<noteq> None"
    then obtain r where "r \<in> owned ?q" "\<exists>u. store ?q r = Some u \<and> sequence u = sequence t"
      using queue_inv_lookup[OF inv'] by blast
    then have "p \<in> owned ?q" using queue_inv_sequence[OF inv'] q3(3) prog(1) by auto
    then show False using queue_invD(5)[OF inv'] due by auto
  qed
  then have "StopTimer (sequence t) ?q = Inl EndDeref"
    using StopTimer_inactive[OF inv'] q3(4) by simp
  then show ?thesis using q3(1,3) due prog by (simp add: Start_def deref_def)
qed

theorem callback_stops_itself_witness:
  "HandleRead (demo_env (\<lambda>cb. if cb = 2 then [Stop 2] else []))
     ((added 2 (TimerStamp 9) (Fin 1) 4 (new_queue\<lparr>num_created := 2\<rparr>))) = Inl EndDeref"
proof (rule callback_stops_itself)
  have "queue_inv {} (new_queue\<lparr>num_created := 2\<rparr>)"
    by (simp add: queue_inv_def new_queue_def owned_def)
  then show "queue_inv {} (added 2 (TimerStamp 9) (Fin 1) 4 (new_queue\<lparr>num_created := 2\<rparr>))"
    by (rule added_inv) (simp_all add: new_queue_def UINTPTR_MAX_def)
qed (auto simp: added_def attach_def new_queue_def Let_def less_eq_timer_stamp_def)

subsection \<open>The descriptor's delay, and the end\<close>

text \<open>C10: the delay given to \<open>timerfd_settime\<close> for the date \<open>e\<close> is always one that the kernel accepts
  and that arms the descriptor, and it is exactly the time that is left, or 100 microseconds when
  less is left.\<close>

theorem howMuchTimeFronNow_valid:
  assumes "in_i64 (micros e - micros now)"
  shows "\<exists>sec nsec. howMuchTimeFronNow e now = Some (sec, nsec)
    \<and> 0 \<le> sec \<and> 0 \<le> nsec \<and> nsec \<le> 999999999 \<and> (sec \<noteq> 0 \<or> nsec \<noteq> 0)
    \<and> sec * 1000000000 + nsec = 1000 * max 100 (micros e - micros now)"
proof -
  obtain sec nsec where eq: "howMuchTimeFronNow e now = Some (sec, nsec)"
    using assms by (simp add: howMuchTimeFronNow_def i64_def Let_def)
  from eq have "nsec mod 1000 = 0"
    by (auto simp: howMuchTimeFronNow_def bind_eq_Some_conv Let_def)
  then show ?thesis using eq howMuchTime_exact[OF eq] by auto
qed

theorem howMuchTimeFronNow_valid_witness:
  "\<exists>sec nsec. howMuchTimeFronNow (TimerStamp 3500000) (TimerStamp 1000000) = Some (sec, nsec)
    \<and> sec * 1000000000 + nsec = 2500000000"
  using howMuchTimeFronNow_valid[of "TimerStamp 3500000" "TimerStamp 1000000"] by (auto simp: in_i64_def)

text \<open>The destructor of the queue frees every timer object that is left, each exactly once.\<close>

theorem destroy_frees_all:
  assumes inv: "queue_inv {} q"
  shows "\<exists>q'. destroy_queue q = Inr q' \<and> store q' = Map.empty"
proof -
  have "\<exists>q'. delete_all es q = Inr q' \<and> store q' = (\<lambda>p. if p \<in> snd ` set es then None else store q p)"
    if "distinct (map snd es)" "snd ` set es \<subseteq> dom (store q)" for es q
    using that
  proof (induction es arbitrary: q)
    case (Cons e es)
    obtain w p where e: "e = (w, p)" by (cases e)
    let ?q = "q\<lparr>store := (store q)(p := None)\<rparr>"
    have "snd ` set es \<subseteq> dom (store ?q)" using Cons.prems e by (auto simp: subset_iff image_iff)
    from Cons.IH[OF _ this] Cons.prems(1) obtain q' where
      "delete_all es ?q = Inr q'" "store q' = (\<lambda>r. if r \<in> snd ` set es then None else store ?q r)"
      by auto
    moreover have "delete_timer p q = Inr ?q"
      using Cons.prems(2) e by (auto simp: delete_timer_def deref_def)
    ultimately show ?case using e by (auto simp: fun_eq_iff)
  qed simp
  moreover have "store q p = None" if "p \<notin> snd ` set (timers q)" for p
    using that queue_invD(4)[OF inv] unfolding owned_def by (metis Un_empty_right domIff)
  ultimately show ?thesis
    using distinct_addrs[OF inv] queue_invD(4)[OF inv] unfolding destroy_queue_def owned_def
    by (metis (no_types, lifting) Un_upper1 ext)
qed

theorem destroy_frees_all_witness:
  "\<exists>q'. destroy_queue demo_queue = Inr q' \<and> store q' = Map.empty"
  by (rule destroy_frees_all) (rule demo_queue_inv)

end
