(* ===== verification/Timer_Loop.thy ===== *)
theory Timer_Loop
  imports Timer_Channel Timer_Queue_Props
begin

section \<open>The timer manager and its loop\<close>

text \<open>
  \<^verbatim>\<open>src/timerfd/timer_loop_mgr.h\<close> and \<^verbatim>\<open>timer_loop_mgr.cpp\<close>. The manager owns two channels, one for its
  event descriptor and one, inside the timer queue, for the timer descriptor, and a thread that
  runs \<open>TimerLoop\<close>. The thread's position in the loop is part of the state; between two of its
  steps other threads may call the timer interface, \<open>QuitLoop\<close> or \<open>Destory\<close>, and time may pass in
  the kernel. Each call is one step: the code has no lock here, and calls that overlap with the
  handling of an event are outside the model. \<open>epoll_wait\<close> is level-triggered and returns the
  channels that are ready, in an order that the environment chooses; an empty list is the timeout.
  Nothing in the program writes to the event descriptor.
\<close>

definition wake_chan :: chan where "wake_chan = 0"
definition timer_chan :: chan where "timer_chan = 1"

datatype loop_pc =
    Created \<comment> \<open>before \<open>quit_ = false\<close>\<close>
  | Test \<comment> \<open>before \<open>while (!quit_)\<close>\<close>
  | Wait \<comment> \<open>in \<open>GetActiveChannel\<close>\<close>
  | Dispatch "chan list" \<comment> \<open>the active channels still to be handled\<close>
  | Ended

record mgr =
  reactor :: reactor
  tqueue :: queue
  wakeups :: nat \<comment> \<open>the counter of the event descriptor\<close>
  wake_errors :: nat
  quit :: bool
  pc :: loop_pc

datatype mgr_event = LoopStep "chan list" | QuitLoop | Call action | Pass int | Destory

text \<open>A call that fails to make a descriptor returns a negative number, which is never open.\<close>

definition TimerEventMgr :: "int \<Rightarrow> int \<Rightarrow> fault + mgr" where
  "TimerEventMgr wakeupFd timerfd =
     (let r0 = \<lparr>chans = [wake_chan \<mapsto> ChannelTimer wakeupFd, timer_chan \<mapsto> SetCallback ReadCallback (ChannelTimer timerfd)],
                interest = Map.empty, open_fds = filter (\<lambda>f. 0 \<le> f) [wakeupFd, timerfd], epoll_log = []\<rparr>
      in bindE (channel_step (EnableReading timer_chan) r0) (\<lambda>r1.
         bindE (get_chan r1 wake_chan) (\<lambda>ch.
         bindE (channel_step (EnableReading wake_chan) (set_chan wake_chan (SetCallback ReadCallback ch) r1)) (\<lambda>r2.
           Inr \<lparr>reactor = r2, tqueue = new_queue, wakeups = 0, wake_errors = 0, quit = False, pc = Created\<rparr>))))"

text \<open>\<open>TimerEventMgr::HandleRead\<close>, and the callbacks of the two channels.\<close>

definition wake_HandleRead :: "mgr \<Rightarrow> mgr" where
  "wake_HandleRead s = (if wakeups s = 0 then s\<lparr>wake_errors := Suc (wake_errors s)\<rparr> else s\<lparr>wakeups := 0\<rparr>)"

definition run_callback :: "env \<Rightarrow> chan \<Rightarrow> handler \<Rightarrow> mgr \<Rightarrow> fault + mgr" where
  "run_callback env p h s =
     (if h \<noteq> ReadCallback then Inr s
      else if p = timer_chan then bindE (HandleRead env (tqueue s)) (\<lambda>q. Inr (s\<lparr>tqueue := q\<rparr>))
      else Inr (wake_HandleRead s))"

definition HandleEvent :: "env \<Rightarrow> chan \<Rightarrow> mgr \<Rightarrow> fault + mgr" where
  "HandleEvent env p s =
     bindE (get_chan (reactor s) p) (\<lambda>ch. steps (run_callback env p) (HandleEventWithGuard ch) s)"

text \<open>The channels that \<open>epoll_wait\<close> reports.\<close>

definition readable :: "mgr \<Rightarrow> chan \<Rightarrow> bool" where
  "readable s p = (if p = timer_chan then 0 < tfd_count (tqueue s) else 0 < wakeups s)"

definition listening :: "reactor \<Rightarrow> chan \<Rightarrow> bool" where
  "listening r p =
     (case chans r p of
        None \<Rightarrow> False
      | Some c \<Rightarrow> (case interest r (fd c) of None \<Rightarrow> False | Some (e, q) \<Rightarrow> q = p \<and> e AND EPOLLIN \<noteq> 0))"

definition ready :: "mgr \<Rightarrow> chan list" where
  "ready s = filter (\<lambda>p. listening (reactor s) p \<and> readable s p) [wake_chan, timer_chan]"

definition GetActiveChannel :: "chan list \<Rightarrow> mgr \<Rightarrow> fault + chan list \<times> mgr" where
  "GetActiveChannel ps s =
     bindE (EpollWaitActive (map (\<lambda>p. (EPOLLIN, p)) ps) (reactor s)) (\<lambda>(active, r). Inr (active, s\<lparr>reactor := r\<rparr>))"

definition TimerLoop :: "env \<Rightarrow> chan list \<Rightarrow> mgr \<Rightarrow> fault + mgr" where
  "TimerLoop env ps s =
     (case pc s of
        Created \<Rightarrow> Inr (s\<lparr>quit := False, pc := Test\<rparr>)
      | Test \<Rightarrow> Inr (s\<lparr>pc := if quit s then Ended else Wait\<rparr>)
      | Wait \<Rightarrow>
          if distinct ps \<and> set ps = set (ready s)
          then bindE (GetActiveChannel ps s) (\<lambda>(active, s1). Inr (s1\<lparr>pc := Dispatch active\<rparr>))
          else Inr s
      | Dispatch active \<Rightarrow>
          (case active of
             [] \<Rightarrow> Inr (s\<lparr>pc := Test\<rparr>)
           | p # qs \<Rightarrow> bindE (HandleEvent env p s) (\<lambda>s1. Inr (s1\<lparr>pc := Dispatch qs\<rparr>)))
      | Ended \<Rightarrow> Inr s)"

definition mgr_Destory :: "mgr \<Rightarrow> fault + mgr" where
  "mgr_Destory s =
     bindE (get_chan (reactor s) wake_chan) (\<lambda>ch.
     bindE (steps channel_step [DisableAll wake_chan, Remove wake_chan] (reactor s)) (\<lambda>r.
       Inr (s\<lparr>reactor := r\<lparr>open_fds := filter (\<lambda>f. f \<noteq> fd ch) (open_fds r), interest := (interest r)(fd ch := None)\<rparr>\<rparr>)))"

fun mgr_step :: "env \<Rightarrow> mgr_event \<Rightarrow> mgr \<Rightarrow> fault + mgr" where
  "mgr_step env (LoopStep ps) s = TimerLoop env ps s"
| "mgr_step env QuitLoop s = Inr (s\<lparr>quit := True\<rparr>)"
| "mgr_step env (Call a) s = bindE (run_action env a (tqueue s)) (\<lambda>q. Inr (s\<lparr>tqueue := q\<rparr>))"
| "mgr_step env (Pass t) s = Inr (s\<lparr>tqueue := timerfd_expire t (tqueue s)\<rparr>)"
| "mgr_step env Destory s = mgr_Destory s"

subsection \<open>The timer channel stays connected\<close>

definition wired :: "int \<Rightarrow> reactor \<Rightarrow> bool" where
  "wired wakeupFd r \<longleftrightarrow> (\<exists>c w. chans r timer_chan = Some c \<and> chans r wake_chan = Some w \<and> fd w = wakeupFd \<and> wakeupFd \<noteq> fd c
     \<and> callbacks c = [ReadCallback] \<and> interest r (fd c) = Some (EPOLLIN OR EPOLLPRI, timer_chan))"

lemma two_chans [simp]: "timer_chan \<noteq> wake_chan" "wake_chan \<noteq> timer_chan"
  by (simp_all add: timer_chan_def wake_chan_def)

lemma logged_ctl_frame [simp]: "chans (logged_ctl op f ev r) = chans r"
  "g \<noteq> f \<Longrightarrow> interest (logged_ctl op f ev r) g = interest r g"
  by (auto simp: logged_ctl_def epoll_ctl_def split: option.splits ctl.splits)

lemma wired_wake:
  assumes "wired g r" "chans r wake_chan = Some w0" "fd w = fd w0"
    and "chans r' = (chans r)(wake_chan \<mapsto> w)" "\<And>f. f \<noteq> fd w0 \<Longrightarrow> interest r' f = interest r f"
  shows "wired g r'"
  using assms by (auto simp: wired_def)

lemma DelChannel_wired:
  assumes "wired g r"
  shows "\<exists>r'. DelChannel wake_chan r = Inr r' \<and> wired g r'"
proof -
  obtain w where w: "chans r wake_chan = Some w" using assms by (auto simp: wired_def)
  have "wired g (set_chan wake_chan (SetInEpoll False w) (logged_ctl CtlDel (fd w) (0, wake_chan) r))"
    by (rule wired_wake[OF assms w, of "SetInEpoll False w"]) (simp_all add: SetInEpoll_def set_chan_def)
  then show ?thesis using assms w by (cases "isInEpoll w") (simp_all add: DelChannel_def get_chan_def)
qed

lemma change_events_wired:
  assumes "wired g r"
  shows "\<exists>r'. change_events f wake_chan r = Inr r' \<and> wired g r'"
proof -
  obtain w where w: "chans r wake_chan = Some w" using assms by (auto simp: wired_def)
  let ?w = "w\<lparr>events := f (events w)\<rparr>"
  let ?r = "set_chan wake_chan ?w r"
  have r: "wired g ?r" "chans ?r wake_chan = Some ?w"
    by (rule wired_wake[OF assms w, of ?w]) (simp_all add: set_chan_def)
  have "wired g (logged_ctl CtlMod (fd w) (events ?w, wake_chan) ?r)"
    by (rule wired_wake[OF r, of ?w]) (simp_all add: set_chan_def)
  moreover have "wired g (set_chan wake_chan (SetInEpoll True ?w) (logged_ctl CtlAdd (fd w) (events ?w, wake_chan) ?r))"
    by (rule wired_wake[OF r, of "SetInEpoll True ?w"]) (simp_all add: set_chan_def SetInEpoll_def)
  ultimately show ?thesis
    using DelChannel_wired[OF r(1)] w r(2) by (simp add: change_events_def UpdateChannel_def get_chan_def)
qed

lemma mgr_Destory_wired:
  assumes "wired g (reactor s)"
  shows "\<exists>r. mgr_Destory s = Inr (s\<lparr>reactor := r\<rparr>) \<and> wired g r"
proof -
  obtain w where w: "chans (reactor s) wake_chan = Some w" using assms by (auto simp: wired_def)
  obtain r1 where r1: "channel_step (DisableAll wake_chan) (reactor s) = Inr r1" "wired g r1"
    using change_events_wired[OF assms] by auto
  obtain r2 where r2: "channel_step (Remove wake_chan) r1 = Inr r2" "wired g r2" using DelChannel_wired[OF r1(2)] by auto
  let ?r = "r2\<lparr>open_fds := filter (\<lambda>f. f \<noteq> fd w) (open_fds r2), interest := (interest r2)(fd w := None)\<rparr>"
  have "mgr_Destory s = Inr (s\<lparr>reactor := ?r\<rparr>)"
    using w r1(1) r2(1) by (simp add: mgr_Destory_def get_chan_def)
  moreover have "wired g ?r"
  proof -
    have "fd w = g" using assms w by (auto simp: wired_def)
    moreover obtain c w2 where "chans r2 timer_chan = Some c" "chans r2 wake_chan = Some w2" "fd w2 = g" "g \<noteq> fd c"
      "callbacks c = [ReadCallback]" "interest r2 (fd c) = Some (EPOLLIN OR EPOLLPRI, timer_chan)"
      using r2(2) by (auto simp: wired_def)
    ultimately show ?thesis unfolding wired_def by (intro exI[of _ c] exI[of _ w2]) simp
  qed
  ultimately show ?thesis by blast
qed

lemma EpollWaitActive_wired:
  assumes "wired g r" "set ps \<subseteq> {wake_chan, timer_chan}"
  shows "\<exists>r'. EpollWaitActive (map (\<lambda>p. (EPOLLIN, p)) ps) r = Inr (ps, r') \<and> wired g r'
    \<and> (\<forall>p. map_option revents (chans r' p) = (if p \<in> set ps then Some EPOLLIN else map_option revents (chans r p)))"
  using assms
proof (induction ps arbitrary: r)
  case (Cons p ps)
  then obtain c where c: "chans r p = Some c" by (auto simp: wired_def)
  let ?r = "set_chan p (SetRevents EPOLLIN c) r"
  have "wired g ?r"
    using Cons.prems c by (auto simp: wired_def set_chan_def SetRevents_def)
  with Cons.IH[of ?r] Cons.prems(2) obtain r' where
    "EpollWaitActive (map (\<lambda>p. (EPOLLIN, p)) ps) ?r = Inr (ps, r')" "wired g r'"
    "\<forall>q. map_option revents (chans r' q) = (if q \<in> set ps then Some EPOLLIN else map_option revents (chans ?r q))" by auto
  then show ?case using c by (auto simp: get_chan_def set_chan_def SetRevents_def)
qed simp

subsection \<open>Everything the queue sees comes from its own interface\<close>

text \<open>The runs of the manager drive the queue through its operations and nothing else.\<close>

definition drives :: "env \<Rightarrow> mgr \<Rightarrow> mgr \<Rightarrow> bool" where
  "drives env s s' \<longleftrightarrow> (\<exists>ops. steps (queue_step env) ops (tqueue s) = Inr (tqueue s'))"

lemma drives_same: "tqueue s' = tqueue s \<Longrightarrow> drives env s s'"
  by (auto simp: drives_def intro!: exI[of _ "[]"])

lemma drives_one: "queue_step env op (tqueue s) = Inr (tqueue s') \<Longrightarrow> drives env s s'"
  unfolding drives_def by (rule exI[of _ "[op]"]) simp

lemma drives_trans:
  assumes "drives env s s1" "drives env s1 s2"
  shows "drives env s s2"
proof -
  obtain a b where "steps (queue_step env) a (tqueue s) = Inr (tqueue s1)" "steps (queue_step env) b (tqueue s1) = Inr (tqueue s2)"
    using assms by (auto simp: drives_def)
  then show ?thesis unfolding drives_def by (intro exI[of _ "a @ b"]) (simp add: steps_append)
qed

definition loop_inv :: "env \<Rightarrow> int \<Rightarrow> mgr \<Rightarrow> bool" where
  "loop_inv env g s \<longleftrightarrow> allocator_ok env \<and> queue_inv {} (tqueue s) \<and> wired g (reactor s)
     \<and> (case pc s of Dispatch ps \<Rightarrow> set ps \<subseteq> {wake_chan, timer_chan} | _ \<Rightarrow> True)"

lemma queue_op_outcome:
  assumes "loop_inv env g s"
  shows "outcome outside_fault (\<lambda>s'. loop_inv env g s' \<and> drives env s s')
    (bindE (queue_step env op (tqueue s)) (\<lambda>q. Inr (s\<lparr>tqueue := q\<rparr>)))"
proof -
  have q: "queue_inv {} (tqueue s)" "allocator_ok env" using assms by (simp_all add: loop_inv_def)
  show ?thesis
  proof (cases "queue_step env op (tqueue s)")
    case (Inl e)
    then show ?thesis using queue_step_outcome[OF q, of op] by simp
  next
    case (Inr q')
    then show ?thesis
      using queue_step_outcome[OF q, of op] assms drives_one[of env op s "s\<lparr>tqueue := q'\<rparr>"] by (simp add: loop_inv_def)
  qed
qed

lemma run_callback_outcome:
  assumes "loop_inv env g s"
  shows "outcome outside_fault (\<lambda>s'. loop_inv env g s' \<and> drives env s s') (run_callback env p h s)"
  using assms queue_op_outcome[OF assms, of Readable]
  by (simp add: run_callback_def drives_same wake_HandleRead_def loop_inv_def)

interpretation handlers: safe_ops "run_callback env p" "loop_inv env g" "drives env" outside_fault
  for env p g
  by unfold_locales (auto simp: drives_same run_callback_outcome intro: drives_trans)

lemma HandleEvent_outcome:
  assumes "loop_inv env g s" "p \<in> {wake_chan, timer_chan}"
  shows "outcome outside_fault (\<lambda>s'. loop_inv env g s' \<and> drives env s s') (HandleEvent env p s)"
proof -
  obtain c where "chans (reactor s) p = Some c" using assms by (auto simp: loop_inv_def wired_def)
  then show ?thesis using handlers.steps_safe[OF assms(1)] by (simp add: HandleEvent_def get_chan_def)
qed

lemma ready_subset: "set (ready s) \<subseteq> {wake_chan, timer_chan}"
  by (auto simp: ready_def)

lemma GetActiveChannel_wired:
  assumes "loop_inv env g s" "set ps = set (ready s)"
  shows "\<exists>r. GetActiveChannel ps s = Inr (ps, s\<lparr>reactor := r\<rparr>) \<and> wired g r
    \<and> (\<forall>p. map_option revents (chans r p) = (if p \<in> set ps then Some EPOLLIN else map_option revents (chans (reactor s) p)))"
proof -
  have "wired g (reactor s)" "set ps \<subseteq> {wake_chan, timer_chan}"
    using assms ready_subset[of s] by (simp_all add: loop_inv_def)
  from EpollWaitActive_wired[OF this] obtain r where
    "EpollWaitActive (map (\<lambda>p. (EPOLLIN, p)) ps) (reactor s) = Inr (ps, r)" "wired g r"
    "\<forall>p. map_option revents (chans r p) = (if p \<in> set ps then Some EPOLLIN else map_option revents (chans (reactor s) p))"
    by blast
  then show ?thesis by (intro exI[of _ r]) (simp add: GetActiveChannel_def)
qed

lemma TimerLoop_outcome:
  assumes inv: "loop_inv env g s"
  shows "outcome outside_fault (\<lambda>s'. loop_inv env g s' \<and> drives env s s') (TimerLoop env ps s)"
proof (cases "pc s")
  case Wait
  show ?thesis
  proof (cases "distinct ps \<and> set ps = set (ready s)")
    case True
    then obtain r where "GetActiveChannel ps s = Inr (ps, s\<lparr>reactor := r\<rparr>)" "wired g r"
      using GetActiveChannel_wired[OF inv] by blast
    then show ?thesis using Wait True inv ready_subset[of s] by (auto simp: TimerLoop_def loop_inv_def drives_same)
  qed (use Wait inv in \<open>auto simp: TimerLoop_def drives_same\<close>)
next
  case (Dispatch active)
  show ?thesis
  proof (cases active)
    case (Cons p qs)
    then have sub: "p \<in> {wake_chan, timer_chan}" "set qs \<subseteq> {wake_chan, timer_chan}"
      using inv Dispatch by (auto simp: loop_inv_def)
    have "outcome outside_fault (\<lambda>s'. loop_inv env g s' \<and> drives env s s')
        (bindE (HandleEvent env p s) (\<lambda>s1. Inr (s1\<lparr>pc := Dispatch qs\<rparr>)))"
      by (rule outcome_bindE[OF HandleEvent_outcome[OF inv sub(1)]])
        (use sub(2) in \<open>auto simp: loop_inv_def drives_def\<close>)
    then show ?thesis using Dispatch Cons by (simp add: TimerLoop_def)
  qed (use Dispatch inv in \<open>auto simp: TimerLoop_def loop_inv_def drives_same\<close>)
qed (use inv in \<open>auto simp: TimerLoop_def loop_inv_def drives_same\<close>)

interpretation manager: safe_ops "mgr_step env" "loop_inv env g" "drives env" outside_fault
  for env g
proof
  fix s e assume inv: "loop_inv env g s"
  show "outcome outside_fault (\<lambda>s'. loop_inv env g s' \<and> drives env s s') (mgr_step env e s)"
  proof (cases e)
    case Destory
    have "wired g (reactor s)" using inv by (simp add: loop_inv_def)
    then obtain r where "mgr_Destory s = Inr (s\<lparr>reactor := r\<rparr>)" "wired g r" using mgr_Destory_wired by blast
    then show ?thesis using Destory inv by (simp add: loop_inv_def drives_same)
  next
    case (Call a)
    then show ?thesis using queue_op_outcome[OF inv, of "Client a"] by simp
  next
    case (Pass t)
    then show ?thesis using queue_op_outcome[OF inv, of "Elapse t"] by simp
  qed (use TimerLoop_outcome[OF inv] inv in \<open>auto simp: loop_inv_def drives_same\<close>)
qed (auto simp: drives_same intro: drives_trans)

subsection \<open>The loop as a whole\<close>

lemma new_mgr:
  assumes "wakeupFd \<noteq> timerfd" "0 \<le> timerfd"
  obtains m where "TimerEventMgr wakeupFd timerfd = Inr m" "tqueue m = new_queue" "wired wakeupFd (reactor m)" "pc m = Created"
proof -
  have "\<exists>m. TimerEventMgr wakeupFd timerfd = Inr m \<and> tqueue m = new_queue \<and> wired wakeupFd (reactor m) \<and> pc m = Created"
    using assms
    by (simp add: TimerEventMgr_def change_events_def UpdateChannel_def get_chan_def set_chan_def logged_ctl_def
        epoll_ctl_def ChannelTimer_def SetCallback_def SetInEpoll_def wired_def Let_def wake_chan_def timer_chan_def)
  then show thesis using that by blast
qed

lemma new_mgr_inv:
  assumes "allocator_ok env" "wakeupFd \<noteq> timerfd" "0 \<le> timerfd" "TimerEventMgr wakeupFd timerfd = Inr m"
  shows "loop_inv env wakeupFd m" "tqueue m = new_queue"
proof -
  obtain m' where m': "TimerEventMgr wakeupFd timerfd = Inr m'" "tqueue m' = new_queue" "wired wakeupFd (reactor m')" "pc m' = Created"
    by (rule new_mgr[OF assms(2,3)])
  then have "m' = m" using assms(4) by simp
  then show "loop_inv env wakeupFd m" "tqueue m = new_queue"
    using m'(2-4) assms(1) new_queue_inv by (simp_all add: loop_inv_def)
qed

text \<open>C3: whatever the loop, its clients and the kernel do, the timer queue inside the manager is driven
  through its own operations only, so what holds of every run of the queue holds in the manager;
  the timer channel stays registered, and the only faults are those from outside.\<close>

theorem manager_refines_queue:
  assumes "allocator_ok env" "wakeupFd \<noteq> timerfd" "0 \<le> timerfd" "TimerEventMgr wakeupFd timerfd = Inr m"
  shows "outcome outside_fault (\<lambda>s. wired wakeupFd (reactor s) \<and> (\<exists>ops. steps (queue_step env) ops new_queue = Inr (tqueue s)))
    (steps (mgr_step env) es m)"
  by (rule outcome_mono[OF manager.steps_safe[OF new_mgr_inv(1)[OF assms], of es]])
    (simp add: loop_inv_def drives_def new_mgr_inv(2)[OF assms])

theorem manager_refines_queue_witness:
  "\<exists>m. TimerEventMgr 4 5 = Inr m \<and>
    outcome outside_fault (\<lambda>s. wired 4 (reactor s) \<and> (\<exists>ops. steps (queue_step (demo_env (\<lambda>_. []))) ops new_queue = Inr (tqueue s)))
      (steps (mgr_step (demo_env (\<lambda>_. []))) [LoopStep [], Call (AddAt (TimerStamp 5) 0), LoopStep [], Destory] m)"
proof -
  have ne: "(4 :: int) \<noteq> 5" "(0 :: int) \<le> 5" by simp_all
  obtain m where m: "TimerEventMgr 4 5 = Inr m" by (rule new_mgr[of 4 5]) simp_all
  from manager_refines_queue[OF demo_allocator ne m] m show ?thesis by blast
qed

lemma run_callback_reactor: "run_callback env p h s = Inr s' \<Longrightarrow> reactor s' = reactor s"
  by (auto simp: run_callback_def wake_HandleRead_def bindE_Inr_iff split: if_splits)

lemma run_callbacks_reactor: "steps (run_callback env p) hs s = Inr s' \<Longrightarrow> reactor s' = reactor s"
proof (induction hs arbitrary: s)
  case (Cons h hs)
  then obtain s1 where "run_callback env p h s = Inr s1" "steps (run_callback env p) hs s1 = Inr s'"
    by (auto simp: bindE_Inr_iff)
  then show ?case using Cons.IH run_callback_reactor by metis
qed simp

lemma run_callback_wake: "run_callback env wake_chan h s = Inr s' \<Longrightarrow> tqueue s' = tqueue s"
  by (auto simp: run_callback_def wake_HandleRead_def split: if_splits)

lemma run_callbacks_wake: "steps (run_callback env wake_chan) hs s = Inr s' \<Longrightarrow> tqueue s' = tqueue s"
proof (induction hs arbitrary: s)
  case (Cons h hs)
  then obtain s1 where "run_callback env wake_chan h s = Inr s1" "steps (run_callback env wake_chan) hs s1 = Inr s'"
    by (auto simp: bindE_Inr_iff)
  then show ?case using Cons.IH run_callback_wake by metis
qed simp

lemma HandleEvent_timer:
  assumes "chans (reactor s) timer_chan = Some c" "callbacks c = [ReadCallback]" "revents c = EPOLLIN"
  shows "HandleEvent env timer_chan s = bindE (HandleRead env (tqueue s)) (\<lambda>q. Inr (s\<lparr>tqueue := q\<rparr>))"
proof -
  have "HandleEventWithGuard c = [ReadCallback]"
    using assms(2,3) by (simp add: HandleEventWithGuard_def Let_def epoll_bits)
  then show ?thesis
    using assms(1) by (cases "HandleRead env (tqueue s)") (simp_all add: HandleEvent_def get_chan_def run_callback_def)
qed

lemma HandleEvent_frame:
  assumes "HandleEvent env p s = Inr s'"
  shows "reactor s' = reactor s" "p = wake_chan \<Longrightarrow> tqueue s' = tqueue s"
  using assms run_callbacks_reactor[of env p _ s s'] run_callbacks_wake[of env _ s s']
  by (auto simp: HandleEvent_def bindE_Inr_iff)

lemma dispatch_all:
  assumes "pc s = Dispatch ps" "distinct ps" "set ps \<subseteq> {wake_chan, timer_chan}" "wired g (reactor s)"
    and "timer_chan \<in> set ps \<Longrightarrow> map_option revents (chans (reactor s) timer_chan) = Some EPOLLIN"
    and "steps (mgr_step env) (map (\<lambda>_. LoopStep []) ps) s = Inr s'"
  shows "if timer_chan \<in> set ps then HandleRead env (tqueue s) = Inr (tqueue s') else tqueue s' = tqueue s"
  using assms
proof (induction ps arbitrary: s)
  case (Cons p ps)
  then obtain s1 where s1: "HandleEvent env p s = Inr s1"
    "steps (mgr_step env) (map (\<lambda>_. LoopStep []) ps) (s1\<lparr>pc := Dispatch ps\<rparr>) = Inr s'"
    by (auto simp: TimerLoop_def bindE_Inr_iff)
  note fr = HandleEvent_frame[OF s1(1)]
  have IH: "if timer_chan \<in> set ps then HandleRead env (tqueue s1) = Inr (tqueue s') else tqueue s' = tqueue s1"
  proof -
    let ?s1 = "s1\<lparr>pc := Dispatch ps\<rparr>"
    have "pc ?s1 = Dispatch ps" "distinct ps" "set ps \<subseteq> {wake_chan, timer_chan}" "wired g (reactor ?s1)"
      using Cons.prems(2-4) by (simp_all add: fr(1))
    moreover have "map_option revents (chans (reactor ?s1) timer_chan) = Some EPOLLIN" if "timer_chan \<in> set ps"
      using Cons.prems(5) that by (simp add: fr(1))
    ultimately show ?thesis using Cons.IH[OF _ _ _ _ _ s1(2)] by (cases "timer_chan \<in> set ps") simp_all
  qed
  show ?case
  proof (cases "p = timer_chan")
    case True
    obtain c where "chans (reactor s) timer_chan = Some c" "callbacks c = [ReadCallback]" "revents c = EPOLLIN"
      using Cons.prems(4,5) True by (auto simp: wired_def)
    from HandleEvent_timer[OF this] have "HandleRead env (tqueue s) = Inr (tqueue s1)"
      using s1(1) True by (auto simp: bindE_Inr_iff)
    then show ?thesis using IH True Cons.prems(2) by simp
  next
    case False
    then have "p = wake_chan" using Cons.prems(3) by simp
    then show ?thesis using IH fr(2) False by (cases "timer_chan \<in> set ps") simp_all
  qed
qed simp

text \<open>C4: when the loop waits and the timer descriptor has expired, the wait returns with the timer channel
  among the active ones, in whatever order, and handling them runs the callbacks of exactly the timers that are
  due, in the order of their dates.\<close>

theorem loop_fires_due:
  assumes start: "allocator_ok env" "wakeupFd \<noteq> timerfd" "0 \<le> timerfd" "TimerEventMgr wakeupFd timerfd = Inr m"
    and run: "steps (mgr_step env) es m = Inr s" "pc s = Wait" "0 < tfd_count (tqueue s)"
    and pass: "distinct ps" "set ps = set (ready s)"
      "steps (mgr_step env) (LoopStep ps # map (\<lambda>_. LoopStep []) ps) s = Inr s'"
  shows "timer_chan \<in> set ps \<and> fired (tqueue s') = fired (tqueue s) @ map (\<lambda>e. sequence_at (tqueue s) (snd e))
      (filter (\<lambda>e. fst e \<le> TimerStamp (clock env (ticks (tqueue s)))) (timers (tqueue s)))"
proof -
  have inv: "loop_inv env wakeupFd s" by (rule manager.steps_inv[OF new_mgr_inv(1)[OF start] run(1)])
  then have wired: "wired wakeupFd (reactor s)" and q: "queue_inv {} (tqueue s)" by (simp_all add: loop_inv_def)
  have timer: "timer_chan \<in> set ps"
    using wired run(3) unfolding pass(2) by (auto simp: ready_def listening_def readable_def wired_def epoll_bits)
  obtain r where r: "GetActiveChannel ps s = Inr (ps, s\<lparr>reactor := r\<rparr>)" "wired wakeupFd r"
    "\<forall>p. map_option revents (chans r p) = (if p \<in> set ps then Some EPOLLIN else map_option revents (chans (reactor s) p))"
    using GetActiveChannel_wired[OF inv pass(2)] by blast
  then have ev: "map_option revents (chans r timer_chan) = Some EPOLLIN" using timer by simp
  let ?s1 = "s\<lparr>reactor := r, pc := Dispatch ps\<rparr>"
  have "steps (mgr_step env) (map (\<lambda>_. LoopStep []) ps) ?s1 = Inr s'"
    using pass run(2) r(1) by (simp add: TimerLoop_def)
  then have "HandleRead env (tqueue s) = Inr (tqueue s')"
    using dispatch_all[of ?s1 ps wakeupFd env s'] timer pass(1) r(2) ev ready_subset[of s] unfolding pass(2) by simp
  from outcome_Inr[OF HandleRead_outcome[OF q start(1)] this] timer show ?thesis
    by (simp add: handled_def due_at_def now_of_def)
qed

definition demo_mgr_run :: "mgr_event list" where
  "demo_mgr_run = [Call (AddAt (TimerStamp 5) 0), LoopStep [], LoopStep [], Pass 4000000]"

theorem loop_fires_due_witness:
  "\<exists>m s s'. TimerEventMgr 4 5 = Inr m \<and> steps (mgr_step (demo_env (\<lambda>_. []))) demo_mgr_run m = Inr s
     \<and> steps (mgr_step (demo_env (\<lambda>_. []))) [LoopStep [1], LoopStep []] s = Inr s' \<and> fired (tqueue s') = [0]"
proof -
  let ?e = "demo_env (\<lambda>_. [])"
  obtain m where m: "TimerEventMgr 4 5 = Inr m" by (rule new_mgr[of 4 5]) simp_all
  have ne: "(4 :: int) \<noteq> 5" "(0 :: int) \<le> 5" by simp_all
  let ?P = "\<lambda>s. pc s = Wait \<and> 0 < tfd_count (tqueue s) \<and> set [1] = set (ready s) \<and> fired (tqueue s) = []
    \<and> map (\<lambda>e. sequence_at (tqueue s) (snd e)) (filter (\<lambda>e. fst e \<le> TimerStamp (clock ?e (ticks (tqueue s)))) (timers (tqueue s))) = [0]
    \<and> yields (\<lambda>_. True) (steps (mgr_step ?e) [LoopStep [1], LoopStep []] s)"
  have "yields (\<lambda>m. yields ?P (steps (mgr_step ?e) demo_mgr_run m)) (TimerEventMgr 4 5)" by code_simp
  then have "yields ?P (steps (mgr_step ?e) demo_mgr_run m)" unfolding m by simp
  then obtain s where s: "steps (mgr_step ?e) demo_mgr_run m = Inr s" "?P s" by (rule yieldsE)
  then obtain s' where s': "steps (mgr_step ?e) [LoopStep [1], LoopStep []] s = Inr s'" by (auto elim: yieldsE)
  have "fired (tqueue s') = [0]"
    using loop_fires_due[OF demo_allocator ne m s(1), of "[1]" s'] s(2) s' by simp
  then show ?thesis using m s(1) s' by blast
qed

text \<open>
  \<open>TimerLoop\<close> clears \<open>quit_\<close> when its thread starts, so a \<open>QuitLoop\<close> that comes before that is lost and
  the loop waits.
\<close>

theorem quit_can_be_lost:
  "\<exists>m s. TimerEventMgr 4 5 = Inr m \<and> steps (mgr_step env) [QuitLoop, LoopStep [], LoopStep []] m = Inr s \<and> pc s = Wait \<and> \<not> quit s"
proof -
  obtain m where "TimerEventMgr 4 5 = Inr m" "pc m = Created" by (rule new_mgr[of 4 5]) simp_all
  then show ?thesis by (simp add: TimerLoop_def)
qed

end
