(* ===== verification/Timer_Format.thy ===== *)
theory Timer_Format
  imports Timer_Stamp
begin

section \<open>Calendar dates\<close>

text \<open>
  \<open>ToFormattedString\<close> of \<^verbatim>\<open>src/timerfd/timer_stamp.cpp\<close>, with the C library's \<open>gmtime_r\<close>: the fields of a
  UTC date in the Gregorian calendar. \<open>gmtime\<close> finds the year by a guess from the mean length of a year
  that is off by at most one; \<open>timegm\<close> is the formula by which POSIX relates a date to seconds since
  the epoch, and the inverse of \<open>gmtime\<close>. A year fits in an \<open>int\<close> for every 64-bit count of
  microseconds, so that \<open>gmtime_r\<close> does not fail.
\<close>

record tm =
  tm_sec :: int
  tm_min :: int
  tm_hour :: int
  tm_mday :: int
  tm_mon :: int \<comment> \<open>0 to 11\<close>
  tm_year :: int \<comment> \<open>years since 1900\<close>

definition leap :: "int \<Rightarrow> bool" where
  "leap y \<longleftrightarrow> y mod 4 = 0 \<and> (y mod 100 \<noteq> 0 \<or> y mod 400 = 0)"

definition month_lengths :: "int \<Rightarrow> int list" where
  "month_lengths y = [31, if leap y then 29 else 28, 31, 30, 31, 30, 31, 31, 30, 31, 30, 31]"

text \<open>Days from the first of January 1970 to the first of January of a year.\<close>

definition days_before :: "int \<Rightarrow> int" where
  "days_before y = 365 * (y - 1970) + (y - 1969) div 4 - (y - 1901) div 100 + (y - 1601) div 400"

definition year_of :: "int \<Rightarrow> int" where
  "year_of d =
     (let g = 1970 + (400 * d) div 146097
      in if days_before (g + 1) \<le> d then g + 1 else if d < days_before g then g - 1 else g)"

fun month_day :: "int list \<Rightarrow> int \<Rightarrow> int \<Rightarrow> int \<times> int" where
  "month_day [] m d = (m, d)"
| "month_day (l # ls) m d = (if d < l then (m, d) else month_day ls (m + 1) (d - l))"

definition gmtime :: "int \<Rightarrow> tm" where
  "gmtime t =
     (let d = t div 86400; s = t mod 86400; y = year_of d; (m, k) = month_day (month_lengths y) 0 (d - days_before y)
      in \<lparr>tm_sec = s mod 60, tm_min = s div 60 mod 60, tm_hour = s div 3600,
          tm_mday = k + 1, tm_mon = m, tm_year = y - 1900\<rparr>)"

text \<open>\<open>%4d\<close> pads with spaces.\<close>

definition print_width :: "nat \<Rightarrow> int \<Rightarrow> string" where
  "print_width w x = replicate (w - length (print_i64 x)) (CHR '' '') @ print_i64 x"

definition ToFormattedString :: "bool \<Rightarrow> timer_stamp \<Rightarrow> string" where
  "ToFormattedString showMicroseconds t =
     (let seconds = micros t sdiv kMicroSecondsPerSecond;
          tm_time = gmtime seconds;
          date = print_width 4 (tm_year tm_time + 1900) @ print_padded 2 (tm_mon tm_time + 1) @
                 print_padded 2 (tm_mday tm_time) @ '' '' @ print_padded 2 (tm_hour tm_time) @ '':'' @
                 print_padded 2 (tm_min tm_time) @ '':'' @ print_padded 2 (tm_sec tm_time)
      in if showMicroseconds
         then snprintf 64 (date @ ''.'' @ print_padded 6 (micros t smod kMicroSecondsPerSecond))
         else snprintf 64 date)"

subsection \<open>The year and the day in it\<close>

lemma div_bounds: "0 < (c :: int) \<Longrightarrow> c * (a div c) \<le> a \<and> a < c * (a div c) + c"
  using mult_div_mod_eq[of c a] pos_mod_bound[of c a] pos_mod_sign[of c a] by linarith

lemma days_before_mean: "\<bar>400 * days_before y - 146097 * (y - 1970)\<bar> \<le> 600"
  using div_bounds[of 4 "y - 1969"] div_bounds[of 100 "y - 1901"] div_bounds[of 400 "y - 1601"]
  by (simp add: days_before_def)

text \<open>A year counted from the mean length of a year is off by at most one.\<close>

lemma guess_year:
  fixes f :: "int \<Rightarrow> int"
  assumes f: "\<And>y. \<bar>400 * f y - 146097 * (y - 1970)\<bar> \<le> 600"
    and g: "146097 * (g - 1970) \<le> 400 * d" "400 * d < 146097 * (g - 1970) + 146097"
    and y: "y = (if f (g + 1) \<le> d then g + 1 else if d < f g then g - 1 else g)"
  shows "f y \<le> d \<and> d < f (y + 1)"
proof -
  have "400 * f (g - 1) \<le> 146097 * (g - 1 - 1970) + 600" "146097 * (g + 2 - 1970) - 600 \<le> 400 * f (g + 2)"
    using f[of "g - 1"] f[of "g + 2"] by (simp_all add: abs_le_iff)
  then have "f (g - 1) \<le> d" "d < f (g + 2)" using g by simp_all
  moreover have "g + 1 + 1 = g + 2" "g - 1 + 1 = g" by simp_all
  ultimately show ?thesis using y by (simp add: add.commute split: if_splits)
qed

lemma year_of_day: "days_before (year_of d) \<le> d \<and> d < days_before (year_of d + 1)"
proof -
  let ?g = "1970 + (400 * d) div 146097"
  have "146097 * (?g - 1970) \<le> 400 * d" "400 * d < 146097 * (?g - 1970) + 146097"
    using div_bounds[of 146097 "400 * d"] by (simp_all del: add_uminus_conv_diff)
  from guess_year[of days_before, OF days_before_mean this] show ?thesis
    by (simp only: year_of_def Let_def)
qed

lemma div_step:
  assumes n: "1 < (n :: int)"
  shows "(x + 1) div n = x div n + (if (x + 1) mod n = 0 then 1 else 0)"
proof (cases "x mod n = n - 1")
  case True
  have "n * (x div n + 1) = n * (x div n) + n" by (simp add: distrib_left)
  then have "x + 1 = n * (x div n + 1)" using mult_div_mod_eq[of n x] True by linarith
  then show ?thesis using n by simp
next
  case False
  then have r: "0 \<le> x mod n + 1" "x mod n + 1 < n" "0 \<le> x mod n"
    using n pos_mod_bound[of n x] pos_mod_sign[of n x] by linarith+
  have "x + 1 = n * (x div n) + (x mod n + 1)" by simp
  from int_div_pos_eq[OF this r(1,2)] int_mod_pos_eq[OF this r(1,2)]
  show ?thesis using r(3) by simp
qed

lemma days_in_year: "days_before (y + 1) - days_before y = (if leap y then 366 else 365)"
proof -
  define p4 p100 p400 where p: "p4 = (y mod 4 = 0)" "p100 = (y mod 100 = 0)" "p400 = (y mod 400 = 0)"
  have dvd: "(100 :: int) dvd 400" "(4 :: int) dvd 100" by simp_all
  note mods = mod_mod_cancel[OF dvd(1), of y] mod_mod_cancel[OF dvd(2), of y]
  have lt: "1 < (4 :: int)" "1 < (100 :: int)" "1 < (400 :: int)" by simp_all
  have "(y - 1968) mod 4 = y mod 4" "(y - 1900) mod 100 = y mod 100" "(y - 1600) mod 400 = y mod 400"
    by (simp_all add: mod_eq_dvd_iff)
  moreover have "y - 1969 + 1 = y - 1968" "y - 1901 + 1 = y - 1900" "y - 1601 + 1 = y - 1600" by simp_all
  ultimately have "(y - 1968) div 4 = (y - 1969) div 4 + (if p4 then 1 else 0)"
    "(y - 1900) div 100 = (y - 1901) div 100 + (if p100 then 1 else 0)"
    "(y - 1600) div 400 = (y - 1601) div 400 + (if p400 then 1 else 0)"
    unfolding p using div_step[OF lt(1), of "y - 1969"] div_step[OF lt(2), of "y - 1901"] div_step[OF lt(3), of "y - 1601"]
    by (simp_all only:)
  moreover have "y + 1 - 1969 = y - 1968" "y + 1 - 1901 = y - 1900" "y + 1 - 1601 = y - 1600" by simp_all
  moreover have "365 * (y + 1 - 1970) + (a + u) - (b + v) + (c + w) = 365 * (y - 1970) + a - b + c + 365 + u - v + w"
    for a b c u v w by simp
  ultimately have "days_before (y + 1) = days_before y + 365 + (if p4 then 1 else 0) - (if p100 then 1 else 0) + (if p400 then 1 else 0)"
    unfolding days_before_def by (simp only:)
  moreover have "y mod 100 = 0" if "y mod 400 = 0" using mods(1)[unfolded that mod_0] by (rule sym)
  then have "p400 \<Longrightarrow> p100" unfolding p .
  moreover have "y mod 4 = 0" if "y mod 100 = 0" using mods(2)[unfolded that mod_0] by (rule sym)
  then have "p100 \<Longrightarrow> p4" unfolding p .
  moreover have "leap y \<longleftrightarrow> p4 \<and> (\<not> p100 \<or> p400)" by (simp only: leap_def p)
  ultimately show ?thesis by (cases p4; cases p100; cases p400; simp)
qed

lemma sum_month_lengths: "sum_list (month_lengths y) = (if leap y then 366 else 365)"
  by (simp add: month_lengths_def)

lemma month_day_range:
  assumes "0 \<le> d" "d < sum_list ls" "month_day ls m d = (m', k)"
  shows "m \<le> m' \<and> m' < m + int (length ls) \<and> 0 \<le> k \<and> k < ls ! nat (m' - m) \<and>
    d = sum_list (take (nat (m' - m)) ls) + k"
  using assms
proof (induction ls arbitrary: m d)
  case (Cons l ls)
  show ?case
  proof (cases "d < l")
    case False
    then have ih: "m + 1 \<le> m' \<and> m' < m + 1 + int (length ls) \<and> 0 \<le> k \<and> k < ls ! nat (m' - (m + 1)) \<and>
      d - l = sum_list (take (nat (m' - (m + 1))) ls) + k"
      using Cons.IH[of "d - l" "m + 1"] Cons.prems by simp
    then have "nat (m' - m) = Suc (nat (m' - (m + 1)))" by linarith
    then show ?thesis using ih by simp
  qed (use Cons.prems in auto)
qed simp

lemma seconds_split: "(s::int) = s mod 60 + (s div 60 mod 60) * 60 + (s div 3600) * 3600"
proof -
  have "s div 3600 = s div 60 div 60" using zdiv_zmult2_eq[of 60 s 60] by simp
  then show ?thesis using div_mult_mod_eq[of s 60] div_mult_mod_eq[of "s div 60" 60] by linarith
qed

text \<open>The fields of a date are those of a day of the calendar and a time of that day.\<close>

definition valid_tm :: "tm \<Rightarrow> bool" where
  "valid_tm t \<longleftrightarrow> tm_sec t \<in> {0..59} \<and> tm_min t \<in> {0..59} \<and> tm_hour t \<in> {0..23} \<and> tm_mon t \<in> {0..11} \<and>
     1 \<le> tm_mday t \<and> tm_mday t \<le> month_lengths (tm_year t + 1900) ! nat (tm_mon t)"

text \<open>Seconds since the epoch, as POSIX defines them.\<close>

definition tm_yday :: "tm \<Rightarrow> int" where
  "tm_yday t = sum_list (take (nat (tm_mon t)) (month_lengths (tm_year t + 1900))) + tm_mday t - 1"

definition timegm :: "tm \<Rightarrow> int" where
  "timegm t = tm_sec t + tm_min t * 60 + tm_hour t * 3600 + tm_yday t * 86400 + (tm_year t - 70) * 31536000 +
     ((tm_year t - 69) div 4) * 86400 - ((tm_year t - 1) div 100) * 86400 + ((tm_year t + 299) div 400) * 86400"

lemma timegm_eq:
  "timegm t = (days_before (tm_year t + 1900) + tm_yday t) * 86400 + (tm_sec t + tm_min t * 60 + tm_hour t * 3600)"
proof -
  have "s + m * 60 + h * 3600 + yd * 86400 + (y - 70) * 31536000 + a * 86400 - b * 86400 + c * 86400 =
    (365 * (y - 70) + a - b + c + yd) * 86400 + (s + m * 60 + h * 3600)" for s m h yd y a b c :: int
    by simp
  moreover have "tm_year t + 1900 - 1970 = tm_year t - 70" "tm_year t + 1900 - 1969 = tm_year t - 69"
    "tm_year t + 1900 - 1901 = tm_year t - 1" "tm_year t + 1900 - 1601 = tm_year t + 299" by simp_all
  ultimately show ?thesis unfolding timegm_def days_before_def by (simp only:)
qed

lemma gmtime_fields:
  obtains m k where "gmtime t = \<lparr>tm_sec = t mod 86400 mod 60, tm_min = t mod 86400 div 60 mod 60,
      tm_hour = t mod 86400 div 3600, tm_mday = k + 1, tm_mon = m, tm_year = year_of (t div 86400) - 1900\<rparr>"
    "0 \<le> m" "m < 12" "0 \<le> k" "k < month_lengths (year_of (t div 86400)) ! nat m"
    "t div 86400 - days_before (year_of (t div 86400)) = sum_list (take (nat m) (month_lengths (year_of (t div 86400)))) + k"
proof -
  define d where "d = t div 86400"
  let ?y = "year_of d"
  obtain m k where mk: "month_day (month_lengths ?y) 0 (d - days_before ?y) = (m, k)" by fastforce
  have "0 \<le> d - days_before ?y" "d - days_before ?y < sum_list (month_lengths ?y)"
    using year_of_day[of d] days_in_year[of ?y] by (simp_all add: sum_month_lengths)
  note r = month_day_range[OF this mk]
  have "length (month_lengths ?y) = 12" by (simp add: month_lengths_def)
  then show thesis
    using that[of k m] r mk unfolding d_def[symmetric] gmtime_def Let_def by simp
qed

lemma time_of_day:
  assumes "0 \<le> s" "s < (86400 :: int)"
  shows "s mod 60 \<in> {0..59}" "s div 60 mod 60 \<in> {0..59}" "s div 3600 \<in> {0..23}"
proof -
  show "s mod 60 \<in> {0..59}" "s div 60 mod 60 \<in> {0..59}"
    using pos_mod_bound[of 60 s] pos_mod_bound[of 60 "s div 60"] by simp_all
  have "s div 3600 < 24" using assms(2) by (simp add: div_less_iff_less_mult)
  then show "s div 3600 \<in> {0..23}" using assms(1) by (simp add: pos_imp_zdiv_nonneg_iff)
qed

lemma gmtime_correct: "valid_tm (gmtime t) \<and> timegm (gmtime t) = t"
proof -
  define D R where DR: "D = t div 86400" "R = t mod 86400"
  obtain m k where g: "gmtime t = \<lparr>tm_sec = R mod 60, tm_min = R div 60 mod 60, tm_hour = R div 3600,
      tm_mday = k + 1, tm_mon = m, tm_year = year_of D - 1900\<rparr>"
    and r: "0 \<le> m" "m < 12" "0 \<le> k" "k < month_lengths (year_of D) ! nat m"
    and d: "D - days_before (year_of D) = sum_list (take (nat m) (month_lengths (year_of D))) + k"
    using gmtime_fields[of t, folded DR] by blast
  have "R < 86400" "0 \<le> R" unfolding DR by (rule pos_mod_bound, simp) (rule pos_mod_sign, simp)
  note tod = time_of_day[OF this(2,1)]
  have "valid_tm (gmtime t)"
    unfolding valid_tm_def g using tod r by (simp del: atLeastAtMost_iff) auto
  moreover have "timegm (gmtime t) = D * 86400 + R"
  proof -
    have "days_before (year_of D) + (sum_list (take (nat m) (month_lengths (year_of D))) + (k + 1) - 1) = D"
      using d by simp
    then show ?thesis
      unfolding timegm_eq tm_yday_def g using seconds_split[of R] by (simp only: tm.simps diff_add_cancel)
  qed
  then have "timegm (gmtime t) = t" unfolding DR by (simp only: div_mult_mod_eq)
  ultimately show ?thesis ..
qed

subsection \<open>Reading a date back\<close>

text \<open>
  The year is what stands before the last 13 characters of a date; the other fields have fixed
  places.
\<close>

definition read_tm :: "string \<Rightarrow> tm" where
  "read_tm s =
     (let y = take (length s - 13) s; r = drop (length s - 13) s
      in \<lparr>tm_sec = int (number_of (drop 11 r)), tm_min = int (number_of (take 2 (drop 8 r))),
          tm_hour = int (number_of (take 2 (drop 5 r))), tm_mday = int (number_of (take 2 (drop 2 r))),
          tm_mon = int (number_of (take 2 r)) - 1, tm_year = int (number_of y) - 1900\<rparr>)"

definition ReadFormatted :: "bool \<Rightarrow> string \<Rightarrow> int" where
  "ReadFormatted showMicroseconds s =
     (if showMicroseconds
      then timegm (read_tm (take (length s - 7) s)) * 1000000 + int (number_of (drop (length s - 6) s))
      else timegm (read_tm s) * 1000000)"

definition print_date :: "tm \<Rightarrow> string" where
  "print_date t = print_width 4 (tm_year t + 1900) @ print_padded 2 (tm_mon t + 1) @
     print_padded 2 (tm_mday t) @ '' '' @ print_padded 2 (tm_hour t) @ '':'' @
     print_padded 2 (tm_min t) @ '':'' @ print_padded 2 (tm_sec t)"

lemma month_lengths_le: "m < 12 \<Longrightarrow> month_lengths y ! m \<le> 31"
proof -
  assume "m < 12"
  then have "month_lengths y ! m \<in> set (month_lengths y)" by (simp add: month_lengths_def del: set_simps)
  moreover have "\<forall>l \<in> set (month_lengths y). l \<le> 31" by (simp add: month_lengths_def)
  ultimately show ?thesis by blast
qed

lemma read_print_date:
  assumes v: "valid_tm t" and y: "1000 \<le> tm_year t + 1900" "tm_year t + 1900 < 10 ^ 6"
  shows "read_tm (print_date t) = t" and "length (print_date t) \<le> 19"
proof -
  let ?y = "nat (tm_year t + 1900)"
  have "3 < length (digits_of ?y)" using digits_longer[of 3 ?y] y(1) by simp
  have "length (digits_of ?y) \<le> 6" using length_digits[of ?y 6] y(2) by (simp add: nat_less_iff)
  have w: "print_width 4 (tm_year t + 1900) = digits_of ?y"
    using \<open>3 < length (digits_of ?y)\<close> y(1) by (simp add: print_width_def print_i64_def)
  have "month_lengths (tm_year t + 1900) ! nat (tm_mon t) \<le> 31"
    using v by (intro month_lengths_le) (simp add: valid_tm_def nat_less_iff)
  then have r: "tm_mon t + 1 < 10 ^ 2" "0 \<le> tm_mon t + 1" "tm_mday t < 10 ^ 2" "0 \<le> tm_mday t" "tm_hour t < 10 ^ 2"
      "0 \<le> tm_hour t" "tm_min t < 10 ^ 2" "0 \<le> tm_min t" "tm_sec t < 10 ^ 2" "0 \<le> tm_sec t"
    using v by (auto simp: valid_tm_def)
  note len = length_padded[OF r(2,1)] length_padded[OF r(4,3)] length_padded[OF r(6,5)] length_padded[OF r(8,7)]
    length_padded[OF r(10,9)]
  note num = number_of_padded[OF r(2)] number_of_padded[OF r(4)] number_of_padded[OF r(6)] number_of_padded[OF r(8)]
    number_of_padded[OF r(10)]
  show "length (print_date t) \<le> 19"
    using \<open>length (digits_of ?y) \<le> 6\<close> by (simp add: print_date_def w len)
  show "read_tm (print_date t) = t"
    using r y by (simp add: read_tm_def print_date_def w len num)
qed

subsection \<open>Properties\<close>

lemma year_of_range:
  assumes "0 \<le> t" "t < 2 ^ 63 div 1000000 + 1"
  shows "1970 \<le> year_of (t div 86400)" "year_of (t div 86400) < 10 ^ 6"
proof -
  define d where "d = t div 86400"
  have d: "0 \<le> d" "d \<le> 200000000"
    using assms zdiv_mono1[of t "2 ^ 63 div 1000000" 86400] unfolding d_def by (simp_all add: pos_imp_zdiv_nonneg_iff)
  let ?y = "year_of d"
  have y: "days_before ?y \<le> d" "d < days_before (?y + 1)" using year_of_day[of d] by simp_all
  have "400 * days_before (?y + 1) \<le> 146097 * (?y + 1 - 1970) + 600"
    "146097 * (?y - 1970) - 600 \<le> 400 * days_before ?y"
    using days_before_mean[of "?y + 1"] days_before_mean[of ?y] by (simp_all add: abs_le_iff)
  then have "1969 \<le> ?y" "?y < 10 ^ 6" using y d by simp_all
  moreover have "days_before 1970 = 0" by (simp add: days_before_def)
  then have "?y \<noteq> 1969" using y(2) d(1) by auto
  ultimately show "1970 \<le> year_of (t div 86400)" "year_of (t div 86400) < 10 ^ 6" unfolding d_def by simp_all
qed

text \<open>C35: the date that is printed for a time since 1970 has fields of the calendar, fits in the
  buffer, and reads back as that time: to the microsecond when microseconds are shown, to the second
  otherwise.\<close>

theorem formatted_round_trip:
  assumes "0 \<le> micros t" "in_i64 (micros t)"
  shows "valid_tm (gmtime (micros t div 1000000)) \<and>
     ReadFormatted True (ToFormattedString True t) = micros t \<and>
     ReadFormatted False (ToFormattedString False t) = micros t div 1000000 * 1000000"
proof -
  define s u where su: "s = micros t div 1000000" "u = micros t mod 1000000"
  let ?tm = "gmtime s"
  have "0 \<le> s" "s < 2 ^ 63 div 1000000 + 1" using assms unfolding su in_i64_def
    by (simp_all add: pos_imp_zdiv_nonneg_iff div_less_iff_less_mult)
  note range = year_of_range[OF this]
  have year: "tm_year ?tm + 1900 = year_of (s div 86400)" by (rule gmtime_fields[of s]) simp
  have v: "valid_tm ?tm" and g: "timegm ?tm = s" using gmtime_correct by auto
  have rd: "read_tm (print_date ?tm) = ?tm" and len: "length (print_date ?tm) \<le> 19"
    using read_print_date[OF v] range year by simp_all
  have u: "0 \<le> u" "u < 10 ^ 6" unfolding su by simp_all
  note pad = length_padded[OF u] number_of_padded[OF u(1), of 6]
  have "micros t sdiv kMicroSecondsPerSecond = s" "micros t smod kMicroSecondsPerSecond = u"
    using assms(1) by (simp_all add: su k_value sdiv_nonneg smod_nonneg)
  then have T: "ToFormattedString True t = print_date ?tm @ ''.'' @ print_padded 6 u"
    and F: "ToFormattedString False t = print_date ?tm"
    using len pad by (simp_all add: ToFormattedString_def print_date_def Let_def)
  have "ReadFormatted True (ToFormattedString True t) = s * 1000000 + u"
    using pad u rd g by (simp add: T ReadFormatted_def)
  also have "\<dots> = micros t" unfolding su by (rule div_mult_mod_eq)
  finally show ?thesis using v rd g su by (simp add: F ReadFormatted_def)
qed

theorem formatted_round_trip_witness:
  "ToFormattedString True (TimerStamp 951782400000123) = ''20000229 00:00:00.000123'' \<and>
   ReadFormatted True ''20000229 00:00:00.000123'' = 951782400000123"
proof -
  have "ToFormattedString True (TimerStamp 951782400000123) = ''20000229 00:00:00.000123''" by code_simp
  then show ?thesis
    using formatted_round_trip[of "TimerStamp 951782400000123"] by (simp add: in_i64_def)
qed

end
