(* ===== verification/Timer_Demo.thy ===== *)
theory Timer_Demo
  imports Timer_Loop Timer_Format
begin

section \<open>The program of the timer library\<close>

text \<open>
  \<^verbatim>\<open>src/timerfd/test_main.cpp\<close> adds seven timers whose callbacks print a message and the time. A callback
  is a number here; \<open>message\<close> is the text it prints. The final \<open>getchar\<close> is where the loop thread does
  its work; what it does is the subject of \<open>Timer_Loop\<close>.
\<close>

definition message :: "nat \<Rightarrow> string" where
  "message cb = [''once1'', ''once1.5'', ''once2.5'', ''once4.8'', ''every2'', ''every5'', ''every7''] ! cb"

definition myprintTest :: "string \<Rightarrow> timer_stamp \<Rightarrow> string" where
  "myprintTest msg now = '' '' @ msg @ ''  NowTime:'' @ ToFormattedString True now @ [CHR 0x0A]"

definition test_main :: "env \<Rightarrow> mgr \<Rightarrow> fault + mgr" where
  "test_main env m =
     steps (mgr_step env)
       [Call (AddAfter (of_i 1) 0), Call (AddAfter (dbl (3 / 2)) 1), Call (AddAfter (dbl (5 / 2)) 2),
        Call (AddAfter (dbl (48 / 10)) 3), Call (AddEvery (of_i 2) 4), Call (AddEvery (of_i 5) 5),
        Call (AddEvery (of_i 7) 6)] m"

text \<open>A machine whose clock advances by one microsecond from one reading to the next.\<close>

definition quiet_env :: env where
  "quiet_env = \<lparr>alloc = (\<lambda>h. find (\<lambda>p. h p = None) [1, 2, 3, 4, 5, 6, 7]),
                clock = (\<lambda>n. 951782400000000 + int n), program = (\<lambda>_. [])\<rparr>"

definition plan :: "mgr \<Rightarrow> (int \<times> string \<times> bool) list" where
  "plan m = map (\<lambda>(w, p). case store (tqueue m) p of None \<Rightarrow> (micros w, [], False)
      | Some t \<Rightarrow> (micros w, message (callback t), repeat_timer t)) (timers (tqueue m))"

text \<open>The seven timers, in the order in which they will fire for the first time.\<close>

lemma test_main_plan:
  "yields (\<lambda>m. yields (\<lambda>m'. plan m' =
       [(951782401000000, ''once1'', False), (951782401500002, ''once1.5'', False),
        (951782402000005, ''every2'', True), (951782402500003, ''once2.5'', False),
        (951782404800004, ''once4.8'', False), (951782405000006, ''every5'', True),
        (951782407000007, ''every7'', True)]) (test_main quiet_env m)) (TimerEventMgr 4 5)"
  by code_simp

lemma demo_line:
  "myprintTest ''once1'' (TimerStamp 951782401000123) = '' once1  NowTime:20000229 00:00:01.000123'' @ [CHR 0x0A]"
  by code_simp

end
