(* ===== verification/Descriptors.thy ===== *)
theory Descriptors
  imports Prelude "HOL-Library.AList"
begin

section \<open>File descriptors and the calls that make them\<close>

text \<open>
  The kernel's table of descriptors, as far as the programs' calls depend on it. A socket is new, has a
  local port, listens on a port, is connected to one, or was returned by \<open>accept\<close>; the other descriptors
  are those of epoll, with the list of descriptors it watches, and of events and timers. There are finitely
  many descriptors; a call that makes one takes the lowest that is free, returns \<open>-1\<close> when they are
  used up, and calls on a descriptor that is not open fail. \<open>bind\<close> fails when another socket has the port (a listening socket keeps
  it even from sockets with \<open>SO_REUSEADDR\<close>); \<open>listen\<close> on a socket without port makes the kernel choose a
  free one, \<open>ephemeral\<close>; \<open>connect\<close> succeeds when somebody listens on the port. Closing a
  descriptor takes it out of every list of watched descriptors.
\<close>

type_synonym port = int

datatype desc =
    Unbound | Bound port | Listening port | Peer port | Connection
  | EpollFd "int list" | EventFd | TimerFd

record net =
  descs :: "(int \<times> desc) list"
  free_fds :: "int list"
  ephemeral :: port

definition desc_of :: "net \<Rightarrow> int \<Rightarrow> desc option" where
  "desc_of n fd = map_of (descs n) fd"

definition set_desc :: "int \<Rightarrow> desc \<Rightarrow> net \<Rightarrow> net" where
  "set_desc fd d n = n\<lparr>descs := AList.update fd d (descs n)\<rparr>"

definition in_use :: "port \<Rightarrow> net \<Rightarrow> bool" where
  "in_use p n \<longleftrightarrow> list_ex (\<lambda>fd. desc_of n fd = Some (Bound p) \<or> desc_of n fd = Some (Listening p)) (map fst (descs n))"

definition listens :: "port \<Rightarrow> net \<Rightarrow> bool" where
  "listens p n \<longleftrightarrow> list_ex (\<lambda>fd. desc_of n fd = Some (Listening p)) (map fst (descs n))"

definition sys_open :: "desc \<Rightarrow> net \<Rightarrow> int \<times> net" where
  "sys_open d n =
     (case free_fds n of
        [] \<Rightarrow> (- 1, n)
      | fd # fds \<Rightarrow> (fd, (set_desc fd d n)\<lparr>free_fds := fds\<rparr>))"

definition sys_socket :: "net \<Rightarrow> int \<times> net" where
  "sys_socket = sys_open Unbound"

definition sys_bind :: "int \<Rightarrow> port \<Rightarrow> net \<Rightarrow> bool \<times> net" where
  "sys_bind fd p n =
     (if desc_of n fd = Some Unbound \<and> \<not> in_use p n then (True, set_desc fd (Bound p) n) else (False, n))"

definition sys_listen :: "int \<Rightarrow> net \<Rightarrow> bool \<times> net" where
  "sys_listen fd n =
     (case desc_of n fd of
        Some (Bound p) \<Rightarrow> (True, set_desc fd (Listening p) n)
      | Some Unbound \<Rightarrow> (True, set_desc fd (Listening (ephemeral n)) n)
      | _ \<Rightarrow> (False, n))"

definition sys_connect :: "int \<Rightarrow> port \<Rightarrow> net \<Rightarrow> bool \<times> net" where
  "sys_connect fd p n =
     (if desc_of n fd = Some Unbound \<and> listens p n then (True, set_desc fd (Peer p) n) else (False, n))"

definition sys_accept :: "int \<Rightarrow> net \<Rightarrow> int \<times> net" where
  "sys_accept fd n = (case desc_of n fd of Some (Listening p) \<Rightarrow> sys_open Connection n | _ \<Rightarrow> (- 1, n))"

definition epoll_add :: "int \<Rightarrow> int \<Rightarrow> net \<Rightarrow> net" where
  "epoll_add ep fd n =
     (case desc_of n ep of
        Some (EpollFd fs) \<Rightarrow>
          if desc_of n fd = None \<or> fd = ep \<or> fd \<in> set fs then n else set_desc ep (EpollFd (fs @ [fd])) n
      | _ \<Rightarrow> n)"

definition epoll_del :: "int \<Rightarrow> int \<Rightarrow> net \<Rightarrow> net" where
  "epoll_del ep fd n =
     (case desc_of n ep of Some (EpollFd fs) \<Rightarrow> set_desc ep (EpollFd (removeAll fd fs)) n | _ \<Rightarrow> n)"

fun forget :: "int \<Rightarrow> desc \<Rightarrow> desc" where
  "forget fd (EpollFd fs) = EpollFd (removeAll fd fs)"
| "forget fd d = d"

definition sys_close :: "int \<Rightarrow> net \<Rightarrow> net" where
  "sys_close fd n =
     (if desc_of n fd = None then n
      else n\<lparr>descs := map (\<lambda>(f, d). (f, forget fd d)) (AList.delete fd (descs n)), free_fds := insort fd (free_fds n)\<rparr>)"

subsection \<open>What the calls do to the table\<close>

lemma desc_of_set [simp]: "desc_of (set_desc fd d n) = (desc_of n)(fd \<mapsto> d)"
  by (simp add: desc_of_def set_desc_def update_conv fun_eq_iff)

lemma desc_of_free [simp]: "desc_of (n\<lparr>free_fds := fds\<rparr>) = desc_of n"
  by (simp add: desc_of_def fun_eq_iff)

lemma set_desc_frame [simp]: "free_fds (set_desc fd d n) = free_fds n" "ephemeral (set_desc fd d n) = ephemeral n"
  by (simp_all add: set_desc_def)

lemma desc_listed: "desc_of n fd = Some d \<Longrightarrow> fd \<in> fst ` set (descs n)"
  unfolding desc_of_def by (drule map_of_SomeD) (metis fst_conv image_eqI)

lemma in_use_iff: "in_use p n \<longleftrightarrow> (\<exists>fd. desc_of n fd = Some (Bound p) \<or> desc_of n fd = Some (Listening p))"
  unfolding in_use_def list_ex_iff set_map using desc_listed[of n] by blast

lemma listens_iff: "listens p n \<longleftrightarrow> (\<exists>fd. desc_of n fd = Some (Listening p))"
  unfolding listens_def list_ex_iff set_map using desc_listed[of n] by blast

lemma desc_of_close:
  "desc_of (sys_close fd n) = (\<lambda>f. if f = fd then None else if desc_of n fd = None then desc_of n f else map_option (forget fd) (desc_of n f))"
proof -
  have "map_of (map (\<lambda>(f, d). (f, g d)) (AList.delete fd xs)) f = (if f = fd then None else map_option g (map_of xs f))"
    for g :: "desc \<Rightarrow> desc" and xs f
    by (induction xs) auto
  then show ?thesis by (auto simp: sys_close_def desc_of_def fun_eq_iff)
qed

lemma free_fds_close: "free_fds (sys_close fd n) = (if desc_of n fd = None then free_fds n else insort fd (free_fds n))"
  by (simp add: sys_close_def)

text \<open>The descriptors that are not in use, the lowest first, and those that are.\<close>

definition net_ok :: "net \<Rightarrow> bool" where
  "net_ok n \<longleftrightarrow> sorted (free_fds n) \<and> distinct (free_fds n) \<and> (\<forall>fd \<in> set (free_fds n). 0 \<le> fd \<and> desc_of n fd = None)
     \<and> (\<forall>fd. desc_of n fd \<noteq> None \<longrightarrow> 0 \<le> fd)"

lemma net_ok_minus_one [simp]: "net_ok n \<Longrightarrow> desc_of n (- 1) = None"
  by (force simp: net_ok_def)

lemma net_ok_open:
  "net_ok n \<Longrightarrow> free_fds n = fd # fds \<Longrightarrow> net_ok ((set_desc fd d n)\<lparr>free_fds := fds\<rparr>) \<and> desc_of n fd = None \<and> 0 \<le> fd"
  by (auto simp: net_ok_def)

lemma sys_open_next: "free_fds n = fd # fds \<Longrightarrow> sys_open d n = (fd, (set_desc fd d n)\<lparr>free_fds := fds\<rparr>)"
  by (simp add: sys_open_def)

lemma net_ok_set: "net_ok n \<Longrightarrow> desc_of n fd \<noteq> None \<Longrightarrow> net_ok (set_desc fd d n)"
  by (auto simp: net_ok_def)

lemma net_ok_close: "net_ok n \<Longrightarrow> net_ok (sys_close fd n)"
  by (auto simp: net_ok_def desc_of_close free_fds_close sorted_insort distinct_insort set_insort_key split: if_splits)

lemma net_ok_epoll_add: "net_ok n \<Longrightarrow> net_ok (epoll_add ep fd n)"
  by (auto simp: epoll_add_def net_ok_set split: option.split desc.split)

lemma net_ok_epoll_del: "net_ok n \<Longrightarrow> net_ok (epoll_del ep fd n)"
  by (auto simp: epoll_del_def net_ok_set split: option.split desc.split)

text \<open>A program that has just started: nothing is watched and nothing accepted.\<close>

definition started :: "net \<Rightarrow> bool" where
  "started n \<longleftrightarrow> net_ok n \<and> (\<forall>fd. desc_of n fd \<noteq> Some Connection \<and> (\<forall>fs. desc_of n fd \<noteq> Some (EpollFd fs)))"

lemma start_no_epoll: "started n0 \<Longrightarrow> desc_of n0 f \<noteq> Some (EpollFd fs)"
  by (simp add: started_def)

lemma forget_other: "(\<And>fs. d \<noteq> EpollFd fs) \<Longrightarrow> forget fd d = d"
  by (cases d) (simp | blast)+

text \<open>Two such programs, the second on a machine where somebody listens.\<close>

definition demo_net :: "(int \<times> desc) list \<Rightarrow> net" where
  "demo_net ds = \<lparr>descs = ds, free_fds = [3, 4, 6, 7], ephemeral = 40000\<rparr>"

lemma demo_net_started: "started (demo_net [])" "started (demo_net [(5, Listening 7000)])"
  by (simp_all add: started_def net_ok_def demo_net_def desc_of_def)

end
