(* ===== verification/Timer_Setup.thy ===== *)
theory Timer_Setup
  imports Timer_Loop Descriptors
begin

section \<open>The descriptors of the timer library\<close>











subsection \<open>Channels keep their descriptors\<close>

definition chan_fds :: "reactor \<Rightarrow> chan \<Rightarrow> int option" where
  "chan_fds r p = map_option fd (chans r p)"

text \<open>The descriptors of the channels, and those that are open.\<close>

definition all_fds :: "reactor \<Rightarrow> (chan \<Rightarrow> int option) \<times> int list" where
  "all_fds r = (chan_fds r, open_fds r)"


lemma all_fds_logged [simp]: "all_fds (logged_ctl op f ev r) = all_fds r"
  by (simp add: all_fds_def chan_fds_def logged_ctl_def epoll_ctl_def fun_eq_iff split: ctl.split option.split)











subsection \<open>What is left at the end\<close>













end
