(* ===== verification/Rate_Limiter.thy ===== *)
theory Rate_Limiter
  imports Double "HOL-Library.Word"
begin

section \<open>The token bucket\<close>

text \<open>
  \<^verbatim>\<open>src/tools/rate_limiter/token_bucket_limiter.cc\<close> and the \<open>OrderController\<close> of \<^verbatim>\<open>main.cc\<close>. Times are
  \<open>uint64_t\<close> microseconds and wrap; permits, rates and the conversions between the two are
  \<open>double\<close>. Converting a \<open>double\<close> that does not fit to \<open>uint64_t\<close> is undefined: \<open>BadCast\<close>.
\<close>

type_synonym u64 = "64 word"
type_synonym u32 = "32 word"

record limiter =
  permit_interval :: double
  max_permits :: double
  stored_permits :: double
  next_free :: u64

definition TokenBucketRateLimiter :: limiter where
  "TokenBucketRateLimiter =
     \<lparr>permit_interval = ddiv (Fin 1000000) (Fin 1), max_permits = Fin 1, stored_permits = Fin 1, next_free = 0\<rparr>"

text \<open>\<open>timewindow*1000\<close> is an \<open>int\<close>; only then is it converted.\<close>

definition Init :: "int \<Rightarrow> double \<Rightarrow> limiter \<Rightarrow> fault + limiter" where
  "Init timewindow permits_limit l =
     (let m = (if dle permits_limit (Fin 0) then Fin 1 else permits_limit)
      in bindE (or_fault IntOverflow (i32 (timewindow * 1000))) (\<lambda>w.
         Inr (l\<lparr>max_permits := m, stored_permits := m, permit_interval := ddiv (of_i w) permits_limit\<rparr>)))"

definition Sync :: "u64 \<Rightarrow> limiter \<Rightarrow> limiter" where
  "Sync now l =
     (if now > next_free l
      then let step = ddiv (of_i (uint (now - next_free l))) (permit_interval l)
           in l\<lparr>stored_permits := dmin (max_permits l) (dadd (stored_permits l) step), next_free := now\<rparr>
      else l)"

definition ClaimNext :: "double \<Rightarrow> u64 \<Rightarrow> limiter \<Rightarrow> fault + u64 \<times> limiter" where
  "ClaimNext permits now l =
     (let l1 = Sync now l;
          wait = next_free l1 - now;
          stored = dmin permits (stored_permits l1);
          fresh = dsub permits stored
      in bindE (or_fault BadCast (to_u64 (dmul fresh (permit_interval l1)))) (\<lambda>claimed.
         Inr (wait, l1\<lparr>next_free := next_free l1 + word_of_int claimed,
                      stored_permits := dsub (stored_permits l1) stored\<rparr>)))"

text \<open>
  \<open>microseconds(wait)\<close> has a signed count, \<open>/ 1000.0\<close> is a \<open>double\<close>, and \<open>!\<close> asks whether it is zero.
\<close>

definition Aquire :: "double \<Rightarrow> u64 \<Rightarrow> limiter \<Rightarrow> fault + int \<times> limiter" where
  "Aquire permits now l =
     bindE (ClaimNext permits now l) (\<lambda>(wait, l').
       Inr (if ddiv (of_i (sint wait)) (Fin 1000) = Fin 0 then 1 else 0, l'))"

definition GetRate :: "limiter \<Rightarrow> double" where
  "GetRate l = max_permits l"

subsection \<open>The order controller\<close>

definition OrderRequest :: "int \<Rightarrow> u32" where
  "OrderRequest reqt = word_of_int reqt"

definition OrderController :: "int \<Rightarrow> int \<Rightarrow> fault + limiter" where
  "OrderController timeWindow upperLimit = Init timeWindow (of_i upperLimit) TokenBucketRateLimiter"

text \<open>\<open>order.reqTimestamp*1000\<close> is computed in 32 bits.\<close>

definition order_now :: "u32 \<Rightarrow> u64" where
  "order_now ts = ucast (ts * 1000)"

definition allow :: "u32 \<Rightarrow> limiter \<Rightarrow> fault + bool \<times> limiter" where
  "allow order l = bindE (Aquire (Fin 1) (order_now order) l) (\<lambda>(ret, l'). Inr (ret \<noteq> 0, l'))"

text \<open>The limiter after a request, and the answers to a list of requests.\<close>

definition allow_step :: "u32 \<Rightarrow> limiter \<Rightarrow> fault + limiter" where
  "allow_step order l = bindE (allow order l) (\<lambda>(_, l'). Inr l')"

fun aquire_all :: "u64 list \<Rightarrow> limiter \<Rightarrow> fault + int list" where
  "aquire_all [] l = Inr []"
| "aquire_all (now # nows) l =
     bindE (Aquire (Fin 1) now l) (\<lambda>(r, l'). bindE (aquire_all nows l') (\<lambda>rs. Inr (r # rs)))"

fun allow_all :: "int list \<Rightarrow> limiter \<Rightarrow> fault + bool list" where
  "allow_all [] l = Inr []"
| "allow_all (t # ts) l =
     bindE (allow (OrderRequest t) l) (\<lambda>(b, l'). bindE (allow_all ts l') (\<lambda>bs. Inr (b # bs)))"

definition limiter_main :: "fault + bool list" where
  "limiter_main = bindE (OrderController 3 1) (allow_all [1, 4, 1, 3, 5, 6, 7, 8, 9, 10, 1])"

subsection \<open>The bucket\<close>

text \<open>
  The bucket holds between no token and its capacity, and tokens come at a positive rate. The bound
  on the interval is what a window of less than $2^{31}$ microseconds gives.
\<close>

definition bucket_ok :: "limiter \<Rightarrow> bool" where
  "bucket_ok l \<longleftrightarrow> (\<exists>m s i. max_permits l = Fin m \<and> stored_permits l = Fin s \<and> permit_interval l = Fin i
     \<and> representable m \<and> representable s \<and> 0 \<le> s \<and> s \<le> m \<and> m \<le> 2 ^ 32 \<and> 0 < i \<and> i \<le> 2 ^ 32)"

lemma representable_simps [simp]: "representable 0" "representable 1" "representable (2 ^ 32)"
  using representable_of_int[of 0] representable_of_int[of 1] representable_of_int[of "2 ^ 32"] by simp_all

lemma below_overflow: "c \<le> 2 ^ 32 \<Longrightarrow> c < (2 :: rat) powi 1024"
proof -
  assume "c \<le> 2 ^ 32"
  also have "(2 :: rat) ^ 32 = 2 powi 32" by simp
  also have "\<dots> < 2 powi 1024" by (simp only: powi_less_iff)
  finally show ?thesis .
qed

text \<open>A non-negative \<open>double\<close> that is not a NaN.\<close>

definition nonneg :: "double \<Rightarrow> bool" where
  "nonneg x \<longleftrightarrow> x = PInf \<or> (\<exists>r. x = Fin r \<and> 0 \<le> r \<and> representable r)"

lemma nonneg_dbl: "0 \<le> x \<Longrightarrow> nonneg (dbl x)"
  using dbl_ge[of 0 x] representable_dbl[of x] by (auto simp: nonneg_def)

lemma nonneg_cases:
  assumes "nonneg x"
  obtains "x = PInf" | r where "x = Fin r" "0 \<le> r" "representable r"
  using assms by (auto simp: nonneg_def)

lemma nonneg_PInf [simp]: "nonneg PInf"
  by (simp add: nonneg_def)

lemma nonneg_ddiv: "nonneg x \<Longrightarrow> 0 < i \<Longrightarrow> nonneg (ddiv x (Fin i))"
  by (erule nonneg_cases) (simp_all add: nonneg_dbl)

lemma nonneg_dadd: "0 \<le> s \<Longrightarrow> nonneg x \<Longrightarrow> nonneg (dadd (Fin s) x)"
  by (erule nonneg_cases) (simp_all add: nonneg_dbl)

lemma dmin_Fin: "dmin (Fin a) (Fin b) = Fin (min a b)"
  by (auto simp: dmin_def)

lemma dmin_capacity:
  assumes "nonneg x" "0 \<le> m" "representable m"
  shows "\<exists>s. dmin (Fin m) x = Fin s \<and> 0 \<le> s \<and> s \<le> m \<and> representable s"
  using assms by (auto simp: dmin_Fin dmin_def min_def elim!: nonneg_cases)

lemma step_nonneg: "nonneg (of_i (uint (d :: u64)))"
  unfolding of_i_def by (intro nonneg_dbl) (simp only: of_int_0_le_iff unsigned_greater_eq)

lemma Sync_ok:
  assumes "bucket_ok l"
  shows "bucket_ok (Sync now l)" "permit_interval (Sync now l) = permit_interval l"
    "max_permits (Sync now l) = max_permits l" "next_free (Sync now l) = max (next_free l) now"
proof -
  obtain m s i where l: "max_permits l = Fin m" "stored_permits l = Fin s" "permit_interval l = Fin i"
    "representable m" "0 \<le> s" "s \<le> m" "m \<le> 2 ^ 32" "0 < i" "i \<le> 2 ^ 32"
    using assms by (auto simp: bucket_ok_def)
  have "nonneg (dadd (Fin s) (ddiv (of_i (uint (now - next_free l))) (Fin i)))"
    using l by (intro nonneg_dadd nonneg_ddiv step_nonneg)
  then obtain s' where "dmin (Fin m) (dadd (Fin s) (ddiv (of_i (uint (now - next_free l))) (Fin i))) = Fin s'"
    "0 \<le> s'" "s' \<le> m" "representable s'"
    using dmin_capacity l by (meson order_trans)
  then show "bucket_ok (Sync now l)" using assms l by (simp add: Sync_def bucket_ok_def Let_def)
qed (auto simp: Sync_def Let_def max_def)

lemma dsub_min:
  assumes "0 \<le> p" "0 \<le> s" "s \<le> 2 ^ 32" "representable s"
  obtains r where "dsub (Fin s) (Fin (min p s)) = Fin r" "0 \<le> r" "r \<le> s" "representable r"
proof -
  have "0 \<le> s - min p s" "s - min p s \<le> s" using assms by auto
  then show thesis using dbl_between[of s "s - min p s"] assms below_overflow that by (auto simp: dsub_def)
qed

lemma claim_fits:
  assumes "0 \<le> f" "f \<le> 1" "0 < i" "i \<le> 2 ^ 32"
  obtains k where "to_u64 (dmul (Fin f) (Fin i)) = Some k" "0 \<le> k"
proof -
  have "f * i \<le> 2 ^ 32" using mult_mono[OF assms(2,4)] assms by simp
  moreover have "0 \<le> f * i" using assms by simp
  ultimately obtain r where r: "dbl (f * i) = Fin r" "0 \<le> r" "r \<le> 2 ^ 32"
    using dbl_between[of "2 ^ 32" "f * i"] below_overflow by (metis order_refl representable_simps(3))
  have "0 \<le> trunc r" "trunc r \<le> 2 ^ 32" using r by (simp_all add: trunc_def floor_le_iff)
  then show thesis using r that by simp
qed

lemma ClaimNext_ok:
  assumes ok: "bucket_ok l" and p: "0 \<le> p" "p \<le> 1" "representable p"
  obtains l' where "ClaimNext (Fin p) now l = Inr (max (next_free l) now - now, l')" "bucket_ok l'"
    "permit_interval l' = permit_interval l" "max_permits l' = max_permits l"
proof -
  let ?l = "Sync now l"
  obtain m s i where l: "max_permits ?l = Fin m" "stored_permits ?l = Fin s" "permit_interval ?l = Fin i"
    "representable m" "representable s" "0 \<le> s" "s \<le> m" "m \<le> 2 ^ 32" "0 < i" "i \<le> 2 ^ 32"
    using Sync_ok(1)[OF ok, of now] by (auto simp: bucket_ok_def)
  obtain f where f: "dsub (Fin p) (Fin (min s p)) = Fin f" "0 \<le> f" "f \<le> 1"
    using dsub_min[of s p] p l(6) by (metis order_trans one_le_power one_le_numeral)
  obtain s' where s': "dsub (Fin s) (Fin (min p s)) = Fin s'" "0 \<le> s'" "s' \<le> s" "representable s'"
    using dsub_min[of p s] p l by (metis order_trans)
  obtain k where k: "to_u64 (dmul (Fin f) (Fin i)) = Some k" using claim_fits f l by blast
  let ?l' = "?l\<lparr>next_free := next_free ?l + word_of_int k, stored_permits := Fin s'\<rparr>"
  have "ClaimNext (Fin p) now l = Inr (max (next_free l) now - now, ?l')"
    using f(1) s'(1) k l Sync_ok(4)[OF ok] by (simp add: ClaimNext_def Let_def dmin_Fin min.commute)
  moreover have "bucket_ok ?l'" using l s' by (auto simp: bucket_ok_def)
  ultimately show thesis using that Sync_ok(2,3)[OF ok] by simp
qed

subsection \<open>When a request passes\<close>

lemma quotient_nonzero:
  assumes "k \<noteq> 0"
  shows "ddiv (of_i k) (Fin 1000) \<noteq> Fin 0"
proof -
  have eps: "representable (1 / 1024)" "representable (- (1 / 1024))"
    unfolding representable_def by code_simp+
  show ?thesis
  proof (cases "0 < k")
    case True
    then have "of_i k = PInf \<or> (\<exists>r. of_i k = Fin r \<and> 1 \<le> r)"
      unfolding of_i_def by (intro dbl_ge) simp_all
    moreover have "dbl (r / 1000) \<noteq> Fin 0" if "1 \<le> r" for r
      using dbl_ge[OF eps(1), of "r / 1000"] that by auto
    ultimately show ?thesis by auto
  next
    case False
    then have "(of_int k :: rat) \<le> of_int (- 1)" using assms by (simp only: of_int_le_iff)
    then have "of_i k = NInf \<or> (\<exists>r. of_i k = Fin r \<and> r \<le> - 1)"
      unfolding of_i_def using representable_of_int[of "- 1"] by (intro dbl_le) simp_all
    moreover have "dbl (r / 1000) \<noteq> Fin 0" if "r \<le> - 1" for r
      using dbl_le[OF eps(2), of "r / 1000"] that by auto
    ultimately show ?thesis by auto
  qed
qed

lemma wait_zero_iff: "ddiv (of_i (sint (w :: u64))) (Fin 1000) = Fin 0 \<longleftrightarrow> w = 0"
proof (cases "w = 0")
  case True
  then show ?thesis using dbl_of_int[of 0] by (simp add: of_i_def)
next
  case False
  then have "sint w \<noteq> 0" using signed_word_eqI[of w 0] by auto
  then show ?thesis using quotient_nonzero False by blast
qed

lemma next_free_Sync: "next_free (Sync now l) = max (next_free l) now"
  by (auto simp: Sync_def Let_def max_def)

lemma Aquire_result:
  assumes "Aquire permits now l = Inr (r, l')"
  shows "r = (if next_free l \<le> now then 1 else 0)"
proof -
  obtain w where "ClaimNext permits now l = Inr (w, l')"
    and r: "r = (if ddiv (of_i (sint w)) (Fin 1000) = Fin 0 then 1 else 0)"
    using assms by (auto simp: Aquire_def bindE_Inr_iff)
  then have "w = max (next_free l) now - now"
    by (auto simp: ClaimNext_def Let_def bindE_Inr_iff next_free_Sync)
  then have "w = 0 \<longleftrightarrow> next_free l \<le> now" by (auto simp: max_def)
  then show ?thesis using r wait_zero_iff[of w] by simp
qed

lemma Aquire_ok:
  assumes "bucket_ok l" "0 \<le> p" "p \<le> 1" "representable p"
  obtains l' where "Aquire (Fin p) now l = Inr (if next_free l \<le> now then 1 else 0, l')" "bucket_ok l'"
    "permit_interval l' = permit_interval l" "max_permits l' = max_permits l"
proof -
  obtain l' where l': "ClaimNext (Fin p) now l = Inr (max (next_free l) now - now, l')" "bucket_ok l'"
    "permit_interval l' = permit_interval l" "max_permits l' = max_permits l"
    using ClaimNext_ok[OF assms] by metis
  then obtain r where r: "Aquire (Fin p) now l = Inr (r, l')" by (simp add: Aquire_def)
  then show thesis using Aquire_result[OF r] l' that by simp
qed

subsection \<open>The controller always answers\<close>

lemma OrderController_ok:
  assumes "0 < timeWindow" "timeWindow * 1000 < 2 ^ 31" "0 < upperLimit" "upperLimit < 2 ^ 31"
  obtains l i where "OrderController timeWindow upperLimit = Inr l" "bucket_ok l"
    "max_permits l = of_i upperLimit" "stored_permits l = of_i upperLimit" "next_free l = 0"
    "permit_interval l = dbl (of_int (timeWindow * 1000) / of_int upperLimit)"
proof -
  let ?w = "of_int (timeWindow * 1000) :: rat" and ?m = "of_int upperLimit :: rat"
  have m: "1 \<le> ?m" "?m \<le> 2 ^ 31" and w: "1 \<le> ?w" "?w \<le> 2 ^ 31"
    using assms of_int_le_iff[of upperLimit "2 ^ 31", where ?'a = rat]
      of_int_le_iff[of "timeWindow * 1000" "2 ^ 31", where ?'a = rat] by auto
  have ex: "of_i upperLimit = Fin ?m" "of_i (timeWindow * 1000) = Fin ?w"
    using assms dbl_of_int[of upperLimit] dbl_of_int[of "timeWindow * 1000"] by (simp_all add: of_i_def)
  have low: "1 / 2 ^ 31 \<le> ?w / ?m" using m w by (intro frac_le) auto
  have "?w / ?m \<le> ?w / 1" using m w by (intro divide_left_mono) auto
  then have high: "?w / ?m \<le> 2 ^ 32" using w by simp
  have pos: "0 \<le> ?w / ?m" using m w by (intro divide_nonneg_nonneg) linarith+
  obtain i where i: "dbl (?w / ?m) = Fin i" "0 \<le> i" "i \<le> 2 ^ 32"
    using dbl_between[OF representable_simps(3) pos high below_overflow[OF order_refl]] by blast
  have "representable (1 / 2 ^ 31)" unfolding representable_def by code_simp
  then have "1 / 2 ^ 31 \<le> i" using dbl_ge[of "1 / 2 ^ 31" "?w / ?m"] low i by auto
  then have "0 < i" by (rule less_le_trans[rotated]) simp
  let ?l = "TokenBucketRateLimiter\<lparr>max_permits := Fin ?m, stored_permits := Fin ?m, permit_interval := Fin i\<rparr>"
  have "in_i32 (timeWindow * 1000)" using assms by (simp add: in_i32_def)
  then have "OrderController timeWindow upperLimit = Inr ?l"
    using ex i m by (simp add: OrderController_def Init_def i32_def dle_def Let_def)
  moreover have "bucket_ok ?l"
  proof -
    have "representable ?m" using assms by (intro representable_of_int) simp
    moreover have "0 \<le> ?m" "?m \<le> 2 ^ 32" using m by simp_all
    ultimately show ?thesis
      unfolding bucket_ok_def using i(3) \<open>0 < i\<close>
      by (intro exI[of _ ?m] exI[of _ i]) simp
  qed
  ultimately show thesis using that ex i by (simp add: TokenBucketRateLimiter_def)
qed

lemma allow_step_outcome:
  assumes "bucket_ok l"
  shows "outcome (\<lambda>e. False) (\<lambda>l'. bucket_ok l' \<and> GetRate l' = GetRate l \<and> permit_interval l' = permit_interval l)
    (allow_step order l)"
proof -
  obtain l' where "Aquire (Fin 1) (order_now order) l = Inr (if next_free l \<le> order_now order then 1 else 0, l')"
    "bucket_ok l'" "permit_interval l' = permit_interval l" "max_permits l' = max_permits l"
    using Aquire_ok[OF assms, of 1] by (metis order_refl representable_simps(2) zero_le_one)
  then show ?thesis by (simp add: allow_step_def allow_def GetRate_def)
qed

interpretation controller: safe_ops allow_step bucket_ok
  "\<lambda>l l'. GetRate l' = GetRate l \<and> permit_interval l' = permit_interval l" "\<lambda>e. False"
  by unfold_locales (use allow_step_outcome in auto)

subsection \<open>Single requests with whole numbers\<close>

lemma of_i_exact: "\<bar>n\<bar> \<le> 2 ^ 53 \<Longrightarrow> of_i n = Fin (of_int n)"
  by (simp add: of_i_def)

lemma to_u64_of_int: "0 \<le> n \<Longrightarrow> n < 2 ^ 64 \<Longrightarrow> to_u64 (Fin (of_int n)) = Some n"
  by (simp add: trunc_def)

lemma dsub_zero: "representable x \<Longrightarrow> x \<le> 2 ^ 32 \<Longrightarrow> 0 \<le> x \<Longrightarrow> dsub (Fin x) (Fin 0) = Fin x"
  using dbl_between[of x x] below_overflow[of x] dbl_Fin[of x]
  by (auto simp: dsub_def representable_def)

lemma dsub_self: "dsub (Fin x) (Fin x) = Fin 0"
  using dbl_of_int[of 0] by (simp add: dsub_def)

text \<open>A request that comes too early is refused, and still pushes the next date back by an interval.\<close>

lemma Aquire_early:
  assumes "now < next_free l" "stored_permits l = Fin 0" "permit_interval l = Fin (of_int n)" "0 \<le> n" "n \<le> 2 ^ 32"
  shows "Aquire (Fin 1) now l = Inr (0, l\<lparr>next_free := next_free l + word_of_int n\<rparr>)"
proof -
  have "Sync now l = l" using assms(1) by (simp add: Sync_def)
  moreover have "dsub (Fin 1) (Fin 0) = Fin 1" "dsub (Fin 0) (Fin 0) = Fin 0"
    using dsub_zero[of 1] dsub_self[of 0] by simp_all
  moreover have "dmul (Fin 1) (Fin (of_int n)) = Fin (of_int n)" using assms(4,5) by simp
  moreover have "to_u64 (Fin (of_int n)) = Some n" using assms(4,5) by (intro to_u64_of_int) simp_all
  ultimately obtain w where claim: "ClaimNext (Fin 1) now l = Inr (w, l\<lparr>next_free := next_free l + word_of_int n\<rparr>)"
    using assms(2,3) by (simp add: ClaimNext_def Let_def dmin_Fin)
  then obtain r where "Aquire (Fin 1) now l = Inr (r, l\<lparr>next_free := next_free l + word_of_int n\<rparr>)"
    by (simp add: Aquire_def)
  then show ?thesis using Aquire_result assms(1) by fastforce
qed

text \<open>A bucket for one token is full again one interval after the last date.\<close>

lemma Sync_full:
  assumes "max_permits l = Fin 1" "stored_permits l = Fin s" "permit_interval l = Fin (of_int n)"
    and "0 < n" "n \<le> 2 ^ 32" "0 \<le> s" "s \<le> 1" "next_free l < now"
    and "s = 1 \<or> n \<le> uint (now - next_free l)"
  shows "Sync now l = l\<lparr>stored_permits := Fin 1, next_free := now\<rparr>"
proof -
  let ?d = "uint (now - next_free l)"
  let ?step = "ddiv (of_i ?d) (Fin (of_int n))"
  have pos: "0 < (of_int n :: rat)" using assms(4) by simp
  have nn: "nonneg ?step" using pos by (intro nonneg_ddiv step_nonneg)
  have "?step = PInf \<or> (\<exists>r. ?step = Fin r \<and> 1 \<le> s + r)"
  proof (cases "s = 1")
    case True
    then show ?thesis using nn by (auto simp: nonneg_def)
  next
    case False
    have "representable (of_int n)" using assms(4,5) by (intro representable_of_int) simp
    moreover have "(of_int n :: rat) \<le> of_int ?d" unfolding of_int_le_iff using False assms(9) by blast
    ultimately have "of_i ?d = PInf \<or> (\<exists>r. of_i ?d = Fin r \<and> of_int n \<le> r)"
      unfolding of_i_def using pos by (intro dbl_ge) auto
    moreover have "dbl (r / of_int n) = PInf \<or> (\<exists>q. dbl (r / of_int n) = Fin q \<and> 1 \<le> q)" if "of_int n \<le> r" for r
      using that pos by (intro dbl_ge) simp_all
    ultimately show ?thesis using pos assms(6) by fastforce
  qed
  then have "dadd (Fin s) ?step = PInf \<or> (\<exists>r. dadd (Fin s) ?step = Fin r \<and> 1 \<le> r)"
    using dbl_ge[OF representable_simps(2)] by (elim disjE exE conjE) simp_all
  then have "dmin (Fin 1) (dadd (Fin s) ?step) = Fin 1" by (auto simp: dmin_def)
  then show ?thesis using assms(1-3,8) by (simp add: Sync_def Let_def)
qed

lemma Aquire_full:
  assumes "Sync now l = l\<lparr>stored_permits := Fin 1, next_free := now\<rparr>" "next_free l \<le> now"
    and "permit_interval l = Fin (of_int n)" "0 < n" "n \<le> 2 ^ 32"
  shows "Aquire (Fin 1) now l = Inr (1, l\<lparr>stored_permits := Fin 0, next_free := now\<rparr>)"
proof -
  have "dmul (Fin 0) (Fin (of_int n)) = Fin 0" using dbl_of_int[of 0] by simp
  moreover have "to_u64 (Fin 0) = Some 0" using to_u64_of_int[of 0] by simp
  ultimately have claim: "ClaimNext (Fin 1) now l = Inr (0, l\<lparr>stored_permits := Fin 0, next_free := now\<rparr>)"
    using assms(1,3) by (simp add: ClaimNext_def Let_def dmin_Fin dsub_self)
  then obtain r where "Aquire (Fin 1) now l = Inr (r, l\<lparr>stored_permits := Fin 0, next_free := now\<rparr>)"
    by (simp add: Aquire_def)
  then show ?thesis using Aquire_result assms(2) by fastforce
qed

lemma Aquire_paced:
  assumes "max_permits l = Fin 1" "stored_permits l = Fin s" "permit_interval l = Fin (of_int n)"
    and "0 < n" "n \<le> 2 ^ 32" "0 \<le> s" "s \<le> 1" "uint (next_free l) + n \<le> uint now"
  shows "Aquire (Fin 1) now l = Inr (1, l\<lparr>stored_permits := Fin 0, next_free := now\<rparr>)"
proof -
  have lt: "next_free l < now" using assms(4,8) by (simp add: word_less_def)
  then have "uint (now - next_free l) = uint now - uint (next_free l)"
    by (simp add: uint_sub_lem[THEN iffD1] word_less_def)
  then have "n \<le> uint (now - next_free l)" using assms(8) by simp
  then have "Sync now l = l\<lparr>stored_permits := Fin 1, next_free := now\<rparr>"
    using assms lt by (intro Sync_full) auto
  then show ?thesis using lt assms(3-5) by (intro Aquire_full) auto
qed

subsection \<open>Properties\<close>

text \<open>C37: for a positive window and limit that fit, the controller can be built and then answers
  every sequence of requests without a fault; its bucket always holds between zero and the limit,
  and its rate never changes.\<close>

theorem controller_answers:
  assumes "0 < timeWindow" "timeWindow * 1000 < 2 ^ 31" "0 < upperLimit" "upperLimit < 2 ^ 31"
  shows "\<exists>l. OrderController timeWindow upperLimit = Inr l \<and>
    (\<forall>orders. \<exists>l'. steps allow_step orders l = Inr l' \<and> bucket_ok l' \<and> GetRate l' = of_i upperLimit)"
proof -
  obtain l where l: "OrderController timeWindow upperLimit = Inr l" "bucket_ok l" "max_permits l = of_i upperLimit"
    using OrderController_ok[OF assms] by metis
  have "\<exists>l'. steps allow_step orders l = Inr l' \<and> bucket_ok l' \<and> GetRate l' = of_i upperLimit" for orders
    using controller.steps_safe[OF l(2), of orders] l(3)
    by (cases "steps allow_step orders l") (auto simp: GetRate_def)
  with l(1) show ?thesis by blast
qed

theorem controller_answers_witness:
  "\<exists>l. OrderController 3 1 = Inr l \<and>
    (\<forall>orders. \<exists>l'. steps allow_step orders l = Inr l' \<and> bucket_ok l' \<and> GetRate l' = of_i 1)"
  by (rule controller_answers) simp_all

text \<open>A request is granted exactly when its time is not before the date that the bucket is free
  from; the number of tokens plays no part in the answer, only in the next date.\<close>

theorem Aquire_grants:
  assumes "Aquire permits now l = Inr (r, l')"
  shows "r = (if next_free l \<le> now then 1 else 0)"
  using assms by (rule Aquire_result)

theorem Aquire_grants_witness:
  "\<exists>l'. Aquire (Fin 1) 5 (TokenBucketRateLimiter\<lparr>next_free := 9, stored_permits := Fin 0\<rparr>) = Inr (0, l')"
proof -
  let ?l = "TokenBucketRateLimiter\<lparr>next_free := 9, stored_permits := Fin 0\<rparr>"
  have "yields (\<lambda>_. True) (Aquire (Fin 1) 5 ?l)" by code_simp
  then obtain r l' where "Aquire (Fin 1) 5 ?l = Inr (r, l')" by (auto elim!: yieldsE)
  with Aquire_grants[OF this] show ?thesis by simp
qed

fun gaps_at_most :: "int \<Rightarrow> u64 \<Rightarrow> u64 list \<Rightarrow> bool" where
  "gaps_at_most n t [] = True"
| "gaps_at_most n t (u # us) = (uint u \<le> uint t + n \<and> gaps_at_most n u us)"

fun gaps_at_least :: "int \<Rightarrow> u64 \<Rightarrow> u64 list \<Rightarrow> bool" where
  "gaps_at_least n t [] = True"
| "gaps_at_least n t (u # us) = (uint t + n \<le> uint u \<and> gaps_at_least n u us)"

text \<open>C38: starvation. Once the bucket is empty and a request has come too early, a client that keeps
  asking at least once per interval is refused for ever: each refusal pushes the next date back by a
  whole interval.\<close>

theorem eager_client_starves:
  assumes "stored_permits l = Fin 0" "permit_interval l = Fin (of_int n)" "0 \<le> n" "n \<le> 2 ^ 32"
    and "uint now < uint (next_free l)" "gaps_at_most n now nows"
    and "uint (next_free l) + n * int (length (now # nows)) < 2 ^ 64"
  shows "aquire_all (now # nows) l = Inr (replicate (length (now # nows)) 0)"
  using assms
proof (induction nows arbitrary: now l)
  case Nil
  then show ?case using Aquire_early[of now l n] by (simp add: word_less_def)
next
  case (Cons u us)
  let ?l = "l\<lparr>next_free := next_free l + word_of_int n\<rparr>"
  have len: "n * int (length (now # u # us)) = n + n * int (length (u # us))" by (simp add: algebra_simps)
  have nn: "0 \<le> n * int (length (u # us))" using Cons.prems(3) by simp
  have "uint (next_free l + word_of_int n) = (uint (next_free l) + n) mod 2 ^ 64"
    by (simp add: uint_word_ariths uint_word_of_int_eq take_bit_eq_mod mod_add_right_eq)
  also have "\<dots> = uint (next_free l) + n"
  proof (rule mod_pos_pos_trivial)
    show "0 \<le> uint (next_free l) + n" by (rule add_nonneg_nonneg[OF unsigned_greater_eq Cons.prems(3)])
    show "uint (next_free l) + n < 2 ^ 64" using Cons.prems(7) len nn by linarith
  qed
  finally have nf: "uint (next_free ?l) = uint (next_free l) + n" by simp
  have "aquire_all (u # us) ?l = Inr (replicate (length (u # us)) 0)"
    using Cons.prems nf len by (intro Cons.IH) simp_all
  moreover have "Aquire (Fin 1) now l = Inr (0, ?l)"
    using Cons.prems by (intro Aquire_early) (simp_all add: word_less_def)
  ultimately show ?case by simp
qed

theorem eager_client_starves_witness:
  "aquire_all [5, 105, 205] (TokenBucketRateLimiter\<lparr>next_free := 9, stored_permits := Fin 0, permit_interval := Fin 100\<rparr>)
     = Inr [0, 0, 0]"
  using eager_client_starves[of "TokenBucketRateLimiter\<lparr>next_free := 9, stored_permits := Fin 0, permit_interval := Fin 100\<rparr>"
      100 5 "[105, 205]"] by simp

text \<open>C39: a client that waits an interval between its requests is always granted them, from a bucket
  for one token.\<close>

theorem patient_client_passes:
  assumes "max_permits l = Fin 1" "stored_permits l = Fin s" "permit_interval l = Fin (of_int n)"
    and "0 < n" "n \<le> 2 ^ 32" "0 \<le> s" "s \<le> 1" "gaps_at_least n (next_free l) nows"
  shows "aquire_all nows l = Inr (replicate (length nows) 1)"
  using assms
proof (induction nows arbitrary: l s)
  case (Cons u us)
  let ?l = "l\<lparr>stored_permits := Fin 0, next_free := u\<rparr>"
  have "Aquire (Fin 1) u l = Inr (1, ?l)" using Cons.prems by (intro Aquire_paced[where s = s and n = n]) simp_all
  moreover have "aquire_all us ?l = Inr (replicate (length us) 1)"
    using Cons.prems by (intro Cons.IH[where s = 0]) simp_all
  ultimately show ?case by simp
qed simp

theorem patient_client_passes_witness:
  "aquire_all [1000000, 2000000] (TokenBucketRateLimiter\<lparr>permit_interval := Fin 1000000\<rparr>) = Inr [1, 1]"
  using patient_client_passes[of "TokenBucketRateLimiter\<lparr>permit_interval := Fin 1000000\<rparr>" 1 1000000 "[1000000, 2000000]"]
  by (simp add: TokenBucketRateLimiter_def)

text \<open>With one token in the bucket, two requests at the same time are both granted, so a limit of
  one request per window lets two through.\<close>

theorem burst_exceeds_limit:
  assumes "bucket_ok l" "next_free l \<le> now" "stored_permits (Sync now l) = Fin s" "1 \<le> s"
  shows "\<exists>l1 l2. Aquire (Fin 1) now l = Inr (1, l1) \<and> Aquire (Fin 1) now l1 = Inr (1, l2)"
proof -
  obtain i where i: "permit_interval (Sync now l) = Fin i" using Sync_ok(1)[OF assms(1)] by (auto simp: bucket_ok_def)
  have nf: "next_free (Sync now l) = now" using assms(2) by (simp add: next_free_Sync max_def)
  have "dmul (Fin 0) (Fin i) = Fin 0" using dbl_of_int[of 0] by simp
  moreover have "to_u64 (Fin 0) = Some 0" using to_u64_of_int[of 0] by simp
  ultimately have "\<exists>w l1. ClaimNext (Fin 1) now l = Inr (w, l1) \<and> next_free l1 = now"
    using assms(3,4) i nf by (simp add: ClaimNext_def Let_def dmin_Fin min_def dsub_self)
  then obtain r l1 where l1: "Aquire (Fin 1) now l = Inr (r, l1)" "next_free l1 = now"
    by (auto simp: Aquire_def)
  obtain l1' where "Aquire (Fin 1) now l = Inr (if next_free l \<le> now then 1 else 0, l1')" "bucket_ok l1'"
    using Aquire_ok[OF assms(1), of 1 now] by auto
  then have ok: "bucket_ok l1" and r: "r = 1" using l1 assms(2) by auto
  from Aquire_ok[OF ok, of 1 now] obtain l2 where "Aquire (Fin 1) now l1 = Inr (1, l2)"
    using l1(2) by auto
  with l1 r show ?thesis by blast
qed

lemma controller_3_1:
  "OrderController 3 1 = Inr \<lparr>permit_interval = Fin 3000, max_permits = Fin 1, stored_permits = Fin 1, next_free = 0\<rparr>"
  using dbl_of_int[of 1] dbl_of_int[of 3000]
  by (simp add: OrderController_def Init_def TokenBucketRateLimiter_def i32_def in_i32_def of_i_def dle_def Let_def)

theorem burst_exceeds_limit_witness:
  "\<exists>l l1 l2. OrderController 3 1 = Inr l \<and> Aquire (Fin 1) 0 l = Inr (1, l1) \<and> Aquire (Fin 1) 0 l1 = Inr (1, l2)"
proof -
  obtain l where l: "OrderController 3 1 = Inr l" "bucket_ok l" using OrderController_ok[of 3 1] by auto
  then have "l = \<lparr>permit_interval = Fin 3000, max_permits = Fin 1, stored_permits = Fin 1, next_free = 0\<rparr>"
    using controller_3_1 by simp
  then show ?thesis using burst_exceeds_limit[OF l(2), of 0 1] l(1) by (simp add: Sync_def)
qed

text \<open>The program of \<open>main.cc\<close> grants its first two requests and refuses the other nine, as its
  comments say.\<close>

theorem limiter_main_prints:
  "limiter_main = Inr [True, True, False, False, False, False, False, False, False, False, False]"
proof -
  let ?l = "\<lambda>s t. \<lparr>permit_interval = Fin 3000, max_permits = Fin 1, stored_permits = Fin s, next_free = t\<rparr>"
  have "Aquire (Fin 1) 1000 (?l 1 0) = Inr (1, ?l 0 1000)"
    using Aquire_full[OF Sync_full[of "?l 1 0" 1 3000 1000], of 3000] by simp
  moreover have "Aquire (Fin 1) 4000 (?l 0 1000) = Inr (1, ?l 0 4000)"
    using Aquire_paced[of "?l 0 1000" 0 3000 4000] by simp
  moreover have "Aquire (Fin 1) now (?l 0 t) = Inr (0, ?l 0 (t + 3000))" if "now < t" for now t
    using Aquire_early[of now "?l 0 t" 3000] that by simp
  ultimately show ?thesis
    by (simp add: limiter_main_def controller_3_1 allow_def OrderRequest_def order_now_def)
qed

text \<open>C40: a limit of zero is meant to count as one, but the interval is still divided by zero, and the
  first request that finds a token makes the limiter convert a NaN to \<open>uint64_t\<close>.\<close>

theorem zero_limit_faults:
  assumes "0 < timeWindow" "timeWindow * 1000 < 2 ^ 31"
  shows "\<exists>l. OrderController timeWindow 0 = Inr l \<and> GetRate l = Fin 1 \<and> Aquire (Fin 1) now l = Inl BadCast"
proof -
  have "of_i 0 = Fin 0" "of_i (timeWindow * 1000) = Fin (of_int (timeWindow * 1000))"
    using of_i_exact[of 0] of_i_exact[of "timeWindow * 1000"] assms by simp_all
  then have l: "OrderController timeWindow 0 =
      Inr (TokenBucketRateLimiter\<lparr>max_permits := Fin 1, stored_permits := Fin 1, permit_interval := PInf\<rparr>)"
    (is "_ = Inr ?l")
    using assms by (simp add: OrderController_def Init_def i32_def in_i32_def dle_def Let_def inf_of_sign_def)
  have "ddiv (of_i (uint d)) PInf = Fin 0 \<or> ddiv (of_i (uint d)) PInf = NaN" for d :: u64
    using step_nonneg[of d] by (auto simp: nonneg_def)
  from this[of now] have "stored_permits (Sync now ?l) = Fin 1 \<and> permit_interval (Sync now ?l) = PInf"
    using dbl_of_int[of 1]
    by (elim disjE) (simp_all add: Sync_def Let_def TokenBucketRateLimiter_def dmin_def)
  then have "Aquire (Fin 1) now ?l = Inl BadCast"
    by (simp add: Aquire_def ClaimNext_def Let_def dmin_Fin dsub_self inf_of_sign_def)
  with l show ?thesis by (auto simp: GetRate_def)
qed

theorem zero_limit_faults_witness:
  "\<exists>l. OrderController 3 0 = Inr l \<and> GetRate l = Fin 1 \<and> Aquire (Fin 1) 7 l = Inl BadCast"
  by (rule zero_limit_faults) simp_all

text \<open>The controller's clock wraps: milliseconds are multiplied by 1000 in 32 bits, so the time
  that the limiter sees never reaches $2^{32}$ microseconds, and goes back to 704 when the request
  after millisecond 4294967 arrives.\<close>

theorem order_clock_wraps:
  "uint (order_now ts) = (uint ts * 1000) mod 2 ^ 32
   \<and> order_now (OrderRequest 4294967) = 4294967000 \<and> order_now (OrderRequest 4294968) = 704"
  by (simp add: order_now_def OrderRequest_def unsigned_ucast_eq uint_word_ariths take_bit_eq_mod)

end
