(* ===== verification/Thread_Pool.thy ===== *)
theory Thread_Pool
  imports Prelude
begin

section \<open>The thread pool as a state machine\<close>

text \<open>
  \<^verbatim>\<open>src/include/threadpool.h\<close>. Workers, clients that submit, the thread that sizes the pool and
  the one that destroys it run in any interleaving. An event is one atomic action of one of them;
  \<open>fire\<close> says what it does, \<open>None\<close> that it cannot happen now (the lock is taken, the thread is
  asleep). \<open>run_\<close> and \<open>idlThrNum_\<close> are atomics and change at any time; \<open>tasks_\<close> is only touched
  under \<open>lock_\<close>. Waiting on the condition variable releases the lock and puts the worker to
  sleep in one action; a worker that is woken, by a notification or spuriously, takes the lock
  again and tests the predicate again. A task is a number; running it is one action.
\<close>

definition THREADPOOL_MAX_NUM :: nat where
  "THREADPOOL_MAX_NUM = 16"

type_synonym task = nat

text \<open>Where a worker is in its loop. In \<open>Check\<close>, \<open>Block\<close> and \<open>Test\<close> it holds the lock.\<close>

datatype worker =
    Loop \<comment> \<open>before \<open>while (run_)\<close>\<close>
  | Acquire \<comment> \<open>before \<open>unique_lock lock\<close>\<close>
  | Check \<comment> \<open>before the predicate of \<open>wait\<close>\<close>
  | Block \<comment> \<open>the predicate was false\<close>
  | Blocked \<comment> \<open>asleep\<close>
  | Woken
  | Test \<comment> \<open>the predicate was true; before \<open>if (!run_ && tasks_.empty())\<close>\<close>
  | Start task \<comment> \<open>before \<open>idlThrNum_--\<close>\<close>
  | Exec task \<comment> \<open>before \<open>task()\<close>\<close>
  | Finish \<comment> \<open>before \<open>idlThrNum_++\<close>\<close>
  | Exited

datatype destroyer = Alive | Stopped | Joining nat

record pool =
  tasks :: "task list"
  run :: bool
  idle :: int
  workers :: "worker list"
  holder :: "nat option" \<comment> \<open>the worker that holds the lock\<close>
  adders :: "task list" \<comment> \<open>clients past the test of \<open>run_\<close>, before the lock\<close>
  notifiers :: nat \<comment> \<open>clients before \<open>notify_one\<close>\<close>
  to_start :: nat \<comment> \<open>what is left of the argument of \<open>InitThreadSize\<close>\<close>
  counting :: bool \<comment> \<open>a thread is made, \<open>idlThrNum_++\<close> is still to come\<close>
  destroyer :: destroyer
  submitted :: "task list"
  taken :: "task list"
  executed :: "task list"

datatype event =
    InitThreadSize nat | Spawn | Count
  | AddTask task | Push nat | NotifyOne "nat option"
  | Work nat \<comment> \<open>the next action of a worker\<close>
  | Spurious nat
  | Stop | NotifyAll | Join

definition new_pool :: pool where
  "new_pool = \<lparr>tasks = [], run = True, idle = 0, workers = [], holder = None, adders = [], notifiers = 0,
     to_start = 0, counting = False, destroyer = Alive, submitted = [], taken = [], executed = []\<rparr>"

definition set_worker :: "nat \<Rightarrow> worker \<Rightarrow> pool \<Rightarrow> pool" where
  "set_worker i w s = s\<lparr>workers := (workers s)[i := w]\<rparr>"

text \<open>The body of the worker's loop, one action at a time.\<close>

definition work :: "nat \<Rightarrow> pool \<Rightarrow> (fault + pool) option" where
  "work i s =
     (case workers s ! i of
        Loop \<Rightarrow> Some (Inr (set_worker i (if run s then Acquire else Exited) s))
      | Acquire \<Rightarrow> if holder s = None then Some (Inr (set_worker i Check (s\<lparr>holder := Some i\<rparr>))) else None
      | Check \<Rightarrow> Some (Inr (set_worker i (if \<not> run s \<or> tasks s \<noteq> [] then Test else Block) s))
      | Block \<Rightarrow> Some (Inr (set_worker i Blocked (s\<lparr>holder := None\<rparr>)))
      | Blocked \<Rightarrow> None
      | Woken \<Rightarrow> if holder s = None then Some (Inr (set_worker i Check (s\<lparr>holder := Some i\<rparr>))) else None
      | Test \<Rightarrow>
          if \<not> run s \<and> tasks s = [] then Some (Inr (set_worker i Exited (s\<lparr>holder := None\<rparr>)))
          else (case tasks s of
                  [] \<Rightarrow> Some (Inl OutOfBounds)
                | t # ts \<Rightarrow> Some (Inr (set_worker i (Start t)
                    (s\<lparr>tasks := ts, taken := taken s @ [t], holder := None\<rparr>))))
      | Start t \<Rightarrow> Some (Inr (set_worker i (Exec t) (s\<lparr>idle := idle s - 1\<rparr>)))
      | Exec t \<Rightarrow> Some (Inr (set_worker i Finish (s\<lparr>executed := executed s @ [t]\<rparr>)))
      | Finish \<Rightarrow> Some (Inr (set_worker i Loop (s\<lparr>idle := idle s + 1\<rparr>)))
      | Exited \<Rightarrow> None)"

definition wake :: "nat \<Rightarrow> pool \<Rightarrow> pool" where
  "wake i s = set_worker i Woken s"

fun fire :: "event \<Rightarrow> pool \<Rightarrow> (fault + pool) option" where
  "fire (InitThreadSize n) s =
     (if to_start s = 0 \<and> \<not> counting s \<and> destroyer s = Alive then Some (Inr (s\<lparr>to_start := n\<rparr>)) else None)"
| "fire Spawn s =
     (if 0 < to_start s \<and> \<not> counting s
      then Some (Inr (if length (workers s) < THREADPOOL_MAX_NUM
                      then s\<lparr>workers := workers s @ [Loop], counting := True\<rparr> else s\<lparr>to_start := 0\<rparr>))
      else None)"
| "fire Count s =
     (if counting s then Some (Inr (s\<lparr>idle := idle s + 1, counting := False, to_start := to_start s - 1\<rparr>)) else None)"
| "fire (AddTask t) s =
     Some (if run s then Inr (s\<lparr>adders := adders s @ [t]\<rparr>)
           else Inl (RuntimeError ''AddTask on ThreadPool is stopped.''))"
| "fire (Push j) s =
     (if j < length (adders s) \<and> holder s = None
      then let t = adders s ! j
           in Some (Inr (s\<lparr>adders := take j (adders s) @ drop (Suc j) (adders s),
                       tasks := tasks s @ [t], submitted := submitted s @ [t], notifiers := Suc (notifiers s)\<rparr>))
      else None)"
| "fire (NotifyOne None) s =
     (if 0 < notifiers s \<and> Blocked \<notin> set (workers s) then Some (Inr (s\<lparr>notifiers := notifiers s - 1\<rparr>)) else None)"
| "fire (NotifyOne (Some i)) s =
     (if 0 < notifiers s \<and> i < length (workers s) \<and> workers s ! i = Blocked
      then Some (Inr (wake i (s\<lparr>notifiers := notifiers s - 1\<rparr>))) else None)"
| "fire (Work i) s = (if i < length (workers s) then work i s else None)"
| "fire (Spurious i) s =
     (if i < length (workers s) \<and> workers s ! i = Blocked then Some (Inr (wake i s)) else None)"
| "fire Stop s = (if destroyer s = Alive \<and> to_start s = 0 \<and> \<not> counting s then Some (Inr (s\<lparr>run := False, destroyer := Stopped\<rparr>)) else None)"
| "fire NotifyAll s =
     (if destroyer s = Stopped
      then Some (Inr (s\<lparr>workers := map (\<lambda>w. if w = Blocked then Woken else w) (workers s), destroyer := Joining 0\<rparr>))
      else None)"
| "fire Join s =
     (case destroyer s of
        Joining k \<Rightarrow> if k < length (workers s) \<and> workers s ! k = Exited
                     then Some (Inr (s\<lparr>destroyer := Joining (Suc k)\<rparr>)) else None
      | _ \<Rightarrow> None)"

text \<open>The counters that the class offers.\<close>

definition IdlCount :: "pool \<Rightarrow> int" where
  "IdlCount s = idle s"

definition ThrCount :: "pool \<Rightarrow> nat" where
  "ThrCount s = length (workers s)"

definition TaskCount :: "pool \<Rightarrow> nat" where
  "TaskCount s = length (tasks s)"

inductive reachable :: "pool \<Rightarrow> bool" where
  reachable_new: "reachable new_pool"
| reachable_step: "reachable s \<Longrightarrow> fire e s = Some (Inr s') \<Longrightarrow> reachable s'"

subsection \<open>The lock, and what is known under it\<close>

definition holding :: "worker \<Rightarrow> bool" where
  "holding w \<longleftrightarrow> w \<in> {Check, Block, Test}"

definition lock_inv :: "pool \<Rightarrow> bool" where
  "lock_inv s \<longleftrightarrow>
     (\<forall>i < length (workers s). holding (workers s ! i) \<longleftrightarrow> holder s = Some i) \<and>
     (\<forall>i. holder s = Some i \<longrightarrow> i < length (workers s)) \<and>
     (\<forall>i < length (workers s). workers s ! i = Test \<longrightarrow> tasks s \<noteq> [] \<or> \<not> run s) \<and>
     (\<forall>i < length (workers s). workers s ! i = Block \<longrightarrow> tasks s = [])"

lemma holding_simps [simp]:
  "\<not> holding Loop" "\<not> holding Acquire" "holding Check" "holding Block" "\<not> holding Blocked" "\<not> holding Woken"
  "holding Test" "\<not> holding (Start t)" "\<not> holding (Exec t)" "\<not> holding Finish" "\<not> holding Exited"
  by (simp_all add: holding_def)

lemma nth_wake_all:
  "i < length ws \<Longrightarrow> map (\<lambda>w. if w = Blocked then Woken else w) ws ! i = (if ws ! i = Blocked then Woken else ws ! i)"
  by simp

lemma lock_inv_update:
  assumes inv: "lock_inv s" and i: "i < length (workers s)"
    and h: "holder s = Some i \<or> holder s = None"
    and w: "holding w \<longleftrightarrow> holder s' = Some i" "holder s' = Some i \<or> holder s' = None"
      "w = Test \<longrightarrow> tasks s' \<noteq> [] \<or> \<not> run s'" "w = Block \<longrightarrow> tasks s' = []"
    and s': "workers s' = (workers s)[i := w]"
  shows "lock_inv s'"
proof -
  have "\<not> holding (workers s ! j)" if "j < length (workers s)" "j \<noteq> i" for j
    using inv h that by (auto simp: lock_inv_def)
  then show ?thesis
    using i w by (fastforce simp: lock_inv_def s' nth_list_update)
qed

lemma lock_inv_other:
  assumes inv: "lock_inv s" and i: "i < length (workers s)" "\<not> holding (workers s ! i)" "\<not> holding w"
    and s': "workers s' = (workers s)[i := w]" "holder s' = holder s" "tasks s' = tasks s" "run s' = run s"
  shows "lock_inv s'"
  using assms by (fastforce simp: lock_inv_def nth_list_update)

lemma work_lock_inv:
  assumes inv: "lock_inv s" and i: "i < length (workers s)" and w: "work i s = Some (Inr s')"
  shows "lock_inv s'"
proof (cases "holding (workers s ! i)")
  case True
  then have "holder s = Some i" using inv i by (auto simp: lock_inv_def)
  then show ?thesis
    using True w i
    by (intro lock_inv_update[OF inv i, where w = "workers s' ! i"])
      (auto simp: work_def set_worker_def holding_def split: worker.splits if_splits list.splits)
next
  case False
  show ?thesis
  proof (cases "workers s ! i \<in> {Acquire, Woken}")
    case True
    then show ?thesis
      using w by (intro lock_inv_update[OF inv i, where w = Check])
        (auto simp: work_def set_worker_def split: if_splits)
  next
    case other: False
    then show ?thesis
      using False w i
      by (intro lock_inv_other[OF inv i False, where w = "workers s' ! i"])
        (auto simp: work_def set_worker_def holding_def split: worker.splits if_splits list.splits)
  qed
qed

lemma fire_lock_inv:
  assumes inv: "lock_inv s" and f: "fire e s = Some (Inr s')"
  shows "lock_inv s'"
proof (cases e)
  case (Work i)
  then show ?thesis using f work_lock_inv[OF inv] by (auto split: if_splits)
next
  case (NotifyOne k)
  show ?thesis
  proof (cases k)
    case None
    then show ?thesis using f inv NotifyOne by (auto simp: lock_inv_def split: if_splits)
  next
    case (Some i)
    then show ?thesis
      using f NotifyOne lock_inv_other[OF inv, where w = Woken] by (auto simp: wake_def set_worker_def split: if_splits)
  qed
next
  case (Spurious i)
  then show ?thesis
    using f lock_inv_other[OF inv, where w = Woken] by (auto simp: wake_def set_worker_def split: if_splits)
next
  case NotifyAll
  then show ?thesis using f inv by (fastforce simp: lock_inv_def nth_wake_all split: if_splits)
next
  case Spawn
  then show ?thesis using f inv by (auto simp: lock_inv_def nth_append less_Suc_eq split: if_splits)
next
  case (Push j)
  then show ?thesis using f inv by (auto simp: lock_inv_def Let_def holding_def split: if_splits)
qed (use f inv in \<open>auto simp: lock_inv_def split: if_splits destroyer.splits\<close>)

subsection \<open>The queue, the counters, and the end\<close>

definition in_hand :: "worker \<Rightarrow> task list" where
  "in_hand w = (case w of Start t \<Rightarrow> [t] | Exec t \<Rightarrow> [t] | _ \<Rightarrow> [])"

definition busy :: "worker \<Rightarrow> bool" where
  "busy w = (case w of Exec t \<Rightarrow> True | Finish \<Rightarrow> True | _ \<Rightarrow> False)"

definition hand_inv :: "pool \<Rightarrow> bool" where
  "hand_inv s \<longleftrightarrow> mset (taken s) = mset (executed s) + mset (concat (map in_hand (workers s)))"

definition fifo_inv :: "pool \<Rightarrow> bool" where
  "fifo_inv s \<longleftrightarrow> submitted s = taken s @ tasks s \<and> hand_inv s"

definition count_inv :: "pool \<Rightarrow> bool" where
  "count_inv s \<longleftrightarrow> length (workers s) \<le> THREADPOOL_MAX_NUM
     \<and> idle s = int (length (workers s)) - int (length (filter busy (workers s))) - (if counting s then 1 else 0)"

definition run_inv :: "pool \<Rightarrow> bool" where
  "run_inv s \<longleftrightarrow> (run s \<longleftrightarrow> destroyer s = Alive) \<and> (run s \<longrightarrow> Exited \<notin> set (workers s))
     \<and> (destroyer s \<noteq> Alive \<longrightarrow> to_start s = 0 \<and> \<not> counting s)"

definition wake_inv :: "pool \<Rightarrow> bool" where
  "wake_inv s \<longleftrightarrow> (tasks s \<noteq> [] \<and> run s \<longrightarrow>
     workers s = [] \<or> 0 < notifiers s \<or> (\<exists>w \<in> set (workers s). w \<noteq> Blocked))"

lemma in_hand_update:
  "i < length ws \<Longrightarrow>
   mset (concat (map in_hand (ws[i := w]))) + mset (in_hand (ws ! i)) = mset (concat (map in_hand ws)) + mset (in_hand w)"
  by (induction ws arbitrary: i) (auto split: nat.splits)

lemma busy_update:
  "i < length ws \<Longrightarrow>
   int (length (filter busy (ws[i := w]))) + of_bool (busy (ws ! i)) = int (length (filter busy ws)) + of_bool (busy w)"
proof (induction ws arbitrary: i)
  case (Cons a ws)
  then show ?case by (cases i) (auto simp del: of_bool_eq_iff split: if_splits)
qed simp

lemma in_hand_wake_all: "map in_hand (map (\<lambda>w. if w = Blocked then Woken else w) ws) = map in_hand ws"
  by (auto simp: in_hand_def)

lemma busy_wake_all: "filter (busy \<circ> (\<lambda>w. if w = Blocked then Woken else w)) ws = filter busy ws"
  by (rule filter_cong) (auto simp: busy_def)

lemma work_hand_inv:
  assumes inv: "hand_inv s" and i: "i < length (workers s)" and w: "work i s = Some (Inr s')"
  shows "hand_inv s'"
proof -
  have up: "workers s' = (workers s)[i := workers s' ! i]"
    using w i by (auto simp: work_def set_worker_def split: worker.splits if_splits list.splits)
  let ?a = "mset (in_hand (workers s ! i))" and ?b = "mset (in_hand (workers s' ! i))"
  let ?H = "mset (concat (map in_hand (workers s)))" and ?H' = "mset (concat (map in_hand (workers s')))"
  have "mset (taken s') + (mset (executed s) + ?a) = mset (taken s) + mset (executed s') + ?b"
    using w i by (auto simp: work_def set_worker_def in_hand_def split: worker.splits if_splits list.splits)
  also have "\<dots> = mset (executed s) + mset (executed s') + (?H + ?b)"
    using inv by (simp add: hand_inv_def ac_simps)
  also have "?H + ?b = ?H' + ?a" using in_hand_update[OF i, of "workers s' ! i"] up by simp
  finally have "mset (taken s') + (mset (executed s) + ?a) = (mset (executed s') + ?H') + (mset (executed s) + ?a)"
    by (simp add: ac_simps)
  then show ?thesis unfolding hand_inv_def by (rule add_right_imp_eq)
qed

lemma fire_hand_inv:
  assumes inv: "hand_inv s" and f: "fire e s = Some (Inr s')"
  shows "hand_inv s'"
proof (cases e)
  case (Work i)
  then show ?thesis using f work_hand_inv[OF inv] by (auto split: if_splits)
next
  case (NotifyOne k)
  then show ?thesis
    using f inv in_hand_update[where w = Woken and ws = "workers s"]
    by (cases k) (fastforce simp: wake_def set_worker_def hand_inv_def in_hand_def split: if_splits)+
next
  case (Spurious i)
  then show ?thesis
    using f inv in_hand_update[where w = Woken and ws = "workers s"]
    by (fastforce simp: wake_def set_worker_def hand_inv_def in_hand_def split: if_splits)
next
  case NotifyAll
  then show ?thesis using f inv unfolding hand_inv_def by (auto simp: in_hand_wake_all simp del: map_map split: if_splits)
next
  case Spawn
  then show ?thesis using f inv by (auto simp: hand_inv_def in_hand_def split: if_splits)
next
  case (Push j)
  then show ?thesis using f inv by (auto simp: hand_inv_def Let_def split: if_splits)
qed (use f inv in \<open>auto simp: hand_inv_def split: if_splits destroyer.splits\<close>)

text \<open>Nothing but a submission adds to the queue, at its end; workers take from its front.\<close>

lemma fire_queue:
  assumes "fire e s = Some (Inr s')"
  obtains new where "submitted s' = submitted s @ new" "taken s' @ tasks s' = taken s @ tasks s @ new"
proof -
  have "\<exists>new. submitted s' = submitted s @ new \<and> taken s' @ tasks s' = taken s @ tasks s @ new"
  proof (cases e)
    case (Work i)
    then show ?thesis using assms
      by (auto simp: work_def set_worker_def split: worker.splits if_splits list.splits)
  next
    case (NotifyOne k)
    then show ?thesis using assms by (cases k) (auto simp: wake_def set_worker_def split: if_splits)
  next
    case (Push j)
    then show ?thesis using assms by (auto simp: Let_def split: if_splits)
  qed (use assms in \<open>auto simp: wake_def set_worker_def split: if_splits destroyer.splits\<close>)
  then show thesis using that by blast
qed

lemma fire_fifo_inv: "fifo_inv s \<Longrightarrow> fire e s = Some (Inr s') \<Longrightarrow> fifo_inv s'"
  using fire_queue[of e s s'] fire_hand_inv[of s e s'] unfolding fifo_inv_def by (metis append.assoc)

lemma work_count_inv:
  assumes inv: "count_inv s" and i: "i < length (workers s)" and w: "work i s = Some (Inr s')"
  shows "count_inv s'"
proof -
  have up: "workers s' = (workers s)[i := workers s' ! i]" "counting s' = counting s"
    using w i by (auto simp: work_def set_worker_def split: worker.splits if_splits list.splits)
  have len: "length (workers s') = length (workers s)" using up(1) by (metis length_list_update)
  have "idle s' + of_bool (busy (workers s' ! i)) = idle s + of_bool (busy (workers s ! i))"
    using w i by (auto simp: work_def set_worker_def busy_def split: worker.splits if_splits list.splits)
  then show ?thesis
    using inv busy_update[OF i, of "workers s' ! i"] up(2) len
    unfolding count_inv_def up(1)[symmetric] by simp
qed

lemma fire_count_inv:
  assumes inv: "count_inv s" and f: "fire e s = Some (Inr s')"
  shows "count_inv s'"
proof (cases e)
  case (Work i)
  then show ?thesis using f work_count_inv[OF inv] by (auto split: if_splits)
next
  case (NotifyOne k)
  then show ?thesis
    using f inv busy_update[where w = Woken and ws = "workers s"]
    by (cases k) (fastforce simp: wake_def set_worker_def count_inv_def busy_def split: if_splits)+
next
  case (Spurious i)
  then show ?thesis
    using f inv busy_update[where w = Woken and ws = "workers s"]
    by (fastforce simp: wake_def set_worker_def count_inv_def busy_def split: if_splits)
next
  case NotifyAll
  then show ?thesis using f inv by (auto simp: count_inv_def busy_wake_all split: if_splits)
next
  case Spawn
  then show ?thesis using f inv by (auto simp: count_inv_def busy_def split: if_splits)
next
  case (Push j)
  then show ?thesis using f inv by (auto simp: count_inv_def Let_def split: if_splits)
qed (use f inv in \<open>auto simp: count_inv_def split: if_splits destroyer.splits\<close>)

lemma work_run_inv:
  assumes inv: "run_inv s" and i: "i < length (workers s)" and w: "work i s = Some (Inr s')"
  shows "run_inv s'"
proof -
  have same: "run s' = run s" "destroyer s' = destroyer s" "to_start s' = to_start s" "counting s' = counting s"
    and up: "workers s' = (workers s)[i := workers s' ! i]" and ex: "run s \<Longrightarrow> workers s' ! i \<noteq> Exited"
    using w i by (auto simp: work_def set_worker_def split: worker.splits if_splits list.splits)
  have "Exited \<notin> set (workers s')" if "run s"
    using set_update_subset_insert[of "workers s" i "workers s' ! i"] ex that inv up by (auto simp: run_inv_def)
  then show ?thesis using inv same by (simp add: run_inv_def)
qed

lemma wake_run_inv: "run_inv s \<Longrightarrow> run_inv (wake i s)"
  using set_update_subset_insert[of "workers s" i Woken] by (auto simp: run_inv_def wake_def set_worker_def)

lemma fire_run_inv:
  assumes inv: "run_inv s" and f: "fire e s = Some (Inr s')"
  shows "run_inv s'"
proof (cases e)
  case (Work i)
  then show ?thesis using f work_run_inv[OF inv] by (auto split: if_splits)
next
  case (NotifyOne k)
  have "run_inv (s\<lparr>notifiers := notifiers s - 1\<rparr>)" using inv by (simp add: run_inv_def)
  then show ?thesis using f NotifyOne wake_run_inv by (cases k) (auto split: if_splits)
next
  case (Spurious i)
  then show ?thesis using f wake_run_inv[OF inv] by (auto split: if_splits)
next
  case (Push j)
  then show ?thesis using f inv by (auto simp: run_inv_def Let_def split: if_splits)
qed (use f inv in \<open>auto simp: run_inv_def image_iff split: if_splits destroyer.splits\<close>)

lemma work_wake_inv:
  assumes inv: "wake_inv s" and lock: "lock_inv s" and i: "i < length (workers s)" and w: "work i s = Some (Inr s')"
  shows "wake_inv s'"
proof (cases "workers s ! i = Block")
  case True
  then have "tasks s' = []" using w lock i by (auto simp: work_def set_worker_def lock_inv_def)
  then show ?thesis by (simp add: wake_inv_def)
next
  case False
  have "workers s' ! i \<noteq> Blocked" "length (workers s') = length (workers s)"
    using w i False by (auto simp: work_def set_worker_def split: worker.splits if_splits list.splits)
  then show ?thesis unfolding wake_inv_def using i by (metis nth_mem)
qed

lemma wake_wake_inv: "i < length (workers s) \<Longrightarrow> wake_inv (wake i s)"
  unfolding wake_inv_def wake_def set_worker_def using set_update_memI[of i "workers s" Woken] by auto

lemma fire_wake_inv:
  assumes inv: "wake_inv s" and lock: "lock_inv s" and f: "fire e s = Some (Inr s')"
  shows "wake_inv s'"
proof (cases e)
  case (Work i)
  then show ?thesis using f work_wake_inv[OF inv lock] by (auto split: if_splits)
next
  case (NotifyOne k)
  show ?thesis
  proof (cases k)
    case None
    then have "Blocked \<notin> set (workers s)" "workers s' = workers s"
      using f NotifyOne by (auto split: if_splits)
    then show ?thesis by (cases "workers s") (auto simp: wake_inv_def)
  next
    case (Some i)
    then show ?thesis
      using f NotifyOne wake_wake_inv[of i "s\<lparr>notifiers := notifiers s - 1\<rparr>"] by (auto split: if_splits)
  qed
next
  case (Spurious i)
  then show ?thesis using f wake_wake_inv[of i s] by (auto split: if_splits)
next
  case (Push j)
  then show ?thesis using f by (auto simp: wake_inv_def Let_def split: if_splits)
next
  case NotifyAll
  then have "workers s' = map (\<lambda>w. if w = Blocked then Woken else w) (workers s)" using f by (auto split: if_splits)
  then show ?thesis by (cases "workers s") (auto simp: wake_inv_def)
qed (use f inv in \<open>auto simp: wake_inv_def split: if_splits destroyer.splits\<close>)

text \<open>All of it, in every reachable state.\<close>

definition pool_inv :: "pool \<Rightarrow> bool" where
  "pool_inv s \<longleftrightarrow> lock_inv s \<and> fifo_inv s \<and> count_inv s \<and> run_inv s \<and> wake_inv s"

lemma reachable_inv: "reachable s \<Longrightarrow> pool_inv s"
proof (induction rule: reachable.induct)
  case reachable_new
  show ?case
    by (simp add: pool_inv_def new_pool_def lock_inv_def fifo_inv_def count_inv_def run_inv_def wake_inv_def hand_inv_def)
next
  case (reachable_step s e s')
  then show ?case
    unfolding pool_inv_def using fire_lock_inv fire_fifo_inv fire_count_inv fire_run_inv fire_wake_inv by blast
qed

text \<open>A queued task is not slept through, whatever the rest of the state.\<close>

lemma progress_inv:
  assumes inv: "lock_inv s" "wake_inv s" "run_inv s" and "run s" "tasks s \<noteq> []" "workers s \<noteq> []"
  shows "\<exists>e s'. ((\<exists>i. e = Work i) \<or> (\<exists>k. e = NotifyOne k)) \<and> fire e s = Some (Inr s')"
proof -
  have go: "\<exists>s'. fire (Work i) s = Some (Inr s')"
    if "i < length (workers s)" "workers s ! i \<notin> {Blocked, Exited}" "workers s ! i \<in> {Acquire, Woken} \<longrightarrow> holder s = None" for i
    using that assms(5) by (auto simp: work_def split: worker.splits list.splits)
  show ?thesis
  proof (cases "0 < notifiers s")
    case True
    show ?thesis
    proof (cases "Blocked \<in> set (workers s)")
      case True
      then obtain i where "i < length (workers s)" "workers s ! i = Blocked" by (auto simp: in_set_conv_nth)
      then show ?thesis
        using \<open>0 < notifiers s\<close> by (intro exI[of _ "NotifyOne (Some i)"]) simp
    next
      case False
      then show ?thesis using \<open>0 < notifiers s\<close> by (intro exI[of _ "NotifyOne None"]) simp
    qed
  next
    case False
    then obtain i where i: "i < length (workers s)" "workers s ! i \<noteq> Blocked" "workers s ! i \<noteq> Exited"
      using inv(2,3) assms(4-6) unfolding wake_inv_def run_inv_def by (metis in_set_conv_nth less_not_refl)
    show ?thesis
    proof (cases "holder s")
      case None
      then show ?thesis using go[of i] i by blast
    next
      case (Some j)
      then have "j < length (workers s)" "holding (workers s ! j)" using inv(1) by (auto simp: lock_inv_def)
      then have "\<exists>s'. fire (Work j) s = Some (Inr s')" by (intro go) (auto simp: holding_def)
      then show ?thesis by blast
    qed
  qed
qed

subsection \<open>Properties\<close>

text \<open>Running a list of events; \<open>None\<close> when one of them cannot happen or faults.\<close>

fun fires :: "event list \<Rightarrow> pool \<Rightarrow> pool option" where
  "fires [] s = Some s"
| "fires (e # es) s = (case fire e s of Some (Inr s') \<Rightarrow> fires es s' | _ \<Rightarrow> None)"

lemma fires_reachable: "reachable s \<Longrightarrow> fires es s = Some s' \<Longrightarrow> reachable s'"
  by (induction es arbitrary: s) (auto split: option.splits sum.splits intro: reachable_step)

text \<open>A worker at rest in a pool of one, and what the runs below start from.\<close>

definition idle_worker :: "event list" where
  "idle_worker = [InitThreadSize 1, Spawn, Count, Work 0, Work 0, Work 0]"

text \<open>C20: in every reachable state no two workers are in the critical section, a worker never takes a
  task from an empty queue, and there are at most sixteen workers.\<close>

theorem pool_safe:
  assumes "reachable s"
  shows "(\<forall>i e. fire (Work i) s \<noteq> Some (Inl e)) \<and> ThrCount s \<le> 16 \<and>
    (\<forall>i j. i < ThrCount s \<and> j < ThrCount s \<and> holding (workers s ! i) \<and> holding (workers s ! j) \<longrightarrow> i = j)"
proof -
  have inv: "lock_inv s" "count_inv s" using reachable_inv[OF assms] by (simp_all add: pool_inv_def)
  have "fire (Work i) s \<noteq> Some (Inl e)" for i e
  proof
    assume "fire (Work i) s = Some (Inl e)"
    then have "i < length (workers s)" "workers s ! i = Test" "tasks s = []" "run s"
      by (auto simp: work_def split: if_splits worker.splits list.splits)
    then show False using inv(1) by (auto simp: lock_inv_def)
  qed
  then show ?thesis
    using inv by (auto simp: lock_inv_def count_inv_def ThrCount_def THREADPOOL_MAX_NUM_def)
qed

theorem pool_safe_witness:
  "\<exists>s. fires idle_worker new_pool = Some s \<and> workers s ! 0 = Block \<and> ThrCount s \<le> 16"
proof -
  obtain s where s: "fires idle_worker new_pool = Some s" "workers s ! 0 = Block"
    by (simp add: idle_worker_def new_pool_def work_def set_worker_def THREADPOOL_MAX_NUM_def)
  with pool_safe[OF fires_reachable[OF reachable_new s(1)]] show ?thesis by blast
qed

text \<open>C19: the queue is first in, first out, and loses and repeats nothing: the tasks that workers took,
  in the order in which they took them, followed by those still queued, are the submitted tasks in
  their order; and every taken task is executed exactly once or in the hands of one worker.\<close>

theorem pool_fifo:
  assumes "reachable s"
  shows "taken s @ tasks s = submitted s \<and> mset (taken s) = mset (executed s) + mset (concat (map in_hand (workers s)))"
  using reachable_inv[OF assms] by (simp add: pool_inv_def fifo_inv_def hand_inv_def)

theorem pool_fifo_witness:
  "\<exists>s. fires (idle_worker @ [Work 0, AddTask 7, AddTask 8, Push 0, Push 0, NotifyOne (Some 0), Work 0, Work 0, Work 0]) new_pool
      = Some s \<and> taken s = [7] \<and> tasks s = [8] \<and> submitted s = [7, 8]"
proof -
  let ?es = "idle_worker @ [Work 0, AddTask 7, AddTask 8, Push 0, Push 0, NotifyOne (Some 0), Work 0, Work 0, Work 0]"
  obtain s where s: "fires ?es new_pool = Some s" "taken s = [7]" "tasks s = [8]"
    by (simp add: idle_worker_def new_pool_def work_def wake_def set_worker_def THREADPOOL_MAX_NUM_def)
  with pool_fifo[OF fires_reachable[OF reachable_new s(1)]] show ?thesis by simp
qed

text \<open>C18: no submission is slept through: while the pool runs, has a worker and has a task, some worker
  can take its next step or a notification is still to be delivered.\<close>

theorem pool_progress:
  assumes "reachable s" "run s" "tasks s \<noteq> []" "workers s \<noteq> []"
  shows "\<exists>e s'. ((\<exists>i. e = Work i) \<or> (\<exists>k. e = NotifyOne k)) \<and> fire e s = Some (Inr s')"
proof -
  have "lock_inv s" "wake_inv s" "run_inv s" using reachable_inv[OF assms(1)] by (simp_all add: pool_inv_def)
  then show ?thesis using progress_inv assms(2-4) by blast
qed

theorem pool_progress_witness:
  "\<exists>s e s'. fires (idle_worker @ [Work 0, AddTask 7, Push 0]) new_pool = Some s \<and> run s \<and> tasks s = [7]
     \<and> fire e s = Some (Inr s')"
proof -
  obtain s where s: "fires (idle_worker @ [Work 0, AddTask 7, Push 0]) new_pool = Some s"
    "run s" "tasks s = [7]" "workers s \<noteq> []"
    by (simp add: idle_worker_def new_pool_def work_def set_worker_def THREADPOOL_MAX_NUM_def)
  with pool_progress[OF fires_reachable[OF reachable_new s(1)]] show ?thesis by fastforce
qed

text \<open>\<open>IdlCount\<close> is the number of workers that are not between \<open>idlThrNum_--\<close> and \<open>idlThrNum_++\<close>,
  one less while \<open>InitThreadSize\<close> has made a thread that it has not counted yet; so it never
  exceeds the number of workers and never falls below minus one.\<close>

theorem pool_idle_count:
  assumes "reachable s"
  shows "IdlCount s = int (ThrCount s) - int (length (filter busy (workers s))) - (if counting s then 1 else 0)
    \<and> - 1 \<le> IdlCount s \<and> IdlCount s \<le> int (ThrCount s)"
proof -
  define b where "b = int (length (filter busy (workers s)))"
  have "0 \<le> b" "b \<le> int (length (workers s))" by (simp_all add: b_def)
  then show ?thesis
    using reachable_inv[OF assms] unfolding pool_inv_def count_inv_def IdlCount_def ThrCount_def b_def[symmetric]
    by auto
qed

theorem pool_idle_count_witness:
  "\<exists>s. fires idle_worker new_pool = Some s \<and> IdlCount s = 1"
proof -
  obtain s where s: "fires idle_worker new_pool = Some s" "workers s = [Block]" "\<not> counting s"
    by (simp add: idle_worker_def new_pool_def work_def set_worker_def THREADPOOL_MAX_NUM_def)
  with pool_idle_count[OF fires_reachable[OF reachable_new s(1)]] show ?thesis by (simp add: ThrCount_def busy_def)
qed

text \<open>C21: \<open>Destory\<close> can wait for ever. It clears \<open>run_\<close> and notifies without taking the lock; when that
  falls between a worker's test of the predicate and its going to sleep, the notification is lost,
  the worker sleeps, and only a spurious wake-up could still end the join.\<close>

theorem destroy_can_hang:
  "\<exists>s. reachable s \<and> destroyer s = Joining 0 \<and> workers s = [Blocked]
     \<and> {e. \<exists>s'. fire e s = Some (Inr s')} \<subseteq> range Spurious"
proof -
  let ?es = "idle_worker @ [Stop, NotifyAll, Work 0]"
  obtain s where s: "fires ?es new_pool = Some s"
    "destroyer s = Joining 0" "workers s = [Blocked]" "notifiers s = 0" "adders s = []" "to_start s = 0"
    "\<not> counting s" "\<not> run s"
    by (simp add: idle_worker_def new_pool_def work_def set_worker_def THREADPOOL_MAX_NUM_def)
  have "e \<in> range Spurious" if "fire e s = Some (Inr s')" for e s'
    using that s(2-8)
    by (cases "(e, s)" rule: fire.cases) (auto simp: work_def split: if_splits)
  then show ?thesis using s fires_reachable[OF reachable_new s(1)] by blast
qed

text \<open>\<open>Destory\<close> can return with tasks still in the queue: a worker tests \<open>run_\<close> before it looks at
  the queue, so after the stop it runs at most one more task.\<close>

theorem destroy_can_drop_tasks:
  "\<exists>s. reachable s \<and> destroyer s = Joining (ThrCount s) \<and> executed s = [7] \<and> tasks s = [8]"
proof -
  let ?es = "idle_worker @ [Work 0, AddTask 7, AddTask 8, Push 0, Push 0, Stop, NotifyAll,
    Work 0, Work 0, Work 0, Work 0, Work 0, Work 0, Work 0, Join]"
  obtain s where s: "fires ?es new_pool = Some s"
    "destroyer s = Joining 1" "length (workers s) = 1" "executed s = [7]" "tasks s = [8]"
    by (simp add: idle_worker_def new_pool_def work_def wake_def set_worker_def THREADPOOL_MAX_NUM_def)
  then show ?thesis using fires_reachable[OF reachable_new s(1)] by (auto simp: ThrCount_def)
qed

end
