(* ===== verification/Fd_Pool.thy ===== *)
theory Fd_Pool
  imports Prelude
begin

section \<open>The thread pool of the servers\<close>

text \<open>
  \<^verbatim>\<open>src/tools/sync_file/epoll_socket/threadpool.h\<close>, and \<^verbatim>\<open>src/socket/epoll/threadpool.h\<close>, which is the
  same file but for the include guard. Its threads, in \<open>Server_Pool\<close>, work as those of the plain pool; what is new is
  that each task belongs to a file descriptor and that \<open>fd_task_map\<close> keeps, for each descriptor,
  the list iterators of its queued tasks, so that closing a descriptor can erase them. Iterators are
  node numbers; erasing one whose node is gone is a fault. Each operation below is the body of one
  critical section.
\<close>

type_synonym fd = int
type_synonym node = nat
type_synonym task = nat

record fd_pool =
  fd_tasks :: "(node \<times> fd \<times> task) list"
  fd_task_map :: "fd \<rightharpoonup> node list"
  next_node :: node
  fd_run :: bool

definition new_fd_pool :: fd_pool where
  "new_fd_pool = \<lparr>fd_tasks = [], fd_task_map = Map.empty, next_node = 0, fd_run = True\<rparr>"

text \<open>\<open>fd_task_map[fd]\<close>: a missing entry is made, with an empty list.\<close>

definition entry :: "fd_pool \<Rightarrow> fd \<Rightarrow> node list" where
  "entry p fd = (case fd_task_map p fd of None \<Rightarrow> [] | Some ns \<Rightarrow> ns)"

definition fd_push :: "fd \<Rightarrow> task \<Rightarrow> fd_pool \<Rightarrow> fd_pool" where
  "fd_push fd t p =
     p\<lparr>fd_tasks := fd_tasks p @ [(next_node p, fd, t)],
       fd_task_map := (fd_task_map p)(fd \<mapsto> entry p fd @ [next_node p]),
       next_node := Suc (next_node p)\<rparr>"

definition fd_AddTask :: "fd \<Rightarrow> task \<Rightarrow> fd_pool \<Rightarrow> fault + fd_pool" where
  "fd_AddTask fd t p =
     (if \<not> fd_run p then Inl (RuntimeError ''AddTask on ThreadPool is stopped.'')
      else Inr (fd_push fd t p))"

text \<open>\<open>_tasks.erase(item)\<close>.\<close>

definition erase_node :: "node \<Rightarrow> (node \<times> fd \<times> task) list \<Rightarrow> fault + (node \<times> fd \<times> task) list" where
  "erase_node n ts = (if n \<in> fst ` set ts then Inr (filter (\<lambda>e. fst e \<noteq> n) ts) else Inl UseAfterFree)"

definition delCloseFD :: "fd \<Rightarrow> fd_pool \<Rightarrow> fault + fd_pool" where
  "delCloseFD fd p =
     (case fd_task_map p fd of
        None \<Rightarrow> Inr p
      | Some ns \<Rightarrow>
          bindE (steps erase_node ns (fd_tasks p)) (\<lambda>ts.
            Inr (p\<lparr>fd_tasks := ts, fd_task_map := (fd_task_map p)(fd := None)\<rparr>)))"

text \<open>
  What a worker does under the lock once the predicate holds: \<open>None\<close> when it leaves its loop.
\<close>

definition fd_take :: "fd_pool \<Rightarrow> fault + (fd \<times> task) option \<times> fd_pool" where
  "fd_take p =
     (if \<not> fd_run p \<and> fd_tasks p = [] then Inr (None, p)
      else case fd_tasks p of
        [] \<Rightarrow> Inl OutOfBounds
      | (n, fd, t) # ts \<Rightarrow>
          (case entry p fd of
             [] \<Rightarrow> Inl OutOfBounds
           | _ # ns \<Rightarrow> Inr (Some (fd, t), p\<lparr>fd_tasks := ts, fd_task_map := (fd_task_map p)(fd \<mapsto> ns)\<rparr>)))"

definition fd_stop :: "fd_pool \<Rightarrow> fd_pool" where
  "fd_stop p = p\<lparr>fd_run := False\<rparr>"

definition taskCount :: "fd_pool \<Rightarrow> nat" where
  "taskCount p = length (fd_tasks p)"

subsection \<open>The map points at the queue\<close>

definition nodes_of :: "fd \<Rightarrow> (node \<times> fd \<times> task) list \<Rightarrow> node list" where
  "nodes_of fd ts = map fst (filter (\<lambda>e. fst (snd e) = fd) ts)"

definition fd_inv :: "fd_pool \<Rightarrow> bool" where
  "fd_inv p \<longleftrightarrow> distinct (map fst (fd_tasks p)) \<and> (\<forall>n \<in> set (map fst (fd_tasks p)). n < next_node p)
     \<and> (\<forall>fd. entry p fd = nodes_of fd (fd_tasks p))"

lemma new_fd_inv: "fd_inv new_fd_pool"
  by (simp add: fd_inv_def new_fd_pool_def entry_def nodes_of_def)

lemma fd_push_inv:
  assumes "fd_inv p"
  shows "fd_inv (fd_push fd t p)"
proof -
  let ?p = "fd_push fd t p"
  have old: "\<forall>n \<in> set (map fst (fd_tasks p)). n < next_node p" using assms by (simp add: fd_inv_def)
  then have fresh: "next_node p \<notin> set (map fst (fd_tasks p))" by blast
  have "entry ?p f = nodes_of f (fd_tasks ?p)" for f
    using assms by (simp add: fd_push_def fd_inv_def entry_def nodes_of_def)
  moreover have "\<forall>n \<in> set (map fst (fd_tasks ?p)). n < next_node ?p"
    using old by (simp add: fd_push_def less_SucI)
  ultimately show ?thesis using fresh assms unfolding fd_inv_def by (simp add: fd_push_def)
qed

lemma fd_AddTask_inv: "fd_inv p \<Longrightarrow> fd_AddTask fd t p = Inr p' \<Longrightarrow> fd_inv p'"
  using fd_push_inv by (auto simp: fd_AddTask_def split: if_splits)

text \<open>Erasing the nodes of one descriptor, one by one, leaves the tasks of the others.\<close>

lemma erase_nodes:
  assumes "distinct (map fst ts)" "ns = nodes_of fd ts"
  shows "steps erase_node ns ts = Inr (filter (\<lambda>e. fst (snd e) \<noteq> fd) ts)"
  using assms
proof (induction ns arbitrary: ts)
  case Nil
  then show ?case by (auto simp: nodes_of_def filter_empty_conv intro!: filter_True[symmetric])
next
  case (Cons n ns)
  then obtain us e vs where ts: "ts = us @ e # vs" "\<forall>x \<in> set us. fst (snd x) \<noteq> fd" "fst (snd e) = fd" "fst e = n"
    and ns: "ns = nodes_of fd vs"
    by (auto simp: nodes_of_def Cons_eq_map_conv filter_eq_Cons_iff)
  let ?ts = "filter (\<lambda>x. fst x \<noteq> n) ts"
  have "n \<notin> fst ` set us" "n \<notin> fst ` set vs" using Cons.prems(1) ts(1,4) by auto
  then have "filter (\<lambda>x. fst x \<noteq> n) us = us" "filter (\<lambda>x. fst x \<noteq> n) vs = vs"
    by (metis (mono_tags, lifting) filter_True imageI)+
  then have eq: "?ts = us @ vs" using ts(1,4) by simp
  then have "ns = nodes_of fd ?ts" using ts(2) ns by (simp add: nodes_of_def)
  moreover have "distinct (map fst ?ts)" using Cons.prems(1) by (simp add: distinct_map_filter)
  ultimately have "steps erase_node ns ?ts = Inr (filter (\<lambda>e. fst (snd e) \<noteq> fd) ?ts)"
    by (intro Cons.IH)
  moreover have "erase_node n ts = Inr ?ts" using ts(1,4) by (simp add: erase_node_def)
  ultimately show ?case using ts(3) by (simp add: eq) (simp add: ts(1))
qed

lemma delCloseFD_result:
  assumes inv: "fd_inv p"
  shows "delCloseFD fd p = Inr (p\<lparr>fd_tasks := filter (\<lambda>e. fst (snd e) \<noteq> fd) (fd_tasks p),
    fd_task_map := (fd_task_map p)(fd := None)\<rparr>)"
proof (cases "fd_task_map p fd")
  case None
  moreover have "entry p fd = nodes_of fd (fd_tasks p)" using inv by (simp add: fd_inv_def)
  ultimately have "nodes_of fd (fd_tasks p) = []" by (simp add: entry_def)
  then have "filter (\<lambda>e. fst (snd e) \<noteq> fd) (fd_tasks p) = fd_tasks p"
    by (auto simp: nodes_of_def filter_empty_conv intro!: filter_True)
  then show ?thesis using \<open>fd_task_map p fd = None\<close> by (simp add: delCloseFD_def fun_upd_idem)
next
  case (Some ns)
  then have "ns = nodes_of fd (fd_tasks p)" using inv unfolding fd_inv_def entry_def by (metis option.simps(5))
  then show ?thesis
    using Some inv erase_nodes[of "fd_tasks p" ns fd] by (simp add: delCloseFD_def fd_inv_def)
qed

lemma delCloseFD_inv:
  assumes inv: "fd_inv p" and "delCloseFD fd p = Inr p'"
  shows "fd_inv p'"
proof -
  have "nodes_of f (filter (\<lambda>e. fst (snd e) \<noteq> fd) ts) = (if f = fd then [] else nodes_of f ts)" for f ts
    by (auto simp: nodes_of_def filter_empty_conv intro!: arg_cong[of _ _ "map fst"] filter_cong)
  moreover have "p' = p\<lparr>fd_tasks := filter (\<lambda>e. fst (snd e) \<noteq> fd) (fd_tasks p),
      fd_task_map := (fd_task_map p)(fd := None)\<rparr>"
    using assms(2) by (simp add: delCloseFD_result[OF inv])
  ultimately show ?thesis
    using inv unfolding fd_inv_def by (simp add: distinct_map_filter entry_def)
qed

lemma fd_take_result:
  assumes inv: "fd_inv p" and "fd_tasks p = (n, fd, t) # ts"
  shows "\<exists>p'. fd_take p = Inr (Some (fd, t), p') \<and> fd_tasks p' = ts \<and> fd_run p' = fd_run p \<and> fd_inv p'"
proof -
  have "entry p f = nodes_of f (fd_tasks p)" for f using inv by (simp add: fd_inv_def)
  then have e: "entry p fd = n # nodes_of fd ts" "\<And>f. f \<noteq> fd \<Longrightarrow> entry p f = nodes_of f ts"
    using assms(2) by (auto simp: nodes_of_def)
  then show ?thesis
    using assms by (auto simp: fd_take_def fd_inv_def entry_def)
qed

subsection \<open>Runs, and what they do to the queue\<close>

datatype fd_op = Submit fd task | Close fd | Take | StopPool

fun fd_step :: "fd_op \<Rightarrow> fd_pool \<Rightarrow> fault + fd_pool" where
  "fd_step (Submit fd t) p = fd_AddTask fd t p"
| "fd_step (Close fd) p = delCloseFD fd p"
| "fd_step Take p = (if \<not> fd_run p \<or> fd_tasks p \<noteq> [] then bindE (fd_take p) (\<lambda>(_, p'). Inr p') else Inr p)"
| "fd_step StopPool p = Inr (fd_stop p)"

definition queue_of :: "fd_pool \<Rightarrow> (fd \<times> task) list" where
  "queue_of p = map snd (fd_tasks p)"

fun queue_spec :: "fd_op \<Rightarrow> (fd \<times> task) list \<Rightarrow> (fd \<times> task) list" where
  "queue_spec (Submit fd t) ts = ts @ [(fd, t)]"
| "queue_spec (Close fd) ts = filter (\<lambda>e. fst e \<noteq> fd) ts"
| "queue_spec Take ts = tl ts"
| "queue_spec StopPool ts = ts"

definition stopped_fault :: "fault \<Rightarrow> bool" where
  "stopped_fault e \<longleftrightarrow> e = RuntimeError ''AddTask on ThreadPool is stopped.''"

lemma fd_Take_cases:
  assumes "fd_inv p"
  shows "\<exists>p'. fd_step Take p = Inr p' \<and> fd_inv p' \<and> fd_tasks p' = tl (fd_tasks p)"
proof (cases "fd_tasks p")
  case Nil
  then show ?thesis using assms by (auto simp: fd_take_def)
next
  case (Cons e ts)
  obtain n fd t where "e = (n, fd, t)" by (cases e)
  then show ?thesis using fd_take_result[OF assms, of n fd t ts] Cons by auto
qed

interpretation fd_queue: refining_ops fd_step fd_inv "\<lambda>_ _. True" stopped_fault queue_of queue_spec
proof
  fix p op
  assume inv: "fd_inv p"
  show "outcome stopped_fault (\<lambda>p'. fd_inv p' \<and> True) (fd_step op p)"
  proof (cases op)
    case (Submit fd t)
    then show ?thesis
      using fd_AddTask_inv[OF inv, of fd t] by (cases "fd_run p") (auto simp: fd_AddTask_def stopped_fault_def)
  next
    case (Close fd)
    then show ?thesis using delCloseFD_inv[OF inv] delCloseFD_result[OF inv, of fd] by auto
  next
    case Take
    then show ?thesis using fd_Take_cases[OF inv] by auto
  next
    case StopPool
    then show ?thesis using inv by (simp add: fd_stop_def fd_inv_def entry_def)
  qed
next
  fix p op p'
  assume inv: "fd_inv p" and step: "fd_step op p = Inr p'"
  show "queue_of p' = queue_spec op (queue_of p)"
  proof (cases op)
    case (Submit fd t)
    then show ?thesis using step by (auto simp: fd_AddTask_def fd_push_def queue_of_def split: if_splits)
  next
    case (Close fd)
    then show ?thesis using step by (auto simp: delCloseFD_result[OF inv] queue_of_def filter_map o_def)
  next
    case Take
    then show ?thesis using step fd_Take_cases[OF inv] by (auto simp: queue_of_def map_tl)
  next
    case StopPool
    then show ?thesis using step by (auto simp: fd_stop_def queue_of_def)
  qed
qed auto

text \<open>C27: under any sequence of submissions, closed descriptors and workers taking tasks, the pool of
  the servers behaves as a plain queue of pairs of descriptor and task: submissions go to the end,
  workers take from the front, and closing a descriptor removes its tasks and no others. The iterators
  in \<open>fd_task_map\<close> are valid whenever they are used, and the only failure is the exception for a
  submission after the stop.\<close>

theorem fd_pool_refines_queue:
  "outcome stopped_fault (\<lambda>p. queue_of p = fold queue_spec ops [] \<and> fd_inv p) (steps fd_step ops new_fd_pool)"
proof (cases "steps fd_step ops new_fd_pool")
  case (Inl e)
  then show ?thesis using fd_queue.steps_fault[OF new_fd_inv] by simp
next
  case (Inr p)
  then show ?thesis
    using fd_queue.steps_abs[OF new_fd_inv Inr] fd_queue.steps_inv[OF new_fd_inv Inr] by (simp add: queue_of_def new_fd_pool_def)
qed

end
