(* ===== verification/Server_Pool.thy ===== *)
theory Server_Pool
  imports Thread_Pool Fd_Pool "HOL-Library.Sublist"
begin

section \<open>The threads of the servers' pool\<close>

text \<open>
  \<^verbatim>\<open>src/tools/sync_file/epoll_socket/threadpool.h\<close> as a whole: the workers, clients and destructor of the
  plain pool, step for step, over the queue of \<open>Fd_Pool\<close>, and the server's thread that closes
  descriptors. The critical sections act on the queue: a client's pushes a task and its iterator, a
  worker's takes both off, and \<open>delCloseFD\<close> erases the tasks of a descriptor when no worker holds the
  lock. \<open>fd_of\<close> says for which descriptor a task is submitted. \<open>closed\<close> records what has been closed.
\<close>

record server_pool =
  threads :: pool
  queue :: fd_pool
  closed :: "fd list"

datatype server_pool_event = Pool Thread_Pool.event | CloseFD fd

definition new_server_pool :: server_pool where
  "new_server_pool = \<lparr>threads = new_pool, queue = new_fd_pool, closed = []\<rparr>"

text \<open>The queue as the threads see it, and what an action of a thread does to it.\<close>

definition queued :: "fd_pool \<Rightarrow> Thread_Pool.task list" where
  "queued q = map (\<lambda>(n, fd, t). t) (fd_tasks q)"

definition queue_action ::
  "(Thread_Pool.task \<Rightarrow> fd) \<Rightarrow> Thread_Pool.event \<Rightarrow> pool \<Rightarrow> fd_pool \<Rightarrow> fault + fd_pool" where
  "queue_action fd_of e p q =
     (case e of
        Push j \<Rightarrow> let t = adders p ! j in Inr (fd_push (fd_of t) t q)
      | Work i \<Rightarrow> if workers p ! i = Test then bindE (fd_take q) (\<lambda>(_, q'). Inr q') else Inr q
      | Stop \<Rightarrow> Inr (fd_stop q)
      | _ \<Rightarrow> Inr q)"

fun server_fire ::
  "(Thread_Pool.task \<Rightarrow> fd) \<Rightarrow> server_pool_event \<Rightarrow> server_pool \<Rightarrow> (fault + server_pool) option" where
  "server_fire fd_of (Pool e) s =
     (let p = (threads s)\<lparr>tasks := queued (queue s)\<rparr>
      in case fire e p of
           None \<Rightarrow> None
         | Some r \<Rightarrow> Some (bindE r (\<lambda>p'. bindE (queue_action fd_of e p (queue s)) (\<lambda>q.
             Inr (s\<lparr>threads := p', queue := q\<rparr>)))))"
| "server_fire fd_of (CloseFD fd) s =
     (if holder (threads s) = None
      then Some (bindE (delCloseFD fd (queue s)) (\<lambda>q. Inr (s\<lparr>queue := q, closed := closed s @ [fd]\<rparr>)))
      else None)"

inductive server_reachable :: "(Thread_Pool.task \<Rightarrow> fd) \<Rightarrow> server_pool \<Rightarrow> bool" for fd_of where
  server_new: "server_reachable fd_of new_server_pool"
| server_step: "server_reachable fd_of s \<Longrightarrow> server_fire fd_of e s = Some (Inr s') \<Longrightarrow> server_reachable fd_of s'"

subsection \<open>The queue and the threads agree\<close>

definition the_pool :: "server_pool \<Rightarrow> pool" where
  "the_pool s = (threads s)\<lparr>tasks := queued (queue s)\<rparr>"

text \<open>What is left of the submissions: a subsequence, complete but for closed descriptors.\<close>

definition accounted :: "(Thread_Pool.task \<Rightarrow> fd) \<Rightarrow> fd list \<Rightarrow> Thread_Pool.task list \<Rightarrow> Thread_Pool.task list \<Rightarrow> bool" where
  "accounted fd_of cs kept subs \<longleftrightarrow> subseq kept subs \<and> (\<forall>t \<in> set subs. t \<in> set kept \<or> fd_of t \<in> set cs)"

lemma accounted_new: "accounted fd_of cs kept subs \<Longrightarrow> accounted fd_of cs (kept @ new) (subs @ new)"
  by (auto simp: accounted_def list_emb_append_mono)

lemma accounted_close:
  assumes "accounted fd_of cs (a @ b) subs"
  shows "accounted fd_of (cs @ [fd]) (a @ filter (\<lambda>t. fd_of t \<noteq> fd) b) subs"
proof -
  have "subseq (a @ filter (\<lambda>t. fd_of t \<noteq> fd) b) (a @ b)"
    by (intro list_emb_append_mono) simp_all
  then show ?thesis using assms subseq_order.order_trans by (auto simp: accounted_def)
qed

definition owned :: "(Thread_Pool.task \<Rightarrow> fd) \<Rightarrow> fd_pool \<Rightarrow> bool" where
  "owned fd_of q \<longleftrightarrow> list_all (\<lambda>(n, fd, t). fd = fd_of t) (fd_tasks q)"

definition server_pool_inv :: "(Thread_Pool.task \<Rightarrow> fd) \<Rightarrow> server_pool \<Rightarrow> bool" where
  "server_pool_inv fd_of s \<longleftrightarrow>
     fd_inv (queue s) \<and> fd_run (queue s) = run (the_pool s) \<and> owned fd_of (queue s) \<and>
     lock_inv (the_pool s) \<and> hand_inv (the_pool s) \<and> count_inv (the_pool s) \<and> run_inv (the_pool s) \<and> wake_inv (the_pool s) \<and>
     accounted fd_of (closed s) (taken (the_pool s) @ tasks (the_pool s)) (submitted (the_pool s))"

lemma tasks_the_pool [simp]: "tasks (the_pool s) = queued (queue s)"
  by (simp add: the_pool_def)

text \<open>What an action of a thread leaves in the queue is what the plain pool says.\<close>

lemma queue_action_sync:
  assumes inv: "fd_inv q" and sync: "tasks p = queued q" "fd_run q = run p" and own: "owned fd_of q"
    and f: "fire e p = Some (Inr p')"
  shows "\<exists>q'. queue_action fd_of e p q = Inr q' \<and> fd_inv q' \<and> tasks p' = queued q' \<and> fd_run q' = run p' \<and> owned fd_of q'"
proof (cases e)
  case (Push j)
  then show ?thesis
    using f sync own fd_push_inv[OF inv]
    by (auto simp: queue_action_def queued_def Let_def fd_push_def owned_def split: if_splits)
next
  case (Work i)
  show ?thesis
  proof (cases "workers p ! i = Test")
    case True
    then have run: "run p' = run p" and ts: "tasks p' = tl (tasks p)" and "\<not> run p \<or> tasks p \<noteq> []"
      using f Work by (auto simp: work_def set_worker_def split: if_splits list.splits)
    then have "fd_step Take q = queue_action fd_of e p q"
      using Work True sync by (simp add: queue_action_def queued_def)
    then obtain q' where q': "queue_action fd_of e p q = Inr q'" "fd_inv q'" "fd_tasks q' = tl (fd_tasks q)"
      using fd_Take_cases[OF inv] by auto
    moreover have "fd_run q' = fd_run q"
      using q'(1) Work True by (auto simp: queue_action_def fd_take_def bindE_Inr_iff split: if_splits list.splits)
    moreover have "owned fd_of q'" using own q'(3) by (cases "fd_tasks q") (simp_all add: owned_def)
    moreover have "tasks p' = queued q'" using ts sync(1) q'(3) by (simp add: queued_def map_tl)
    ultimately show ?thesis using run sync(2) by simp
  next
    case False
    then have "run p' = run p" "tasks p' = tasks p"
      using f Work by (auto simp: work_def set_worker_def split: worker.splits if_splits)
    then show ?thesis using Work False inv sync own by (simp add: queue_action_def)
  qed
next
  case Stop
  then show ?thesis
    using f inv sync own by (auto simp: queue_action_def fd_stop_def queued_def fd_inv_def entry_def owned_def split: if_splits)
next
  case (NotifyOne k)
  then show ?thesis
    using f inv sync own by (cases k) (auto simp: queue_action_def wake_def set_worker_def split: if_splits)
qed (use f inv sync own in \<open>auto simp: queue_action_def wake_def set_worker_def split: if_splits destroyer.splits\<close>)

lemma server_pool_acts:
  assumes inv: "server_pool_inv fd_of s" and f: "server_fire fd_of (Pool e) s = Some (Inr s')"
  shows "fire e (the_pool s) = Some (Inr (the_pool s')) \<and> closed s' = closed s \<and>
    fd_inv (queue s') \<and> fd_run (queue s') = run (the_pool s') \<and> owned fd_of (queue s')"
proof -
  obtain p' where p': "fire e (the_pool s) = Some (Inr p')"
    using f by (auto simp: Let_def the_pool_def bindE_Inr_iff split: option.splits)
  have "fd_inv (queue s)" "fd_run (queue s) = run (the_pool s)" "owned fd_of (queue s)"
    using inv unfolding server_pool_inv_def by blast+
  then obtain q' where q': "queue_action fd_of e (the_pool s) (queue s) = Inr q'" "fd_inv q'" "tasks p' = queued q'"
    "fd_run q' = run p'" "owned fd_of q'"
    using queue_action_sync[OF _ tasks_the_pool _ _ p'] by blast
  have "s' = s\<lparr>threads := p', queue := q'\<rparr>"
    using f p' q'(1) by (simp add: Let_def the_pool_def)
  then show ?thesis using p' q' by (simp add: the_pool_def)
qed

lemma server_pool_can_act:
  assumes inv: "server_pool_inv fd_of s" and f: "fire e (the_pool s) = Some (Inr p')"
  shows "\<exists>s'. server_fire fd_of (Pool e) s = Some (Inr s')"
proof -
  have "fd_inv (queue s)" "fd_run (queue s) = run (the_pool s)" "owned fd_of (queue s)"
    using inv unfolding server_pool_inv_def by blast+
  then obtain q' where "queue_action fd_of e (the_pool s) (queue s) = Inr q'"
    using queue_action_sync[OF _ tasks_the_pool _ _ f] by blast
  then show ?thesis using f by (simp add: Let_def the_pool_def)
qed

lemma server_step_pool:
  assumes inv: "server_pool_inv fd_of s" and f: "server_fire fd_of (Pool e) s = Some (Inr s')"
  shows "server_pool_inv fd_of s'"
proof -
  have p': "fire e (the_pool s) = Some (Inr (the_pool s'))" and q': "closed s' = closed s" "fd_inv (queue s')"
    "fd_run (queue s') = run (the_pool s')" "owned fd_of (queue s')"
    using server_pool_acts[OF assms] by simp_all
  obtain new where "submitted (the_pool s') = submitted (the_pool s) @ new"
    "taken (the_pool s') @ tasks (the_pool s') = (taken (the_pool s) @ tasks (the_pool s)) @ new"
    using fire_queue[OF p'] by auto
  then have "accounted fd_of (closed s) (taken (the_pool s') @ tasks (the_pool s')) (submitted (the_pool s'))"
    using inv accounted_new unfolding server_pool_inv_def by metis
  then show ?thesis
    using inv q' fire_lock_inv[OF _ p'] fire_hand_inv[OF _ p'] fire_count_inv[OF _ p'] fire_run_inv[OF _ p'] fire_wake_inv[OF _ _ p']
    unfolding server_pool_inv_def q'(1) by blast
qed

text \<open>Closing a descriptor only shortens the queue, and no worker is in its critical section then.\<close>

lemma server_step_close:
  assumes inv: "server_pool_inv fd_of s" and f: "server_fire fd_of (CloseFD fd) s = Some (Inr s')"
  shows "server_pool_inv fd_of s'"
proof -
  have fdi: "fd_inv (queue s)" and own: "owned fd_of (queue s)" using inv unfolding server_pool_inv_def by blast+
  let ?q = "(queue s)\<lparr>fd_tasks := filter (\<lambda>e. fst (snd e) \<noteq> fd) (fd_tasks (queue s)),
      fd_task_map := (fd_task_map (queue s))(fd := None)\<rparr>"
  have s': "s' = s\<lparr>queue := ?q, closed := closed s @ [fd]\<rparr>" and free: "holder (threads s) = None"
    using f delCloseFD_result[OF fdi, of fd] by (auto split: if_splits)
  have "queued ?q = filter (\<lambda>t. fd_of t \<noteq> fd) (queued (queue s))"
  proof -
    have "map (\<lambda>(n, fd, t). t) (filter (\<lambda>e. fst (snd e) \<noteq> fd) ts) = filter (\<lambda>t. fd_of t \<noteq> fd) (map (\<lambda>(n, fd, t). t) ts)"
      if "list_all (\<lambda>(n, fd, t). fd = fd_of t) ts" for ts :: "(node \<times> fd \<times> Fd_Pool.task) list"
      using that by (induction ts) auto
    then show ?thesis using own by (simp add: queued_def owned_def)
  qed
  then have view: "the_pool s' = (the_pool s)\<lparr>tasks := filter (\<lambda>t. fd_of t \<noteq> fd) (tasks (the_pool s))\<rparr>"
    by (simp add: s' the_pool_def)
  have "fd_inv ?q" using delCloseFD_inv[OF fdi] delCloseFD_result[OF fdi] by blast
  moreover have "owned fd_of ?q" using own by (simp add: owned_def list_all_iff)
  moreover have "accounted fd_of (closed s') (taken (the_pool s') @ tasks (the_pool s')) (submitted (the_pool s'))"
    using inv accounted_close unfolding server_pool_inv_def view by (simp add: s')
  moreover have "lock_inv (the_pool s')"
    using inv free unfolding server_pool_inv_def view by (auto simp: lock_inv_def the_pool_def holding_def)
  moreover have "wake_inv (the_pool s')"
    using inv unfolding server_pool_inv_def view by (auto simp: wake_inv_def)
  moreover have "hand_inv (the_pool s')" "count_inv (the_pool s')" "run_inv (the_pool s')" "fd_run (queue s') = run (the_pool s')"
    using inv unfolding server_pool_inv_def view by (simp_all add: hand_inv_def count_inv_def run_inv_def s')
  ultimately show ?thesis by (simp add: server_pool_inv_def s')
qed

lemma server_reachable_inv: "server_reachable fd_of s \<Longrightarrow> server_pool_inv fd_of s"
proof (induction rule: server_reachable.induct)
  case server_new
  have "the_pool new_server_pool = new_pool" "queue new_server_pool = new_fd_pool"
    by (simp_all add: the_pool_def new_server_pool_def queued_def new_fd_pool_def new_pool_def)
  then show ?case
    using new_fd_inv reachable_inv[OF reachable_new]
    by (simp add: server_pool_inv_def pool_inv_def fifo_inv_def accounted_def owned_def)
      (simp add: new_pool_def new_fd_pool_def queued_def)
next
  case (server_step s e s')
  then show ?case using server_step_pool server_step_close by (cases e) blast+
qed

subsection \<open>Properties\<close>

text \<open>Running a list of events; \<open>None\<close> when one of them cannot happen or faults.\<close>

fun server_fires ::
  "(Thread_Pool.task \<Rightarrow> fd) \<Rightarrow> server_pool_event list \<Rightarrow> server_pool \<Rightarrow> server_pool option" where
  "server_fires fd_of [] s = Some s"
| "server_fires fd_of (e # es) s =
     (case server_fire fd_of e s of Some (Inr s') \<Rightarrow> server_fires fd_of es s' | _ \<Rightarrow> None)"

lemma server_fires_reachable:
  "server_reachable fd_of s \<Longrightarrow> server_fires fd_of es s = Some s' \<Longrightarrow> server_reachable fd_of s'"
  by (induction es arbitrary: s) (auto split: option.splits sum.splits intro: server_step)

text \<open>C22: in every reachable state of the servers' pool no action faults but a submission after the stop:
  workers find a task and a valid iterator whenever they take one, and closing a descriptor erases
  valid iterators only. What the workers took, followed by what is queued, is the submissions in
  their order without some that belong to closed descriptors; and every taken task is executed
  once or in the hands of one worker.\<close>

theorem server_pool_safe:
  assumes "server_reachable fd_of s"
  shows "(\<forall>e x. server_fire fd_of e s = Some (Inl x) \<longrightarrow> stopped_fault x) \<and>
    subseq (taken (threads s) @ queued (queue s)) (submitted (threads s)) \<and>
    (\<forall>t \<in> set (submitted (threads s)). t \<in> set (taken (threads s) @ queued (queue s)) \<or> fd_of t \<in> set (closed s)) \<and>
    mset (taken (threads s)) = mset (executed (threads s)) + mset (concat (map in_hand (workers (threads s))))"
proof -
  have inv: "server_pool_inv fd_of s" by (rule server_reachable_inv[OF assms])
  then have fdi: "fd_inv (queue s)" and lock: "lock_inv (the_pool s)" and fdr: "fd_run (queue s) = run (the_pool s)"
    and own: "owned fd_of (queue s)"
    unfolding server_pool_inv_def by blast+
  have "stopped_fault x" if x: "server_fire fd_of e s = Some (Inl x)" for e x
  proof (cases e)
    case (CloseFD fd)
    then show ?thesis using x delCloseFD_result[OF fdi, of fd] by (auto split: if_splits)
  next
    case (Pool e')
    then obtain r where r: "fire e' (the_pool s) = Some r"
      "bindE r (\<lambda>p'. bindE (queue_action fd_of e' (the_pool s) (queue s)) (\<lambda>q. Inr (s\<lparr>threads := p', queue := q\<rparr>))) = Inl x"
      using x by (auto simp: Let_def the_pool_def split: option.splits)
    show ?thesis
    proof (cases r)
      case (Inr p')
      then obtain q' where "queue_action fd_of e' (the_pool s) (queue s) = Inr q'"
        using queue_action_sync[OF fdi tasks_the_pool fdr own] r(1) by blast
      then show ?thesis using r(2) Inr by simp
    next
      case (Inl y)
      then have "x = y" "fire e' (the_pool s) = Some (Inl y)" using r by simp_all
      then show ?thesis
        using lock
        by (cases "(e', the_pool s)" rule: fire.cases)
          (auto simp: work_def lock_inv_def stopped_fault_def Let_def split: if_splits worker.splits list.splits destroyer.splits)
    qed
  qed
  then show ?thesis
    using inv by (simp add: server_pool_inv_def accounted_def hand_inv_def the_pool_def)
qed

text \<open>One worker, three tasks for two descriptors, the first closed after its task was taken.\<close>

theorem server_pool_safe_witness:
  "\<exists>s. server_fires int (map Pool (idle_worker @ [Work 0, AddTask 4, AddTask 5, AddTask 4, Push 0, Push 0, Push 0,
        NotifyOne (Some 0), Work 0, Work 0, Work 0]) @ [CloseFD 4]) new_server_pool = Some s
     \<and> taken (threads s) = [4] \<and> queued (queue s) = [5] \<and> subseq [4, 5] (submitted (threads s))
     \<and> mset (executed (threads s)) + mset (concat (map in_hand (workers (threads s)))) = {#4#}"
proof -
  let ?es = "map Pool (idle_worker @ [Work 0, AddTask 4, AddTask 5, AddTask 4, Push 0, Push 0, Push 0,
        NotifyOne (Some 0), Work 0, Work 0, Work 0]) @ [CloseFD 4]"
  obtain s where s: "server_fires int ?es new_server_pool = Some s" "taken (threads s) = [4]" "queued (queue s) = [5]"
    by (simp add: idle_worker_def new_server_pool_def new_pool_def new_fd_pool_def queued_def queue_action_def
        fd_push_def fd_take_def entry_def delCloseFD_def erase_node_def work_def wake_def set_worker_def
        THREADPOOL_MAX_NUM_def Let_def)
  with server_pool_safe[OF server_fires_reachable[OF server_new s(1)]] show ?thesis by simp
qed

text \<open>The progress of the plain pool carries over: a queued task is not slept through, whatever descriptors
  are closed in between.\<close>

theorem server_pool_progress:
  assumes "server_reachable fd_of s" "run (threads s)" "fd_tasks (queue s) \<noteq> []" "workers (threads s) \<noteq> []"
  shows "\<exists>e s'. ((\<exists>i. e = Work i) \<or> (\<exists>k. e = NotifyOne k)) \<and> server_fire fd_of (Pool e) s = Some (Inr s')"
proof -
  have inv: "server_pool_inv fd_of s" by (rule server_reachable_inv[OF assms(1)])
  then have "lock_inv (the_pool s)" "wake_inv (the_pool s)" "run_inv (the_pool s)"
    unfolding server_pool_inv_def by blast+
  moreover have "run (the_pool s)" "tasks (the_pool s) \<noteq> []" "workers (the_pool s) \<noteq> []"
    using assms(2-4) by (simp_all add: the_pool_def queued_def)
  ultimately obtain e p' where e: "(\<exists>i. e = Work i) \<or> (\<exists>k. e = NotifyOne k)" "fire e (the_pool s) = Some (Inr p')"
    using progress_inv by blast
  then show ?thesis using server_pool_can_act[OF inv e(2)] by blast
qed

theorem server_pool_progress_witness:
  "\<exists>s e s'. server_fires int (map Pool (idle_worker @ [Work 0, AddTask 4, AddTask 5, Push 0, Push 0]) @ [CloseFD 4])
       new_server_pool = Some s \<and> queued (queue s) = [5] \<and> server_fire int (Pool e) s = Some (Inr s')"
proof -
  let ?es = "map Pool (idle_worker @ [Work 0, AddTask 4, AddTask 5, Push 0, Push 0]) @ [CloseFD 4]"
  obtain s where s: "server_fires int ?es new_server_pool = Some s" "run (threads s)" "queued (queue s) = [5]"
    "fd_tasks (queue s) \<noteq> []" "workers (threads s) \<noteq> []"
    by (simp add: idle_worker_def new_server_pool_def new_pool_def new_fd_pool_def queued_def queue_action_def
        fd_push_def entry_def delCloseFD_def erase_node_def work_def set_worker_def
        THREADPOOL_MAX_NUM_def Let_def)
  with server_pool_progress[OF server_fires_reachable[OF server_new s(1)]] show ?thesis by blast
qed

end
