(* ===== verification/Pool_Shutdown.thy ===== *)
theory Pool_Shutdown
  imports Server_Pool
begin

section \<open>The end of a thread pool\<close>

text \<open>
  \<open>Destory\<close> of the plain pool and the destructor of the servers' pool clear \<open>run_\<close>, notify everybody and join the
  workers one after the other. This theory shows that the join ends, and how soon, unless a worker was on
  its way to sleep when the notification came. The interface \<open>pool_runs\<close> says what a program around
  a pool may do: the pool's own events, and others that touch nothing but the queue.
\<close>

text \<open>Running a list of events; \<open>None\<close> when one of them cannot happen or faults.\<close>

fun runs :: "('e \<Rightarrow> 's \<Rightarrow> (fault + 's) option) \<Rightarrow> 'e list \<Rightarrow> 's \<Rightarrow> 's option" where
  "runs act [] s = Some s"
| "runs act (e # es) s = (case act e s of Some (Inr s') \<Rightarrow> runs act es s' | _ \<Rightarrow> None)"

text \<open>The actions of the workers and of the thread that joins them.\<close>

fun own :: "event \<Rightarrow> bool" where
  "own (Work i) = True"
| "own Join = True"
| "own _ = False"

subsection \<open>How far the workers are from their end\<close>

text \<open>After the stop a worker finishes the pass it is in, which may still take one task.\<close>

fun actions_left :: "worker \<Rightarrow> nat" where
  "actions_left Loop = 1"
| "actions_left Acquire = 7"
| "actions_left Woken = 7"
| "actions_left Check = 6"
| "actions_left Test = 5"
| "actions_left (Start t) = 4"
| "actions_left (Exec t) = 3"
| "actions_left Finish = 2"
| "actions_left _ = 0"

definition awake :: "worker \<Rightarrow> bool" where
  "awake w \<longleftrightarrow> w \<noteq> Block \<and> w \<noteq> Blocked"

definition left :: "pool \<Rightarrow> nat" where
  "left s = sum_list (map actions_left (workers s)) + (case destroyer s of Joining k \<Rightarrow> length (workers s) - k | _ \<Rightarrow> 0)"

text \<open>The pool is stopped, everybody has been notified, and nobody sleeps or is about to.\<close>

definition ending :: "pool \<Rightarrow> bool" where
  "ending s \<longleftrightarrow> lock_inv s \<and> run_inv s \<and> (\<exists>k \<le> length (workers s). destroyer s = Joining k) \<and> (\<forall>w \<in> set (workers s). awake w)"

lemma ending_stopped: "ending s \<Longrightarrow> \<not> run s \<and> to_start s = 0 \<and> \<not> counting s"
  by (auto simp: ending_def run_inv_def)

lemma actions_left_le: "actions_left w \<le> 7"
  by (cases w) simp_all

lemma left_le: "left s \<le> 8 * length (workers s)"
proof -
  have "sum_list (map actions_left ws) \<le> 7 * length ws" for ws
  proof (induction ws)
    case (Cons w ws)
    then show ?case using actions_left_le[of w] by simp
  qed simp
  from this[of "workers s"] show ?thesis by (auto simp: left_def split: destroyer.split)
qed

lemma sum_list_update_less:
  "i < length ws \<Longrightarrow> f w < (f (ws ! i) :: nat) \<Longrightarrow> sum_list (map f (ws[i := w])) < sum_list (map f ws)"
proof (induction ws arbitrary: i)
  case (Cons a ws)
  then show ?case by (cases i) auto
qed simp

lemma work_ending:
  assumes e: "ending s" and i: "i < length (workers s)" and w: "work i s = Some (Inr s')"
  shows "workers s' = (workers s)[i := workers s' ! i] \<and> awake (workers s' ! i) \<and>
    actions_left (workers s' ! i) < actions_left (workers s ! i) \<and> destroyer s' = destroyer s"
proof -
  have "workers s ! i \<noteq> Block" "\<not> run s"
    using e i ending_stopped[OF e] by (auto simp: ending_def awake_def)
  then show ?thesis
    using i w by (auto simp: work_def set_worker_def awake_def split: worker.splits if_splits list.splits)
qed

lemma fire_ending:
  assumes e: "ending s" and f: "fire ev s = Some (Inr s')"
  shows "ending s' \<and> length (workers s') = length (workers s) \<and> left s' + (if own ev then 1 else 0) \<le> left s"
proof -
  have inv: "lock_inv s'" "run_inv s'" using e f fire_lock_inv fire_run_inv by (auto simp: ending_def)
  have stop: "\<not> run s" "to_start s = 0" "\<not> counting s" using ending_stopped[OF e] by simp_all
  have asleep: "Blocked \<notin> set (workers s)" using e by (auto simp: ending_def awake_def)
  obtain k where k: "destroyer s = Joining k" "k \<le> length (workers s)" using e by (auto simp: ending_def)
  show ?thesis
  proof (cases "own ev")
    case False
    have "workers s' = workers s \<and> destroyer s' = destroyer s"
      using f False stop asleep k(1)
      by (cases "(ev, s)" rule: fire.cases) (auto simp: Let_def dest: nth_mem split: if_splits)
    then show ?thesis using inv e False by (simp add: ending_def left_def split: destroyer.split)
  next
    case True
    then consider i where "ev = Work i" | "ev = Join" by (cases ev) simp_all
    then show ?thesis
    proof cases
      case (1 i)
      then have i: "i < length (workers s)" and w: "work i s = Some (Inr s')" using f by (simp_all split: if_splits)
      let ?w = "workers s' ! i"
      from work_ending[OF e i w] have w': "workers s' = (workers s)[i := ?w]" "awake ?w"
        "actions_left ?w < actions_left (workers s ! i)" "destroyer s' = destroyer s" by simp_all
      have len: "length (workers s') = length (workers s)" by (subst w'(1)) simp
      have "set (workers s') \<subseteq> insert ?w (set (workers s))" by (subst w'(1)) (rule set_update_subset_insert)
      then have "\<forall>w \<in> set (workers s'). awake w" using w'(2) e by (auto simp: ending_def)
      moreover have "sum_list (map actions_left (workers s')) < sum_list (map actions_left (workers s))"
        by (subst w'(1)) (rule sum_list_update_less[OF i w'(3)])
      ultimately show ?thesis using inv k len w'(4) 1 by (simp add: ending_def left_def)
    next
      case 2
      then have "k < length (workers s)" "s' = s\<lparr>destroyer := Joining (Suc k)\<rparr>" using f k(1) by (simp_all split: if_splits)
      then show ?thesis using inv e k(1) 2 by (auto simp: ending_def left_def)
    qed
  qed
qed

lemma ending_tasks: "ending s \<Longrightarrow> lock_inv (s\<lparr>tasks := ts\<rparr>) \<Longrightarrow> ending (s\<lparr>tasks := ts\<rparr>) \<and> left (s\<lparr>tasks := ts\<rparr>) = left s"
  by (simp add: ending_def left_def run_inv_def split: destroyer.split)

text \<open>Until all are joined, somebody can go on.\<close>

lemma ending_progress:
  assumes e: "ending s" and k: "destroyer s = Joining k" "k < length (workers s)"
  shows "\<exists>ev s'. own ev \<and> fire ev s = Some (Inr s')"
proof (cases "\<exists>i < length (workers s). workers s ! i \<noteq> Exited")
  case False
  then have "fire Join s = Some (Inr (s\<lparr>destroyer := Joining (Suc k)\<rparr>))" using k by simp
  moreover have "own Join" by simp
  ultimately show ?thesis by blast
next
  case True
  have lock: "lock_inv s" and stop: "\<not> run s" and up: "\<And>i. i < length (workers s) \<Longrightarrow> awake (workers s ! i)"
    using e ending_stopped[OF e] by (auto simp: ending_def)
  have go: "\<exists>s'. fire (Work i) s = Some (Inr s')"
    if "i < length (workers s)" "workers s ! i \<noteq> Exited" "workers s ! i \<in> {Acquire, Woken} \<longrightarrow> holder s = None" for i
    using that up[of i] stop by (auto simp: work_def awake_def split: worker.splits list.splits)
  have "\<exists>i s'. fire (Work i) s = Some (Inr s')"
  proof (cases "holder s")
    case None
    then show ?thesis using True go by blast
  next
    case (Some j)
    then have "j < length (workers s)" "holding (workers s ! j)" using lock by (auto simp: lock_inv_def)
    then show ?thesis using go[of j] by (auto simp: holding_def)
  qed
  then show ?thesis using own.simps(1) by blast
qed

subsection \<open>A program around a pool\<close>

locale pool_runs =
  fixes act :: "'e \<Rightarrow> 's \<Rightarrow> (fault + 's) option"
    and view :: "'s \<Rightarrow> pool"
    and pool_event :: "'e \<Rightarrow> event option"
    and of_event :: "event \<Rightarrow> 'e"
    and ok :: "'s \<Rightarrow> bool"
  assumes keeps: "ok s \<Longrightarrow> act e s = Some (Inr s') \<Longrightarrow> ok s'"
    and locked: "ok s \<Longrightarrow> lock_inv (view s)"
    and pool_acts: "ok s \<Longrightarrow> act e s = Some (Inr s') \<Longrightarrow> pool_event e = Some p \<Longrightarrow> fire p (view s) = Some (Inr (view s'))"
    and other_acts: "ok s \<Longrightarrow> act e s = Some (Inr s') \<Longrightarrow> pool_event e = None \<Longrightarrow> \<exists>ts. view s' = (view s)\<lparr>tasks := ts\<rparr>"
    and event_inverse: "pool_event (of_event p) = Some p"
    and can_act: "ok s \<Longrightarrow> fire p (view s) = Some (Inr q) \<Longrightarrow> \<exists>s'. act (of_event p) s = Some (Inr s')"
begin

definition own_act :: "'e \<Rightarrow> bool" where
  "own_act e \<longleftrightarrow> (case pool_event e of None \<Rightarrow> False | Some p \<Rightarrow> own p)"

lemma act_ending:
  assumes "ok s" "ending (view s)" "act e s = Some (Inr s')"
  shows "ending (view s') \<and> length (workers (view s')) = length (workers (view s)) \<and>
    left (view s') + (if own_act e then 1 else 0) \<le> left (view s)"
proof (cases "pool_event e")
  case None
  then obtain ts where "view s' = (view s)\<lparr>tasks := ts\<rparr>" using other_acts[OF assms(1,3)] by blast
  moreover have "lock_inv (view s')" using locked keeps assms(1,3) by blast
  ultimately show ?thesis using ending_tasks[OF assms(2)] None by (simp add: own_act_def)
next
  case (Some p)
  then show ?thesis using fire_ending[OF assms(2) pool_acts[OF assms(1,3) Some]] by (simp add: own_act_def)
qed

lemma runs_ending:
  assumes "ok s" "ending (view s)" "runs act es s = Some s'"
  shows "ok s' \<and> ending (view s') \<and> length (workers (view s')) = length (workers (view s)) \<and>
    left (view s') + length (filter own_act es) \<le> left (view s)"
  using assms
proof (induction es arbitrary: s)
  case (Cons e es)
  then obtain s1 where s1: "act e s = Some (Inr s1)" "runs act es s1 = Some s'"
    by (auto split: option.splits sum.splits)
  have e: "ok s1" "ending (view s1) \<and> length (workers (view s1)) = length (workers (view s)) \<and>
      left (view s1) + (if own_act e then 1 else 0) \<le> left (view s)"
    using keeps act_ending Cons.prems(1,2) s1(1) by blast+
  then show ?case using Cons.IH[OF e(1) _ s1(2)] by auto
qed simp

lemma shutdown:
  assumes "ok s" "ending (view s)" "runs act es s = Some s'"
  shows "length (filter own_act es) \<le> 8 * length (workers (view s)) \<and>
    (destroyer (view s') = Joining (length (workers (view s))) \<or> (\<exists>e s''. own_act e \<and> act e s' = Some (Inr s'')))"
proof -
  have r: "ok s'" "ending (view s')" "length (workers (view s')) = length (workers (view s))"
    "left (view s') + length (filter own_act es) \<le> left (view s)"
    using runs_ending[OF assms] by simp_all
  obtain k where k: "destroyer (view s') = Joining k" "k \<le> length (workers (view s'))"
    using r(2) by (auto simp: ending_def)
  have "\<exists>e s''. own_act e \<and> act e s' = Some (Inr s'')" if lt: "k < length (workers (view s'))"
  proof -
    obtain p q where p: "own p" "fire p (view s') = Some (Inr q)" using ending_progress[OF r(2) k(1) lt] by blast
    then have "own_act (of_event p)" by (simp add: own_act_def event_inverse)
    then show ?thesis using can_act[OF r(1) p(2)] by blast
  qed
  then show ?thesis using k r(3,4) left_le[of "view s"] by fastforce
qed

end

subsection \<open>The two pools\<close>

text \<open>The plain pool is such a program, with no other events.\<close>

definition pool_ok :: "pool \<Rightarrow> bool" where
  "pool_ok s \<longleftrightarrow> lock_inv s \<and> run_inv s \<and> (\<forall>k. destroyer s = Joining k \<longrightarrow> k \<le> length (workers s))"

lemma fire_joined:
  assumes "run_inv s" "\<forall>k. destroyer s = Joining k \<longrightarrow> k \<le> length (workers s)" "fire e s = Some (Inr s')"
  shows "\<forall>k. destroyer s' = Joining k \<longrightarrow> k \<le> length (workers s')"
proof (cases "e = Join \<or> e = NotifyAll \<or> e = Stop \<or> e = Spawn")
  case True
  then show ?thesis using assms by (auto simp: run_inv_def split: if_splits destroyer.splits)
next
  case False
  have "length (workers s') = length (workers s) \<and> destroyer s' = destroyer s"
  proof (cases e)
    case (Work i)
    then show ?thesis
      using assms(3) by (auto simp: work_def set_worker_def split: worker.splits if_splits list.splits)
  next
    case (NotifyOne k)
    then show ?thesis using assms(3) by (cases k) (auto simp: wake_def set_worker_def split: if_splits)
  qed (use assms(3) False in \<open>auto simp: wake_def set_worker_def Let_def split: if_splits\<close>)
  then show ?thesis using assms(2) by simp
qed

lemma fire_pool_ok: "pool_ok s \<Longrightarrow> fire e s = Some (Inr s') \<Longrightarrow> pool_ok s'"
  unfolding pool_ok_def using fire_lock_inv fire_run_inv fire_joined by blast

lemma reachable_pool_ok: "reachable s \<Longrightarrow> pool_ok s"
proof (induction rule: reachable.induct)
  case reachable_new
  then show ?case by (simp add: pool_ok_def new_pool_def lock_inv_def run_inv_def)
next
  case (reachable_step s e s')
  then show ?case using fire_pool_ok by blast
qed

interpretation plain_end: pool_runs fire "\<lambda>s. s" Some "\<lambda>e. e" pool_ok
proof
  show "pool_ok s'" if "pool_ok s" "fire e s = Some (Inr s')" for s e s' using that by (rule fire_pool_ok)
qed (simp_all add: pool_ok_def)

text \<open>The servers' pool is one, with closing a descriptor as the other event.\<close>

fun threads_event :: "server_pool_event \<Rightarrow> event option" where
  "threads_event (Pool e) = Some e"
| "threads_event (CloseFD fd) = None"

definition server_pool_ok :: "(Thread_Pool.task \<Rightarrow> fd) \<Rightarrow> server_pool \<Rightarrow> bool" where
  "server_pool_ok fd_of s \<longleftrightarrow> server_pool_inv fd_of s \<and> pool_ok (the_pool s)"

lemma server_close_acts:
  assumes "server_fire fd_of (CloseFD fd) s = Some (Inr s')"
  shows "\<exists>ts. the_pool s' = (the_pool s)\<lparr>tasks := ts\<rparr>"
  using assms by (auto simp: the_pool_def bindE_Inr_iff split: if_splits)

lemma server_pool_ok_step:
  assumes ok: "server_pool_ok fd_of s" and f: "server_fire fd_of e s = Some (Inr s')"
  shows "server_pool_ok fd_of s'"
proof (cases e)
  case (Pool p)
  then show ?thesis
    using ok f server_step_pool[of fd_of s p s'] server_pool_acts[of fd_of s p s'] fire_pool_ok[of "the_pool s" p]
    by (simp add: server_pool_ok_def del: server_fire.simps)
next
  case (CloseFD fd)
  have inv: "server_pool_inv fd_of s'" using server_step_close[of fd_of s fd s'] ok f CloseFD by (simp add: server_pool_ok_def del: server_fire.simps)
  obtain ts where "the_pool s' = (the_pool s)\<lparr>tasks := ts\<rparr>" using server_close_acts f CloseFD by blast
  then have "pool_ok (the_pool s')" using ok inv by (simp add: server_pool_ok_def pool_ok_def server_pool_inv_def)
  then show ?thesis using inv by (simp add: server_pool_ok_def)
qed

lemma server_reachable_ok: "server_reachable fd_of s \<Longrightarrow> server_pool_ok fd_of s"
proof (induction rule: server_reachable.induct)
  case server_new
  have "the_pool new_server_pool = new_pool"
    by (simp add: the_pool_def new_server_pool_def queued_def new_fd_pool_def new_pool_def)
  then show ?case
    using server_reachable_inv[OF server_reachable.server_new] reachable_pool_ok[OF reachable_new]
    by (simp add: server_pool_ok_def)
next
  case (server_step s e s')
  then show ?case using server_pool_ok_step by blast
qed

interpretation server_end: pool_runs "server_fire fd_of" the_pool threads_event Pool "server_pool_ok fd_of"
proof
  fix s e s' p
  assume ok: "server_pool_ok fd_of s" and f: "server_fire fd_of e s = Some (Inr s')"
  show "server_pool_ok fd_of s'" by (rule server_pool_ok_step[OF ok f])
  show "fire p (the_pool s) = Some (Inr (the_pool s'))" if "threads_event e = Some p"
    using that ok f server_pool_acts by (cases e) (auto simp: server_pool_ok_def simp del: server_fire.simps)
  show "\<exists>ts. the_pool s' = (the_pool s)\<lparr>tasks := ts\<rparr>" if "threads_event e = None"
    using that f server_close_acts by (cases e) (auto simp del: server_fire.simps)
next
  fix s p q
  assume ok: "server_pool_ok fd_of s"
  then show "lock_inv (the_pool s)" by (simp add: server_pool_ok_def server_pool_inv_def)
  show "\<exists>s'. server_fire fd_of (Pool p) s = Some (Inr s')" if "fire p (the_pool s) = Some (Inr q)"
    using server_pool_can_act[OF _ that] ok by (simp add: server_pool_ok_def)
qed simp

lemma own_acts [simp]: "plain_end.own_act = own" "server_end.own_act (Pool e) = own e" "\<not> server_end.own_act (CloseFD fd)"
  by (simp_all add: fun_eq_iff plain_end.own_act_def server_end.own_act_def)

subsection \<open>Properties\<close>

text \<open>How a pool gets there: the destructor has notified, and the workers are in the given places.\<close>

definition notified :: "pool \<Rightarrow> bool" where
  "notified s \<longleftrightarrow> (\<exists>k. destroyer s = Joining k) \<and> (\<forall>w \<in> set (workers s). awake w)"

lemma notified_ending: "pool_ok s \<Longrightarrow> notified s \<Longrightarrow> ending s"
  by (auto simp: pool_ok_def notified_def ending_def)

lemma notified_threads: "notified (threads s) \<longleftrightarrow> notified (the_pool s)"
  by (simp add: notified_def the_pool_def)

text \<open>C23: once \<open>Destory\<close> has notified and no worker sleeps or is about to, it returns: whatever happens then,
  the workers and the join have at most eight actions left for each worker, and until all workers
  are joined one of these actions is possible.\<close>

theorem destroy_returns:
  assumes "reachable s" "notified s" "runs fire es s = Some s'"
  shows "length (filter own es) \<le> 8 * ThrCount s \<and>
    (destroyer s' = Joining (ThrCount s) \<or> (\<exists>e s''. own e \<and> fire e s' = Some (Inr s'')))"
  using plain_end.shutdown[OF _ _ assms(3)] reachable_pool_ok[OF assms(1)] notified_ending[OF _ assms(2)]
  by (simp add: ThrCount_def)

theorem destroy_returns_witness:
  "\<exists>s s'. fires (idle_worker @ [Work 0, AddTask 7, Push 0, Stop, NotifyAll]) new_pool = Some s
     \<and> runs fire [Work 0, Work 0, Work 0, Work 0, Work 0] s = Some s'
     \<and> (\<exists>e s''. own e \<and> fire e s' = Some (Inr s''))"
proof -
  let ?es = "[Work 0, Work 0, Work 0, Work 0, Work 0]"
  obtain s s' where s: "fires (idle_worker @ [Work 0, AddTask 7, Push 0, Stop, NotifyAll]) new_pool = Some s" "notified s"
    "runs fire ?es s = Some s'" "destroyer s' = Joining 0" "ThrCount s = 1"
    by (simp add: idle_worker_def new_pool_def work_def wake_def set_worker_def THREADPOOL_MAX_NUM_def notified_def awake_def ThrCount_def)
  with destroy_returns[OF fires_reachable[OF reachable_new s(1)] s(2,3)] show ?thesis by auto
qed

text \<open>The destructor of the servers' pool, while descriptors are closed.\<close>

theorem server_destroy_returns:
  assumes "server_reachable fd_of s" "notified (threads s)" "runs (server_fire fd_of) es s = Some s'"
  shows "length (filter server_end.own_act es) \<le> 8 * ThrCount (threads s) \<and>
    (destroyer (threads s') = Joining (ThrCount (threads s)) \<or>
     (\<exists>e s''. own e \<and> server_fire fd_of (Pool e) s' = Some (Inr s'')))"
proof -
  have ok: "server_pool_ok fd_of s" by (rule server_reachable_ok[OF assms(1)])
  then have "ending (the_pool s)" using notified_ending assms(2) by (simp add: server_pool_ok_def notified_threads)
  from server_end.shutdown[OF ok this assms(3)] have
    "length (filter server_end.own_act es) \<le> 8 * length (workers (threads s)) \<and>
     (destroyer (threads s') = Joining (length (workers (threads s))) \<or>
      (\<exists>e s''. server_end.own_act e \<and> server_fire fd_of e s' = Some (Inr s'')))"
    by (simp add: the_pool_def)
  moreover have "\<exists>p. e = Pool p \<and> own p" if "server_end.own_act e" for e using that by (cases e) simp_all
  ultimately show ?thesis unfolding ThrCount_def by metis
qed

end
