(* ===== verification/Epoll_Socket.thy ===== *)
theory Epoll_Socket
  imports Prelude "HOL-Library.Word"
begin

section \<open>Framed messages over a socket\<close>

text \<open>
  \<^verbatim>\<open>src/tools/sync_file/epoll_socket/epoll_socket.cpp\<close>. A connection is the bytes written to it, the
  bytes that still arrive before the peer closes, and for each direction the script of what the
  kernel does in successive calls: move at most so many bytes (at least one), report \<open>EAGAIN\<close>, or
  fail. Writing to a peer that has closed the connection is \<open>Pipe\<close>: the kernel then sends the process
  \<open>SIGPIPE\<close>, which no program of the repository handles, blocks or suppresses, and the process ends
  (\<open>Killed\<close>). A call that is not back when the script ends has the value \<open>StillWaiting\<close>. Bytes are
  \<open>8 word\<close>; an \<open>int64_t\<close> travels as its eight bytes, lowest first, as both ends of the program
  lay it out in memory.
\<close>

type_synonym byte = "8 word"

datatype io = Ready nat | Again | Broken | Pipe

record conn =
  sends :: "io list"
  recvs :: "io list"
  outgoing :: "byte list"
  incoming :: "byte list"

subsection \<open>The loops\<close>

text \<open>
  The first test of each loop compares the result of the call with the number of bytes that remain,
  so a failed call, whose result is \<open>-1\<close>, counts as success when that number is \<open>-1\<close>.
\<close>

primrec send_loop :: "io list \<Rightarrow> byte list \<Rightarrow> int \<Rightarrow> int \<Rightarrow> byte list \<Rightarrow> fault + int \<times> io list \<times> byte list" where
  "send_loop [] buf i r out = Inl StillWaiting"
| "send_loop (x # s) buf i r out =
     (case x of
        Again \<Rightarrow> if r = - 1 then Inr (0, s, out) else send_loop s buf i r out
      | Broken \<Rightarrow> Inr (if r = - 1 then 0 else - 1, s, out)
      | Pipe \<Rightarrow> Inl Killed
      | Ready k \<Rightarrow>
          if r < 0 then Inl OutOfBounds
          else let n = min (int (Suc k)) r in
            if int (length buf) < i + n then Inl OutOfBounds
            else let out' = out @ take (nat n) (drop (nat i) buf) in
              if n = r then Inr (0, s, out')
              else if 0 < n then send_loop s buf (i + n) (r - n) out'
              else Inr (- 1, s, out'))"

definition SendSocket :: "byte list \<Rightarrow> int \<Rightarrow> conn \<Rightarrow> fault + int \<times> conn" where
  "SendSocket buf dataSize c =
     bindE (send_loop (sends c) buf 0 dataSize (outgoing c)) (\<lambda>(ret, s, out).
       Inr (ret, c\<lparr>sends := s, outgoing := out\<rparr>))"

text \<open>A negative size reaches \<open>recv\<close> as a huge \<open>size_t\<close>. Received bytes land in the buffer.\<close>

definition size_t :: "int \<Rightarrow> int" where
  "size_t r = (if r < 0 then r + 2 ^ 64 else r)"

definition store_at :: "int \<Rightarrow> byte list \<Rightarrow> byte list \<Rightarrow> byte list" where
  "store_at i bs buf = take (nat i) buf @ bs @ drop (nat i + length bs) buf"

primrec recv_loop :: "io list \<Rightarrow> byte list \<Rightarrow> int \<Rightarrow> int \<Rightarrow> byte list \<Rightarrow> fault + int \<times> byte list \<times> io list \<times> byte list" where
  "recv_loop [] buf i r inc = Inl StillWaiting"
| "recv_loop (x # s) buf i r inc =
     (case x of
        Again \<Rightarrow> if r = - 1 then Inr (0, buf, s, inc) else recv_loop s buf i r inc
      | Ready k \<Rightarrow>
          let n = min (min (int (Suc k)) (size_t r)) (int (length inc)) in
          if int (length buf) < i + n then Inl OutOfBounds
          else let buf' = store_at i (take (nat n) inc) buf; inc' = drop (nat n) inc in
            if n = r then Inr (0, buf', s, inc')
            else if 0 < n then recv_loop s buf' (i + n) (r - n) inc'
            else Inr (- 1, buf', s, inc')
      | _ \<Rightarrow> Inr (if r = - 1 then 0 else - 1, buf, s, inc))"

definition RecvSocket :: "byte list \<Rightarrow> int \<Rightarrow> conn \<Rightarrow> fault + int \<times> byte list \<times> conn" where
  "RecvSocket buf dataSize c =
     bindE (recv_loop (recvs c) buf 0 dataSize (incoming c)) (\<lambda>(ret, buf', s, inc).
       Inr (ret, buf', c\<lparr>recvs := s, incoming := inc\<rparr>))"

subsection \<open>Cleared buffers, C strings and integers in memory\<close>

definition zeros :: "nat \<Rightarrow> byte list" where
  "zeros n = replicate n 0"

definition c_string :: "byte list \<Rightarrow> byte list" where
  "c_string bs = takeWhile (\<lambda>b. b \<noteq> 0) bs"

text \<open>What a function that takes a C string reads; an array without a zero byte it reads past its end.\<close>

definition read_c_string :: "byte list \<Rightarrow> fault + byte list" where
  "read_c_string buf = (if 0 \<in> set buf then Inr (c_string buf) else Inl OutOfBounds)"

lemma c_string_zeros: "0 \<notin> set name \<Longrightarrow> 0 < n \<Longrightarrow> c_string (name @ zeros n) = name"
  by (cases n) (auto simp: c_string_def zeros_def takeWhile_append)

fun le_bytes :: "nat \<Rightarrow> int \<Rightarrow> byte list" where
  "le_bytes 0 x = []"
| "le_bytes (Suc n) x = word_of_int x # le_bytes n (x div 256)"

fun le_value :: "byte list \<Rightarrow> int" where
  "le_value [] = 0"
| "le_value (b # bs) = uint b + 256 * le_value bs"

definition of_i64 :: "int \<Rightarrow> byte list" where
  "of_i64 x = le_bytes 8 x"

definition i64_of :: "byte list \<Rightarrow> int" where
  "i64_of bs = sint (word_of_int (le_value bs) :: 64 word)"

lemma length_le_bytes [simp]: "length (le_bytes n x) = n"
  by (induction n arbitrary: x) auto

lemma le_value_bytes: "le_value (le_bytes n x) = x mod 256 ^ n"
proof (induction n arbitrary: x)
  case (Suc n)
  have "x mod 256 ^ Suc n = x mod 256 + 256 * (x div 256 mod 256 ^ n)"
    by (simp add: zmod_zmult2_eq)
  then show ?case using Suc by (simp add: uint_word_of_int)
qed simp

lemma length_of_i64 [simp]: "length (of_i64 x) = 8"
  by (simp add: of_i64_def)

lemma i64_roundtrip: "in_i64 x \<Longrightarrow> i64_of (of_i64 x) = x"
proof -
  assume x: "in_i64 x"
  have "i64_of (of_i64 x) = sint (word_of_int (x mod 2 ^ 64) :: 64 word)"
    by (simp add: i64_of_def of_i64_def le_value_bytes)
  also have "(word_of_int (x mod 2 ^ 64) :: 64 word) = word_of_int x"
    by (simp add: word_of_int_eq_iff take_bit_eq_mod)
  also have "sint (word_of_int x :: 64 word) = x"
    using x by (simp add: in_i64_def sint_sbintrunc' signed_take_bit_int_eq_self)
  finally show ?thesis .
qed

subsection \<open>Frames\<close>

definition RecvBuff :: "byte list \<Rightarrow> conn \<Rightarrow> fault + int \<times> byte list \<times> conn" where
  "RecvBuff buff c =
     bindE (RecvSocket (of_i64 0) 8 c) (\<lambda>(ret_len, len_bytes, c1).
       let recv_len = i64_of len_bytes in
       bindE (RecvSocket buff recv_len c1) (\<lambda>(ret_buff, buff', c2).
         Inr (recv_len, buff', c2)))"

definition SendBuff :: "byte list \<Rightarrow> int \<Rightarrow> conn \<Rightarrow> fault + bool \<times> conn" where
  "SendBuff buff len c =
     bindE (SendSocket (of_i64 len) 8 c) (\<lambda>(ret_len, c1).
     bindE (SendSocket buff len c1) (\<lambda>(ret_buff, c2).
       Inr (0 \<le> ret_buff \<and> 0 \<le> ret_len, c2)))"

subsection \<open>Whatever the chunks, everything goes through\<close>

definition ready :: "io list \<Rightarrow> nat" where
  "ready s = length (filter (\<lambda>x. x \<noteq> Again) s)"

text \<open>A script that does not fail and lets at least \<open>n\<close> calls through.\<close>

definition serves :: "nat \<Rightarrow> io list \<Rightarrow> bool" where
  "serves n s \<longleftrightarrow> Broken \<notin> set s \<and> Pipe \<notin> set s \<and> n \<le> ready s"

lemma serves_simps [simp]:
  "serves n (Again # s) = serves n s" "serves n (Ready k # s) = (serves (n - 1) s)" "\<not> serves n (Broken # s)"
  "\<not> serves n (Pipe # s)"
  "serves n [] = (n = 0)"
  by (auto simp: serves_def ready_def)

lemma serves_mono: "serves n s \<Longrightarrow> m \<le> n \<Longrightarrow> serves m s"
  by (auto simp: serves_def)

lemma serves_replicate: "serves m (replicate n (Ready k)) \<longleftrightarrow> m \<le> n"
  by (simp add: serves_def ready_def)

lemma send_loop_ok:
  assumes "0 \<le> i" "0 \<le> r" "i + r \<le> int (length buf)" "serves (m + max 1 (nat r)) s"
  shows "\<exists>s'. send_loop s buf i r out = Inr (0, s', out @ take (nat r) (drop (nat i) buf)) \<and> serves m s'"
  using assms
proof (induction s arbitrary: i r out)
  case (Cons x s)
  show ?case
  proof (cases x)
    case (Ready k)
    let ?n = "min (int (Suc k)) r"
    show ?thesis
    proof (cases "?n = r")
      case True
      have "serves m s" using Cons.prems(4) Ready by (auto intro: serves_mono)
      then show ?thesis using True Cons.prems(1-3) Ready by auto
    next
      case False
      then have n: "?n = int (Suc k)" "int (Suc k) < r" by auto
      have split: "take (Suc k) (drop (nat i) buf) @ take (nat (r - int (Suc k))) (drop (nat (i + int (Suc k))) buf)
          = take (nat r) (drop (nat i) buf)"
      proof -
        have "nat r = Suc k + nat (r - int (Suc k))" "nat (i + int (Suc k)) = Suc k + nat i" using n Cons.prems(1) by auto
        then show ?thesis by (metis drop_drop take_add)
      qed
      have "serves (m + max 1 (nat (r - int (Suc k)))) s"
        using Cons.prems(4) Ready n(2) by (auto intro: serves_mono)
      with Cons.IH[of "i + int (Suc k)" "r - int (Suc k)" "out @ take (Suc k) (drop (nat i) buf)"] Cons.prems(1-3) n(2)
      obtain s' where "send_loop s buf (i + int (Suc k)) (r - int (Suc k)) (out @ take (Suc k) (drop (nat i) buf))
          = Inr (0, s', out @ take (nat r) (drop (nat i) buf))" "serves m s'"
        using split by auto
      moreover have "nat (1 + int k) = Suc k" by simp
      ultimately show ?thesis using Ready n False Cons.prems(1-3) by (simp add: Let_def)
    qed
  qed (use Cons in simp_all)
qed simp

lemma length_store_at: "0 \<le> i \<Longrightarrow> nat i + length bs \<le> length buf \<Longrightarrow> length (store_at i bs buf) = length buf"
  by (simp add: store_at_def)

lemma store_at_append:
  assumes "0 \<le> i" "nat i + length a + length b \<le> length buf"
  shows "store_at (i + int (length a)) b (store_at i a buf) = store_at i (a @ b) buf"
proof -
  have "nat (i + int (length a)) = nat i + length a" using assms(1) by (simp add: nat_add_distrib)
  then show ?thesis using assms(2) by (simp add: store_at_def ac_simps)
qed

lemma recv_loop_ok:
  assumes "0 \<le> i" "0 \<le> r" "i + r \<le> int (length buf)" "r \<le> int (length inc)" "serves (m + max 1 (nat r)) s"
  shows "\<exists>s'. recv_loop s buf i r inc = Inr (0, store_at i (take (nat r) inc) buf, s', drop (nat r) inc) \<and> serves m s'"
  using assms
proof (induction s arbitrary: i r buf inc)
  case (Cons x s)
  show ?case
  proof (cases x)
    case (Ready k)
    have sz: "size_t r = r" using Cons.prems(2) by (simp add: size_t_def)
    show ?thesis
    proof (cases "r \<le> int (Suc k)")
      case True
      have "serves m s" using Cons.prems(5) Ready by (auto intro: serves_mono)
      then show ?thesis using True Cons.prems(1-4) Ready sz by (simp add: Let_def min_def)
    next
      case False
      let ?a = "take (Suc k) inc" and ?inc = "drop (Suc k) inc" and ?r = "r - int (Suc k)" and ?i = "i + int (Suc k)"
      have len: "length ?a = Suc k" using False Cons.prems(4) by auto
      have "serves (m + max 1 (nat ?r)) s" using Cons.prems(5) Ready False by (auto intro: serves_mono)
      moreover have "?i + ?r \<le> int (length (store_at i ?a buf))"
        using length_store_at[of i ?a buf] len Cons.prems(1-4) False by auto
      ultimately obtain s' where s': "recv_loop s (store_at i ?a buf) ?i ?r ?inc
          = Inr (0, store_at ?i (take (nat ?r) ?inc) (store_at i ?a buf), s', drop (nat ?r) ?inc)" "serves m s'"
        using Cons.IH[of ?i ?r "store_at i ?a buf" ?inc] False Cons.prems(1,4) by auto
      have r: "nat r = Suc k + nat ?r" using False by simp
      have "length (take (nat ?r) ?inc) = nat ?r" using Cons.prems(4) False by auto
      then have "store_at ?i (take (nat ?r) ?inc) (store_at i ?a buf) = store_at i (take (nat r) inc) buf"
      proof -
        have "?a @ take (nat ?r) ?inc = take (nat r) inc" unfolding r by (rule take_add[symmetric])
        moreover have "nat i + length ?a + length (take (nat ?r) ?inc) \<le> length buf"
          using len \<open>length (take (nat ?r) ?inc) = nat ?r\<close> Cons.prems(1-3) False by linarith
        ultimately show ?thesis using store_at_append[of i ?a "take (nat ?r) ?inc" buf] len Cons.prems(1) by simp
      qed
      moreover have "drop (nat ?r) ?inc = drop (nat r) inc" by (simp add: r add.commute)
      moreover have "nat (1 + int k) = Suc k" "min (min (1 + int k) r) (int (length inc)) = 1 + int k"
        using False Cons.prems(4) by auto
      ultimately show ?thesis using Ready s' sz False Cons.prems(1-4) by (simp add: Let_def)
    qed
  qed (use Cons in simp_all)
qed simp

subsection \<open>The interface that the file transfer relies on\<close>

definition frame :: "byte list \<Rightarrow> byte list" where
  "frame m = of_i64 (int (length m)) @ m"

definition frame_cost :: "nat \<Rightarrow> nat" where
  "frame_cost n = 8 + max 1 n"

text \<open>
  A pair of operations that carry messages: sending appends the frame of a message to the outgoing
  bytes; receiving takes the next frame off the incoming ones and puts the message at the start of
  the buffer. Both need a bounded number of calls that get through, whatever the chunks are.
\<close>

locale message_channel =
  fixes send_msg :: "byte list \<Rightarrow> int \<Rightarrow> conn \<Rightarrow> fault + bool \<times> conn"
    and recv_msg :: "byte list \<Rightarrow> conn \<Rightarrow> fault + int \<times> byte list \<times> conn"
  assumes send_law:
    "0 \<le> len \<Longrightarrow> len \<le> int (length buf) \<Longrightarrow> len < 2 ^ 63 \<Longrightarrow> serves (k + frame_cost (nat len)) (sends c) \<Longrightarrow>
     \<exists>s. send_msg buf len c = Inr (True, c\<lparr>sends := s, outgoing := outgoing c @ frame (take (nat len) buf)\<rparr>) \<and> serves k s"
    and recv_law:
    "incoming c = frame m @ rest \<Longrightarrow> length m \<le> length buf \<Longrightarrow> length m < 2 ^ 63 \<Longrightarrow>
     serves (k + frame_cost (length m)) (recvs c) \<Longrightarrow>
     \<exists>s. recv_msg buf c = Inr (int (length m), store_at 0 m buf, c\<lparr>recvs := s, incoming := rest\<rparr>) \<and> serves k s"

lemma SendSocket_ok:
  assumes "0 \<le> n" "n \<le> int (length buf)" "serves (m + max 1 (nat n)) (sends c)"
  shows "\<exists>s. SendSocket buf n c = Inr (0, c\<lparr>sends := s, outgoing := outgoing c @ take (nat n) buf\<rparr>) \<and> serves m s"
  using send_loop_ok[of 0 n buf m "sends c" "outgoing c"] assms by (auto simp: SendSocket_def)

lemma RecvSocket_ok:
  assumes "0 \<le> n" "n \<le> int (length buf)" "n \<le> int (length (incoming c))" "serves (m + max 1 (nat n)) (recvs c)"
  shows "\<exists>s. RecvSocket buf n c = Inr (0, store_at 0 (take (nat n) (incoming c)) buf,
    c\<lparr>recvs := s, incoming := drop (nat n) (incoming c)\<rparr>) \<and> serves m s"
  using recv_loop_ok[of 0 n buf "incoming c" m "recvs c"] assms by (auto simp: RecvSocket_def)

interpretation frames: message_channel SendBuff RecvBuff
proof
  fix len :: int and buf :: "byte list" and k and c :: conn
  assume a: "0 \<le> len" "len \<le> int (length buf)" "len < 2 ^ 63" "serves (k + frame_cost (nat len)) (sends c)"
  then have "serves (k + max 1 (nat len) + max 1 (nat 8)) (sends c)"
    by (simp add: frame_cost_def ac_simps)
  then obtain s1 where s1: "SendSocket (of_i64 len) 8 c = Inr (0, c\<lparr>sends := s1, outgoing := outgoing c @ of_i64 len\<rparr>)"
    "serves (k + max 1 (nat len)) s1"
    using SendSocket_ok[of 8 "of_i64 len" "k + max 1 (nat len)" c] by auto
  then obtain s2 where "SendSocket buf len (c\<lparr>sends := s1, outgoing := outgoing c @ of_i64 len\<rparr>)
      = Inr (0, c\<lparr>sends := s2, outgoing := outgoing c @ of_i64 len @ take (nat len) buf\<rparr>)" "serves k s2"
    using SendSocket_ok[of len buf k "c\<lparr>sends := s1, outgoing := outgoing c @ of_i64 len\<rparr>"] a(1,2) by auto
  then show "\<exists>s. SendBuff buf len c = Inr (True, c\<lparr>sends := s, outgoing := outgoing c @ frame (take (nat len) buf)\<rparr>) \<and> serves k s"
    using s1 a(1,2) by (auto simp: SendBuff_def frame_def)
next
  fix c :: conn and m rest buf :: "byte list" and k
  assume a: "incoming c = frame m @ rest" "length m \<le> length buf" "length m < 2 ^ 63"
    "serves (k + frame_cost (length m)) (recvs c)"
  then have "serves (k + max 1 (length m) + max 1 (nat 8)) (recvs c)"
    by (simp add: frame_cost_def ac_simps)
  then obtain s1 where s1: "RecvSocket (of_i64 0) 8 c
      = Inr (0, of_i64 (int (length m)), c\<lparr>recvs := s1, incoming := m @ rest\<rparr>)" "serves (k + max 1 (length m)) s1"
    using RecvSocket_ok[of 8 "of_i64 0" c "k + max 1 (length m)"] a(1) by (auto simp: frame_def store_at_def)
  then obtain s2 where "RecvSocket buf (int (length m)) (c\<lparr>recvs := s1, incoming := m @ rest\<rparr>)
      = Inr (0, store_at 0 m buf, c\<lparr>recvs := s2, incoming := rest\<rparr>)" "serves k s2"
    using RecvSocket_ok[of "int (length m)" buf "c\<lparr>recvs := s1, incoming := m @ rest\<rparr>" k] a(2) by auto
  moreover have "i64_of (of_i64 (int (length m))) = int (length m)"
    using a(3) by (intro i64_roundtrip) (simp add: in_i64_def)
  ultimately show "\<exists>s. RecvBuff buf c = Inr (int (length m), store_at 0 m buf, c\<lparr>recvs := s, incoming := rest\<rparr>) \<and> serves k s"
    using s1 by (auto simp: RecvBuff_def)
qed

text \<open>C16: a message sent with \<open>SendBuff\<close> and read with \<open>RecvBuff\<close> arrives whole, however many bytes the two
  kernels move at a time and however often they report \<open>EAGAIN\<close>: the length returned is the one
  sent, the message stands at the start of the buffer, and the bytes behind it are left unread.\<close>

theorem SendBuff_RecvBuff:
  assumes "0 \<le> len" "len \<le> int (length buf)" "len < 2 ^ 63" "nat len \<le> length dst" "outgoing a = []"
    and "serves (frame_cost (nat len)) (sends a)" "serves (frame_cost (nat len)) (recvs b)"
  shows "\<exists>a' b'. SendBuff buf len a = Inr (True, a')
    \<and> RecvBuff dst (b\<lparr>incoming := outgoing a' @ rest\<rparr>) = Inr (len, take (nat len) buf @ drop (nat len) dst, b')
    \<and> incoming b' = rest"
proof -
  let ?m = "take (nat len) buf"
  have m: "int (length ?m) = len" "length ?m = nat len" using assms(1,2) by auto
  obtain s where s: "SendBuff buf len a = Inr (True, a\<lparr>sends := s, outgoing := frame ?m\<rparr>)"
    using frames.send_law[of len buf 0 a] assms by auto
  let ?b = "b\<lparr>incoming := frame ?m @ rest\<rparr>"
  have "length ?m \<le> length dst" "length ?m < 2 ^ 63" "serves (0 + frame_cost (length ?m)) (recvs ?b)"
    unfolding m(2) using assms(3,4,7) by simp_all
  from frames.recv_law[of ?b ?m rest, OF _ this] obtain r where
    "RecvBuff dst ?b = Inr (int (length ?m), store_at 0 ?m dst, ?b\<lparr>recvs := r, incoming := rest\<rparr>)" by auto
  then have "RecvBuff dst ?b = Inr (len, ?m @ drop (nat len) dst, ?b\<lparr>recvs := r, incoming := rest\<rparr>)"
    unfolding m(1) by (simp only: store_at_def m(2)) simp
  then show ?thesis using s by simp
qed

theorem SendBuff_RecvBuff_witness:
  "\<exists>a' b'. SendBuff [104, 105, 0] 2 \<lparr>sends = replicate 10 (Ready 2), recvs = [], outgoing = [], incoming = []\<rparr> = Inr (True, a')
     \<and> RecvBuff [0, 0, 0, 0] \<lparr>sends = [], recvs = replicate 10 (Ready 0), outgoing = [], incoming = outgoing a' @ [33]\<rparr>
        = Inr (2, [104, 105, 0, 0], b') \<and> incoming b' = [33]"
  using SendBuff_RecvBuff[of 2 "[104, 105, 0]" "[0, 0, 0, 0]"
      "\<lparr>sends = replicate 10 (Ready 2), recvs = [], outgoing = [], incoming = []\<rparr>"
      "\<lparr>sends = [], recvs = replicate 10 (Ready 0), outgoing = [], incoming = []\<rparr>" "[33]"]
  by (simp add: serves_replicate frame_cost_def)

end
