(* ===== verification/Sync_File.thy ===== *)
theory Sync_File
  imports Epoll_Socket Double
begin

section \<open>File transfer\<close>

text \<open>
  \<^verbatim>\<open>src/tools/sync_file/file_operation/sync_file.cpp\<close>. The client sends a file name; the server answers
  with the length of the file and the chunk size, and then with the chunks, each as a message of
  \<open>EpollSocket\<close>. A file system maps names, which are C strings, to contents; opening for writing
  truncates, and fails for names that are not writable. Buffers are lists of bytes of a fixed
  length. \<open>while (file_arr--)\<close> with a negative count would run until the count overflows, which is
  the fault \<open>IntOverflow\<close>.

  The loops are written over the two operations that \<open>SyncFileTool\<close> inherits, so that the lemmas
  about them are proved once from the interface \<open>message_channel\<close>.
\<close>

record files =
  content :: "byte list \<Rightarrow> byte list option"
  writable :: "byte list \<Rightarrow> bool"

text \<open>The array \<open>file_name_[256]\<close> after \<open>memset\<close> and \<open>memcpy\<close>, read as a C string.\<close>

definition file_name :: "byte list \<Rightarrow> int \<Rightarrow> fault + byte list" where
  "file_name name len =
     (if len < 0 \<or> 256 < len \<or> int (length name) < len then Inl OutOfBounds
      else let fn = c_string (take (nat len) name @ zeros (256 - nat len))
           in if length fn = 256 then Inl OutOfBounds else Inr fn)"

text \<open>\<open>InitRead\<close>, then \<open>GetFileSize\<close>: the bytes that can be read, none when the file did not open.\<close>

definition InitRead :: "files \<Rightarrow> byte list \<Rightarrow> int \<Rightarrow> fault + byte list" where
  "InitRead fs name len =
     bindE (file_name name len) (\<lambda>fn. Inr (case content fs fn of None \<Rightarrow> [] | Some f \<Rightarrow> f))"

definition GetFileSize :: "byte list \<Rightarrow> int" where
  "GetFileSize f = int (length f)"

definition InitWrite :: "files \<Rightarrow> byte list \<Rightarrow> int \<Rightarrow> fault + byte list option \<times> files" where
  "InitWrite fs name len =
     bindE (file_name name len) (\<lambda>fn.
       Inr (if writable fs fn then (Some fn, fs\<lparr>content := (content fs)(fn \<mapsto> [])\<rparr>) else (None, fs)))"

text \<open>\<open>WriteFile\<close> appends; it does nothing when the file did not open.\<close>

definition WriteFile :: "byte list option \<Rightarrow> byte list \<Rightarrow> int \<Rightarrow> files \<Rightarrow> fault + files" where
  "WriteFile os buff len fs =
     (case os of
        None \<Rightarrow> Inr fs
      | Some fn \<Rightarrow>
          if len < 0 \<or> int (length buff) < len then Inl OutOfBounds
          else Inr (fs\<lparr>content := (content fs)(fn := map_option (\<lambda>f. f @ take (nat len) buff) (content fs fn))\<rparr>))"

text \<open>\<open>std::ceil\<close> of the quotient as a \<open>double\<close>, converted to \<open>int\<close>.\<close>

fun dceil :: "double \<Rightarrow> double" where
  "dceil (Fin x) = Fin (of_int \<lceil>x\<rceil>)"
| "dceil x = x"

fun to_i32 :: "double \<Rightarrow> int option" where
  "to_i32 (Fin x) = (if in_i32 (trunc x) then Some (trunc x) else None)"
| "to_i32 _ = None"

definition file_parts :: "int \<Rightarrow> int \<Rightarrow> fault + int" where
  "file_parts file_len file_split_len =
     or_fault BadCast (to_i32 (dceil (ddiv (of_i file_len) (of_i file_split_len))))"

definition loop_count :: "int \<Rightarrow> fault + nat" where
  "loop_count n = (if n < 0 then Inl IntOverflow else Inr (nat n))"

definition split_len :: nat where
  "split_len = 2048"

text \<open>
  \<open>ReadFile\<close> puts the next bytes of the file, as many as there are, at the start of the buffer and
  returns their number; the rest of the file is what later calls read.
\<close>

definition ReadFile :: "byte list \<Rightarrow> byte list \<Rightarrow> int \<Rightarrow> fault + byte list \<times> int \<times> byte list" where
  "ReadFile f buff len =
     (if len < 0 \<or> int (length buff) < len then Inl OutOfBounds
      else let chunk = take (nat len) f
           in Inr (store_at 0 chunk buff, int (length chunk), drop (nat len) f))"

primrec send_file_loop ::
  "(byte list \<Rightarrow> int \<Rightarrow> conn \<Rightarrow> fault + bool \<times> conn) \<Rightarrow> nat \<Rightarrow> byte list \<Rightarrow> conn \<Rightarrow> fault + conn" where
  "send_file_loop put 0 f c = Inr c"
| "send_file_loop put (Suc n) f c =
     bindE (ReadFile f (zeros split_len) (int split_len)) (\<lambda>(buff, buff_len, f1).
     bindE (put buff buff_len c) (\<lambda>(_, c1).
       send_file_loop put n f1 c1))"

definition SyncSendFile :: "files \<Rightarrow> byte list \<Rightarrow> int \<Rightarrow> conn \<Rightarrow> fault + conn" where
  "SyncSendFile fs filename len c =
     bindE (InitRead fs filename len) (\<lambda>f.
     bindE (SendBuff (of_i64 (GetFileSize f) @ of_i64 (int split_len)) 16 c) (\<lambda>(_, c1).
     bindE (file_parts (GetFileSize f) (int split_len)) (\<lambda>file_arr.
     bindE (loop_count file_arr) (\<lambda>n.
       send_file_loop SendBuff n f c1))))"

primrec recv_file_loop ::
  "(byte list \<Rightarrow> conn \<Rightarrow> fault + int \<times> byte list \<times> conn) \<Rightarrow> nat \<Rightarrow> nat \<Rightarrow> byte list option \<Rightarrow> files \<Rightarrow> conn
   \<Rightarrow> fault + files \<times> conn" where
  "recv_file_loop get 0 cap os fs c = Inr (fs, c)"
| "recv_file_loop get (Suc n) cap os fs c =
     bindE (get (zeros cap) c) (\<lambda>(buff_len, buff, c1).
     bindE (WriteFile os buff buff_len fs) (\<lambda>fs1.
       recv_file_loop get n cap os fs1 c1))"

definition dot_copy :: "byte list" where
  "dot_copy = [46, 99, 111, 112, 121]"

definition SyncRecvFile :: "files \<Rightarrow> byte list \<Rightarrow> int \<Rightarrow> conn \<Rightarrow> fault + files \<times> conn" where
  "SyncRecvFile fs filename len c =
     (let file_buff = c_string filename @ dot_copy in
      if 256 < length file_buff + 1 then Inl OutOfBounds
      else
        bindE (InitWrite fs file_buff (int (length file_buff))) (\<lambda>(os, fs1).
        bindE (SendBuff filename len c) (\<lambda>(_, c1).
        bindE (RecvBuff (zeros 16) c1) (\<lambda>(_, file_infos, c2).
        let file_len = i64_of (take 8 file_infos); file_split_len = i64_of (take 8 (drop 8 file_infos)) in
        bindE (file_parts file_len file_split_len) (\<lambda>file_arr.
        if file_split_len \<le> 0 then Inl OutOfBounds
        else bindE (loop_count file_arr) (\<lambda>n.
          recv_file_loop RecvBuff n (nat file_split_len) os fs1 c2))))))"

subsection \<open>The loops over any message channel\<close>

primrec chunks :: "nat \<Rightarrow> byte list \<Rightarrow> byte list list" where
  "chunks 0 f = []"
| "chunks (Suc n) f = take split_len f # chunks n (drop split_len f)"

lemma concat_chunks: "concat (chunks n f) = take (n * split_len) f"
  by (induction n arbitrary: f) (simp_all add: take_add)

lemma take_min_length [simp]: "take (min (length f) n) f = take n f"
  by (simp add: min_def)

lemma chunk_cost: "serves (k + Suc n * 2056) s \<Longrightarrow> serves (k + n * 2056 + frame_cost (length (take split_len f))) s"
  by (erule serves_mono) (simp add: frame_cost_def split_len_def)

context message_channel
begin

lemma send_file_loop_ok:
  assumes "serves (k + n * 2056) (sends c)"
  shows "\<exists>s. send_file_loop send_msg n f c
    = Inr (c\<lparr>sends := s, outgoing := outgoing c @ concat (map frame (chunks n f))\<rparr>) \<and> serves k s"
  using assms
proof (induction n arbitrary: f c)
  case 0
  then show ?case by (intro exI[of _ "sends c"]) simp
next
  case (Suc n)
  let ?m = "take split_len f" and ?f = "drop split_len f"
  let ?buf = "store_at 0 ?m (zeros split_len)"
  have len: "length ?buf = split_len" by (simp add: store_at_def zeros_def)
  have buf: "take (nat (int (length ?m))) ?buf = ?m" by (simp add: store_at_def)
  have "int (length ?m) < 2 ^ 63" "int (length ?m) \<le> int (length ?buf)"
    unfolding len by (simp_all add: split_len_def min_less_iff_disj)
  moreover have "serves (k + n * 2056 + frame_cost (nat (int (length ?m)))) (sends c)"
    using chunk_cost[OF Suc.prems] by simp
  ultimately obtain s where s: "send_msg ?buf (int (length ?m)) c
      = Inr (True, c\<lparr>sends := s, outgoing := outgoing c @ frame ?m\<rparr>)" "serves (k + n * 2056) s"
    using send_law[of "int (length ?m)" ?buf "k + n * 2056" c, OF of_nat_0_le_iff] unfolding buf by blast
  let ?c = "c\<lparr>sends := s, outgoing := outgoing c @ frame ?m\<rparr>"
  have "ReadFile f (zeros split_len) (int split_len) = Inr (?buf, int (length ?m), ?f)"
    by (simp add: ReadFile_def zeros_def)
  moreover obtain s' where "send_file_loop send_msg n ?f ?c
      = Inr (?c\<lparr>sends := s', outgoing := outgoing ?c @ concat (map frame (chunks n ?f))\<rparr>)" "serves k s'"
    using Suc.IH[of ?c ?f] s(2) by auto
  ultimately show ?case using s(1) by (intro exI[of _ s']) simp
qed

lemma recv_file_loop_ok:
  assumes "serves (k + n * 2056) (recvs c)" "incoming c = concat (map frame (chunks n f)) @ rest"
    and "content fs fn = Some w"
  shows "\<exists>s. recv_file_loop recv_msg n split_len (Some fn) fs c
    = Inr (fs\<lparr>content := (content fs)(fn \<mapsto> w @ concat (chunks n f))\<rparr>, c\<lparr>recvs := s, incoming := rest\<rparr>) \<and> serves k s"
  using assms
proof (induction n arbitrary: f c fs w)
  case 0
  then have "(content fs)(fn \<mapsto> w) = content fs" by (simp add: fun_upd_idem)
  with 0 show ?case by (intro exI[of _ "recvs c"]) simp
next
  case (Suc n)
  let ?m = "take split_len f" and ?f = "drop split_len f"
  have inc: "incoming c = frame ?m @ concat (map frame (chunks n ?f)) @ rest" using Suc.prems(2) by simp
  obtain s where s: "recv_msg (zeros split_len) c = Inr (int (length ?m), store_at 0 ?m (zeros split_len),
      c\<lparr>recvs := s, incoming := concat (map frame (chunks n ?f)) @ rest\<rparr>)" "serves (k + n * 2056) s"
  proof -
    have "length ?m \<le> length (zeros split_len)" "length ?m < 2 ^ 63"
      by (simp_all add: zeros_def split_len_def min_less_iff_disj)
    then show thesis
      using recv_law[OF inc, of "zeros split_len" "k + n * 2056"] chunk_cost[OF Suc.prems(1), of f] that by blast
  qed
  let ?c = "c\<lparr>recvs := s, incoming := concat (map frame (chunks n ?f)) @ rest\<rparr>"
  let ?fs = "fs\<lparr>content := (content fs)(fn \<mapsto> w @ ?m)\<rparr>"
  have "WriteFile (Some fn) (store_at 0 ?m (zeros split_len)) (int (length ?m)) fs = Inr ?fs"
    using Suc.prems(3) by (auto simp: WriteFile_def store_at_def zeros_def)
  moreover obtain s' where "recv_file_loop recv_msg n split_len (Some fn) ?fs ?c
      = Inr (fs\<lparr>content := (content fs)(fn \<mapsto> w @ concat (chunks (Suc n) f))\<rparr>, c\<lparr>recvs := s', incoming := rest\<rparr>)" "serves k s'"
  proof -
    have "content ?fs fn = Some (w @ ?m)" "serves (k + n * 2056) (recvs ?c)"
      "incoming ?c = concat (map frame (chunks n ?f)) @ rest" using s(2) by simp_all
    from Suc.IH[OF this(2,3,1)] show thesis using that by (auto simp del: fun_upd_apply)
  qed
  ultimately show ?case using s(1) by (intro exI[of _ s']) (simp del: fun_upd_apply)
qed

end

subsection \<open>The number of chunks\<close>

lemma powi_m11: "(2 :: rat) powi (- 11) = 1 / 2048" by (simp add: power_int_minus)

lemma quotient_exact:
  assumes "0 < n" "n \<le> 2 ^ 53"
  shows "dbl (of_int n / 2048) = Fin (of_int n / 2048)"
proof -
  let ?x = "of_int n / 2048 :: rat"
  have q: "?x = of_int n * 2 powi (- 11)" unfolding powi_m11 by simp
  have pos: "0 < ?x" using assms(1) by simp
  have "round_pos ?x = ?x" unfolding q by (rule round_pos_scaled[OF assms]) simp
  then have r: "round64 ?x = ?x" using pos by (simp add: round64_def)
  then have rep: "representable ?x" by (simp add: representable_def)
  have "(of_int n :: rat) \<le> of_int (2 ^ 53)" using assms(2) by (simp only: of_int_le_iff)
  then have "?x \<le> 2 powi 53" using assms(1) by (simp add: field_simps)
  also have "\<dots> < 2 powi 1024" by (simp only: powi_less_iff)
  finally have "?x < 2 powi 1024" .
  with dbl_between[OF rep _ order_refl] pos obtain x where "dbl ?x = Fin x" by (metis less_imp_le)
  then show ?thesis using dbl_Fin r by metis
qed

lemma file_parts_ok:
  assumes "0 \<le> n" "n \<le> 2048 * (2 ^ 31 - 1)"
  shows "file_parts n 2048 = Inr \<lceil>of_int n / (2048 :: rat)\<rceil>"
proof -
  let ?q = "of_int n / 2048 :: rat"
  have "ddiv (of_i n) (of_i 2048) = Fin ?q"
  proof (cases "n = 0")
    case True
    then show ?thesis using dbl_of_int[of 0] dbl_of_int[of 2048] by (simp add: of_i_def)
  next
    case False
    then show ?thesis
      using quotient_exact[of n] dbl_of_int[of n] dbl_of_int[of 2048] assms by (simp add: of_i_def)
  qed
  moreover have "(of_int n :: rat) \<le> of_int (2048 * (2 ^ 31 - 1))" using assms(2) by (simp only: of_int_le_iff)
  then have "\<lceil>?q\<rceil> \<le> 2 ^ 31 - 1" by (simp add: ceiling_le_iff field_simps)
  moreover have "0 \<le> \<lceil>?q\<rceil>" using assms(1) by (simp add: less_le_trans[of "-1" 0])
  ultimately show ?thesis by (simp add: file_parts_def trunc_def in_i32_def)
qed

lemma parts_bounds:
  fixes n :: nat
  defines "p \<equiv> nat \<lceil>of_int (int n) / (2048 :: rat)\<rceil>"
  shows "n \<le> p * 2048" "p \<le> n div 2048 + 1"
proof -
  have "of_int (int n) / 2048 \<le> (of_int \<lceil>of_int (int n) / (2048 :: rat)\<rceil> :: rat)" by (rule le_of_int_ceiling)
  then have "(of_int (int n) :: rat) \<le> of_int \<lceil>of_int (int n) / (2048 :: rat)\<rceil> * 2048"
    by (subst (asm) pos_divide_le_eq) simp_all
  then have "(of_int (int n) :: rat) \<le> of_int (\<lceil>of_int (int n) / (2048 :: rat)\<rceil> * 2048)" by simp
  then have "int n \<le> \<lceil>of_int (int n) / (2048 :: rat)\<rceil> * 2048" unfolding of_int_le_iff .
  then show "n \<le> p * 2048" by (simp add: p_def)
  have "int n \<le> (int n div 2048 + 1) * 2048" by simp
  then have "(of_int (int n) :: rat) \<le> of_int ((int n div 2048 + 1) * 2048)" by (simp only: of_int_le_iff)
  then have "\<lceil>of_int (int n) / (2048 :: rat)\<rceil> \<le> int n div 2048 + 1" by (simp add: ceiling_le_iff field_simps)
  then show "p \<le> n div 2048 + 1" by (simp add: p_def nat_le_iff zdiv_int)
qed

subsection \<open>The two ends of a transfer\<close>

definition parts :: "byte list \<Rightarrow> nat" where
  "parts f = nat \<lceil>of_int (int (length f)) / (2048 :: rat)\<rceil>"

text \<open>What the sender of a file writes, and how many calls each end needs for it at most.\<close>

definition reply :: "byte list \<Rightarrow> byte list" where
  "reply f = frame (of_i64 (int (length f)) @ of_i64 2048) @ concat (map frame (chunks (parts f) f))"

definition reply_cost :: "byte list \<Rightarrow> nat" where
  "reply_cost f = 24 + (length f div 2048 + 1) * 2056"

definition sendable :: "byte list \<Rightarrow> bool" where
  "sendable f \<longleftrightarrow> int (length f) \<le> 2048 * (2 ^ 31 - 1)"

lemma reply_cost: "serves (k + reply_cost f) s \<Longrightarrow> serves (k + parts f * 2056 + frame_cost 16) s"
  using parts_bounds(2)[of "length f"] by (elim serves_mono) (simp add: reply_cost_def parts_def frame_cost_def)

lemma sendable_parts:
  assumes "sendable f"
  shows "file_parts (int (length f)) 2048 = Inr (int (parts f))" "concat (chunks (parts f) f) = f"
proof -
  have "0 \<le> \<lceil>of_int (int (length f)) / (2048 :: rat)\<rceil>" by (simp add: less_le_trans[of "-1" 0])
  then show "file_parts (int (length f)) 2048 = Inr (int (parts f))"
    using file_parts_ok[of "int (length f)"] assms by (simp add: sendable_def parts_def)
  show "concat (chunks (parts f) f) = f"
    using parts_bounds(1)[of "length f"] by (simp add: concat_chunks parts_def split_len_def)
qed

lemma file_name_ok:
  assumes "0 \<notin> set name" "length name \<le> 255"
  shows "file_name (name @ pad) (int (length name)) = Inr name"
  using assms by (simp add: file_name_def c_string_zeros Let_def)

lemma SyncSendFile_ok:
  assumes name: "0 \<notin> set name" "length name \<le> 255" and f: "content fs name = Some f" "sendable f"
    and script: "serves (k + reply_cost f) (sends c)"
  shows "\<exists>s. SyncSendFile fs (name @ pad) (int (length name)) c
    = Inr (c\<lparr>sends := s, outgoing := outgoing c @ reply f\<rparr>) \<and> serves k s"
proof -
  let ?infos = "of_i64 (int (length f)) @ of_i64 2048"
  have "InitRead fs (name @ pad) (int (length name)) = Inr f"
    using f(1) by (simp add: InitRead_def file_name_ok[OF name])
  moreover obtain s1 where s1: "SendBuff ?infos 16 c
      = Inr (True, c\<lparr>sends := s1, outgoing := outgoing c @ frame ?infos\<rparr>)" "serves (k + parts f * 2056) s1"
    using frames.send_law[of 16 ?infos "k + parts f * 2056" c] reply_cost[OF script] by auto
  let ?c1 = "c\<lparr>sends := s1, outgoing := outgoing c @ frame ?infos\<rparr>"
  obtain s2 where "send_file_loop SendBuff (parts f) f ?c1
      = Inr (?c1\<lparr>sends := s2, outgoing := outgoing ?c1 @ concat (map frame (chunks (parts f) f))\<rparr>)" "serves k s2"
    using frames.send_file_loop_ok[of k "parts f" ?c1 f] s1(2) by auto
  ultimately show ?thesis
    using s1(1) sendable_parts(1)[OF f(2)]
    by (intro exI[of _ s2]) (simp add: SyncSendFile_def GetFileSize_def loop_count_def reply_def split_len_def)
qed

lemma SyncRecvFile_ok:
  assumes name: "0 \<notin> set name" "length name \<le> 250" and f: "writable fs (name @ dot_copy)" "sendable f"
    and sent: "incoming c = reply f @ rest"
    and scripts: "serves (j + frame_cost (length name)) (sends c)" "serves (k + reply_cost f) (recvs c)"
  shows "\<exists>s r. SyncRecvFile fs (name @ [0]) (int (length name)) c
    = Inr (fs\<lparr>content := (content fs)(name @ dot_copy \<mapsto> f)\<rparr>,
           c\<lparr>sends := s, outgoing := outgoing c @ frame name, recvs := r, incoming := rest\<rparr>) \<and> serves j s \<and> serves k r"
proof -
  let ?fn = "name @ dot_copy" and ?infos = "of_i64 (int (length f)) @ of_i64 2048"
  let ?fs = "fs\<lparr>content := (content fs)(?fn \<mapsto> [])\<rparr>"
  have fn: "c_string (name @ [0]) = name" using c_string_zeros[OF name(1), of 1] by (simp add: zeros_def)
  have "0 \<notin> set ?fn" "length ?fn \<le> 255" using name by (simp_all add: dot_copy_def)
  from file_name_ok[OF this, of "[]"] have w: "InitWrite fs ?fn (int (length ?fn)) = Inr (Some ?fn, ?fs)"
    using f(1) by (simp add: InitWrite_def)
  obtain s where s: "SendBuff (name @ [0]) (int (length name)) c
      = Inr (True, c\<lparr>sends := s, outgoing := outgoing c @ frame name\<rparr>)" "serves j s"
    using frames.send_law[of "int (length name)" "name @ [0]" j c] scripts(1) name(2) by auto
  let ?c1 = "c\<lparr>sends := s, outgoing := outgoing c @ frame name\<rparr>"
  have inc: "incoming ?c1 = frame ?infos @ (concat (map frame (chunks (parts f) f)) @ rest)"
    using sent by (simp add: reply_def)
  obtain r1 where r1: "RecvBuff (zeros 16) ?c1 = Inr (16, ?infos,
      ?c1\<lparr>recvs := r1, incoming := concat (map frame (chunks (parts f) f)) @ rest\<rparr>)" "serves (k + parts f * 2056) r1"
    using frames.recv_law[OF inc, of "zeros 16" "k + parts f * 2056"] reply_cost[OF scripts(2)]
    by (auto simp: zeros_def store_at_def)
  let ?c2 = "?c1\<lparr>recvs := r1, incoming := concat (map frame (chunks (parts f) f)) @ rest\<rparr>"
  obtain r2 where r2: "recv_file_loop RecvBuff (parts f) split_len (Some ?fn) ?fs ?c2
      = Inr (?fs\<lparr>content := (content ?fs)(?fn \<mapsto> [] @ concat (chunks (parts f) f))\<rparr>, ?c2\<lparr>recvs := r2, incoming := rest\<rparr>)" "serves k r2"
    using frames.recv_file_loop_ok[of k "parts f" ?c2 f rest ?fs ?fn "[]"] r1(2)
    by (auto simp del: fun_upd_apply simp add: fun_upd_same)
  have "in_i64 (int (length f))" "in_i64 2048" using f(2) by (simp_all add: sendable_def in_i64_def)
  note i64 = this[THEN i64_roundtrip]
  show ?thesis
    using w s r1(1) r2 sendable_parts[OF f(2)] i64 name(2)
    by (intro exI[of _ s] exI[of _ r2])
      (simp add: SyncRecvFile_def fn Let_def loop_count_def dot_copy_def split_len_def del: fun_upd_apply)
qed

end
