(* ===== verification/Sync_Server.thy ===== *)
theory Sync_Server
  imports Sync_File Fd_Pool
begin

section \<open>The file server and its client\<close>

text \<open>
  \<^verbatim>\<open>src/tools/sync_file/epoll_socket/server.cpp\<close> and \<^verbatim>\<open>client/main.cpp\<close>. The server is the event loop
  \<open>ExecEpoll\<close> together with the pool that runs its tasks. One pass through the loop body handles
  one event; the request and its length are local variables \<open>cmd\<close> and \<open>len\<close> of that pass, and the
  task that the pass hands to the pool captures both by reference. A task is therefore the number of
  its pass, and running it when that pass is over reads variables that no longer exist: the fault
  \<open>UseAfterFree\<close>. Descriptors that are not registered cause no events.
\<close>

record server =
  workers :: fd_pool
  peers :: "fd \<rightharpoonup> conn"
  pass :: nat
  cmd_len :: "(byte list \<times> int) option"

datatype server_event =
    Accepted fd conn \<comment> \<open>\<open>accept\<close> returned a new client\<close>
  | Readable fd \<comment> \<open>\<open>EPOLLIN\<close> on a client, up to the end of the branch\<close>
  | EndPass \<comment> \<open>the loop variable moves on\<close>
  | Work \<comment> \<open>a worker takes the first task and runs it\<close>

definition new_server :: server where
  "new_server = \<lparr>workers = new_fd_pool, peers = Map.empty, pass = 0, cmd_len = None\<rparr>"

text \<open>The branch of \<open>ExecEpoll\<close> for a client that has sent something or has closed.\<close>

definition on_readable :: "fd \<Rightarrow> server \<Rightarrow> fault + server" where
  "on_readable fd s =
     (case peers s fd of
        None \<Rightarrow> Inr s
      | Some c \<Rightarrow>
          bindE (RecvBuff (zeros 256) c) (\<lambda>(len, cmd, c1).
            let s1 = s\<lparr>peers := (peers s)(fd \<mapsto> c1), cmd_len := Some (cmd, len)\<rparr> in
            if 0 < len then
              bindE (fd_AddTask fd (pass s) (workers s)) (\<lambda>p. Inr (s1\<lparr>workers := p\<rparr>))
            else
              bindE (delCloseFD fd (workers s)) (\<lambda>p. Inr (s1\<lparr>peers := (peers s)(fd := None), workers := p\<rparr>))))"

text \<open>The task, as a worker runs it.\<close>

definition run_task :: "files \<Rightarrow> fd \<Rightarrow> task \<Rightarrow> server \<Rightarrow> fault + server" where
  "run_task fs fd t s =
     (case (cmd_len s, peers s fd) of
        (Some (cmd, len), Some c) \<Rightarrow>
          if t = pass s then bindE (SyncSendFile fs cmd len c) (\<lambda>c1. Inr (s\<lparr>peers := (peers s)(fd \<mapsto> c1)\<rparr>))
          else Inl UseAfterFree
      | _ \<Rightarrow> Inl UseAfterFree)"

definition server_step :: "files \<Rightarrow> server_event \<Rightarrow> server \<Rightarrow> fault + server" where
  "server_step fs e s =
     (case e of
        Accepted fd c \<Rightarrow> Inr (s\<lparr>peers := (peers s)(fd \<mapsto> c)\<rparr>)
      | Readable fd \<Rightarrow> on_readable fd s
      | EndPass \<Rightarrow> Inr (s\<lparr>pass := Suc (pass s), cmd_len := None\<rparr>)
      | Work \<Rightarrow>
          if fd_run (workers s) \<and> fd_tasks (workers s) = [] then Inr s
          else bindE (fd_take (workers s)) (\<lambda>(t, p).
            case t of None \<Rightarrow> Inr s | Some (fd, n) \<Rightarrow> run_task fs fd n (s\<lparr>workers := p\<rparr>)))"

text \<open>The client: one file after the other over one connection.\<close>

primrec fetch_all :: "byte list list \<Rightarrow> files \<Rightarrow> conn \<Rightarrow> fault + files \<times> conn" where
  "fetch_all [] fs c = Inr (fs, c)"
| "fetch_all (name # names) fs c =
     bindE (SyncRecvFile fs (name @ [0]) (int (length name)) c) (\<lambda>(fs1, c1). fetch_all names fs1 c1)"

definition default_name :: "byte list" where
  "default_name = [116, 101, 115, 116]"

definition client_main :: "byte list list \<Rightarrow> files \<Rightarrow> conn \<Rightarrow> fault + files \<times> conn" where
  "client_main args fs c = fetch_all (if args = [] then [default_name] else args) fs c"

subsection \<open>Every queued task belongs to an open descriptor\<close>

definition server_inv :: "server \<Rightarrow> bool" where
  "server_inv s \<longleftrightarrow> fd_inv (workers s) \<and> fd_run (workers s)
     \<and> (\<forall>e \<in> set (fd_tasks (workers s)). peers s (fst (snd e)) \<noteq> None \<and> snd (snd e) \<le> pass s)"

lemma new_server_inv: "server_inv new_server"
  by (simp add: server_inv_def new_server_def new_fd_inv) (simp add: new_fd_pool_def)

lemma on_readable_inv:
  assumes inv: "server_inv s" and "on_readable fd s = Inr s'"
  shows "server_inv s'"
proof (cases "peers s fd")
  case None
  then show ?thesis using assms by (simp add: on_readable_def)
next
  case (Some c)
  then obtain len cmd c1 where r: "RecvBuff (zeros 256) c = Inr (len, cmd, c1)"
    using assms(2) by (auto simp: on_readable_def bindE_Inr_iff)
  have p: "fd_inv (workers s)" "fd_run (workers s)" using inv by (simp_all add: server_inv_def)
  show ?thesis
  proof (cases "0 < len")
    case True
    obtain p' where p': "fd_AddTask fd (pass s) (workers s) = Inr p'" using p(2) by (simp add: fd_AddTask_def)
    then have "fd_tasks p' = fd_tasks (workers s) @ [(next_node (workers s), fd, pass s)]" "fd_run p'"
      using p(2) by (auto simp: fd_AddTask_def fd_push_def)
    moreover have "s' = s\<lparr>peers := (peers s)(fd \<mapsto> c1), cmd_len := Some (cmd, len), workers := p'\<rparr>"
      using assms(2) Some r True p' by (simp add: on_readable_def)
    ultimately show ?thesis using inv fd_AddTask_inv[OF p(1) p'] by (auto simp: server_inv_def)
  next
    case False
    let ?p = "(workers s)\<lparr>fd_tasks := filter (\<lambda>e. fst (snd e) \<noteq> fd) (fd_tasks (workers s)),
      fd_task_map := (fd_task_map (workers s))(fd := None)\<rparr>"
    have d: "delCloseFD fd (workers s) = Inr ?p" by (rule delCloseFD_result[OF p(1)])
    then have "s' = s\<lparr>cmd_len := Some (cmd, len), peers := (peers s)(fd := None), workers := ?p\<rparr>"
      using assms(2) Some r False by (simp add: on_readable_def)
    then show ?thesis using inv delCloseFD_inv[OF p(1) d] by (auto simp: server_inv_def)
  qed
qed

lemma server_inv_peer: "server_inv s \<Longrightarrow> server_inv (s\<lparr>peers := (peers s)(fd \<mapsto> c)\<rparr>)"
  by (simp add: server_inv_def)

lemma run_task_inv:
  assumes "server_inv s" "run_task fs fd t s = Inr s'"
  shows "server_inv s'"
proof -
  obtain c where "s' = s\<lparr>peers := (peers s)(fd \<mapsto> c)\<rparr>"
    using assms(2) by (auto simp: run_task_def bindE_Inr_iff split: option.splits if_splits)
  then show ?thesis using server_inv_peer[OF assms(1)] by simp
qed

lemma Work_cases:
  assumes inv: "server_inv s" and tasks: "fd_tasks (workers s) = (n, fd, t) # ts"
  obtains p where "fd_tasks p = ts" "server_inv (s\<lparr>workers := p\<rparr>)"
    "server_step fs Work s = run_task fs fd t (s\<lparr>workers := p\<rparr>)"
proof -
  obtain p where p: "fd_take (workers s) = Inr (Some (fd, t), p)" "fd_tasks p = ts"
    "fd_run p = fd_run (workers s)" "fd_inv p"
    using fd_take_result[OF _ tasks] inv by (auto simp: server_inv_def)
  have "server_inv (s\<lparr>workers := p\<rparr>)" using inv p tasks by (auto simp: server_inv_def)
  then show thesis using that p(1,2) tasks by (simp add: server_step_def)
qed

interpretation sync_server: safe_ops "server_step fs" server_inv "\<lambda>_ _. True" "\<lambda>_. True"
proof
  fix s e
  assume inv: "server_inv s"
  have "server_inv s'" if step: "server_step fs e s = Inr s'" for s'
  proof (cases e)
    case (Accepted fd c)
    then have "s' = s\<lparr>peers := (peers s)(fd \<mapsto> c)\<rparr>" using step by (simp add: server_step_def)
    then show ?thesis using server_inv_peer[OF inv] by simp
  next
    case (Readable fd)
    then have "on_readable fd s = Inr s'" using step by (simp add: server_step_def)
    then show ?thesis by (rule on_readable_inv[OF inv])
  next
    case EndPass
    then have "s' = s\<lparr>pass := Suc (pass s), cmd_len := None\<rparr>" using step by (simp add: server_step_def)
    then show ?thesis using inv by (simp add: server_inv_def le_SucI)
  next
    case Work
    show ?thesis
    proof (cases "fd_tasks (workers s)")
      case Nil
      then show ?thesis using Work inv step by (simp add: server_step_def server_inv_def)
    next
      case (Cons x ts)
      obtain n fd t where "x = (n, fd, t)" by (cases x)
      then show ?thesis
        using Work_cases[OF inv, of n fd t ts fs] Cons step Work run_task_inv by metis
    qed
  qed
  then show "outcome (\<lambda>_. True) (\<lambda>s'. server_inv s' \<and> True) (server_step fs e s)"
    by (cases "server_step fs e s") simp_all
qed simp_all

text \<open>C28: the task that answers a request refers to \<open>cmd\<close> and \<open>len\<close>, which are gone when the loop
  moves on to the next event: in every state of the server in which a task is queued, a worker that
  takes it after that reads variables whose lifetime has ended.\<close>

theorem late_worker_dangles:
  assumes "steps (server_step fs) es new_server = Inr s" "fd_tasks (workers s) \<noteq> []"
  shows "steps (server_step fs) [EndPass, Work] s = Inl UseAfterFree"
proof -
  let ?s = "s\<lparr>pass := Suc (pass s), cmd_len := None\<rparr>"
  have over: "server_step fs EndPass s = Inr ?s" by (simp add: server_step_def)
  have "server_inv s" by (rule sync_server.steps_inv[OF new_server_inv assms(1)])
  then have inv: "server_inv ?s" by (auto simp: server_inv_def)
  obtain n fd t ts where "fd_tasks (workers ?s) = (n, fd, t) # ts" using assms(2) by (cases "fd_tasks (workers s)") auto
  from Work_cases[OF inv this, of fs] obtain p where
    "server_step fs Work ?s = run_task fs fd t (?s\<lparr>workers := p\<rparr>)" by metis
  then show ?thesis using over by (simp add: run_task_def)
qed

theorem late_worker_dangles_witness:
  "\<exists>s. steps (server_step \<lparr>content = Map.empty, writable = \<lambda>_. True\<rparr>)
      [Accepted 7 \<lparr>sends = [], recvs = [Ready 8, Ready 8], outgoing = [], incoming = frame [97]\<rparr>, EndPass, Readable 7] new_server = Inr s
    \<and> steps (server_step \<lparr>content = Map.empty, writable = \<lambda>_. True\<rparr>) [EndPass, Work] s = Inl UseAfterFree"
proof -
  let ?fs = "\<lparr>content = Map.empty, writable = \<lambda>_. True\<rparr> :: files"
  let ?es = "[Accepted 7 \<lparr>sends = [], recvs = [Ready 8, Ready 8], outgoing = [], incoming = frame [97]\<rparr>, EndPass, Readable 7]"
  have "yields (\<lambda>s. fd_tasks (workers s) \<noteq> []) (steps (server_step ?fs) ?es new_server)" by code_simp
  then obtain s where "steps (server_step ?fs) ?es new_server = Inr s" "fd_tasks (workers s) \<noteq> []" by (rule yieldsE)
  with late_worker_dangles[of ?fs ?es s] show ?thesis by blast
qed

subsection \<open>A session with one client\<close>

definition name_ok :: "byte list \<Rightarrow> bool" where
  "name_ok name \<longleftrightarrow> name \<noteq> [] \<and> 0 \<notin> set name \<and> length name \<le> 250"

definition idle :: "server \<Rightarrow> bool" where
  "idle s \<longleftrightarrow> server_inv s \<and> fd_tasks (workers s) = []"

text \<open>A request that is answered in the pass that read it.\<close>

definition answer :: "fd \<Rightarrow> server_event list" where
  "answer fd = [Readable fd, Work, EndPass]"

lemma readable_queues:
  assumes idle: "idle s" and c: "peers s fd = Some c" "incoming c = frame name @ rest" and name: "name_ok name"
    and script: "serves (j + frame_cost (length name)) (recvs c)"
  obtains p r where "server_step fs (Readable fd) s = Inr (s\<lparr>peers := (peers s)(fd \<mapsto> c\<lparr>recvs := r, incoming := rest\<rparr>),
      cmd_len := Some (name @ zeros (256 - length name), int (length name)), workers := p\<rparr>)"
    "fd_tasks p = [(next_node (workers s), fd, pass s)]" "serves j r"
proof -
  have len: "length name \<le> length (zeros 256)" "length name < 2 ^ 63" "0 < length name"
    using name by (simp_all add: name_ok_def zeros_def)
  obtain r where r: "RecvBuff (zeros 256) c
      = Inr (int (length name), store_at 0 name (zeros 256), c\<lparr>recvs := r, incoming := rest\<rparr>)" "serves j r"
    using frames.recv_law[OF c(2) len(1,2) script] by blast
  have "store_at 0 name (zeros 256) = name @ zeros (256 - length name)" by (simp add: store_at_def zeros_def)
  moreover obtain p where "fd_AddTask fd (pass s) (workers s) = Inr p" "fd_tasks p = [(next_node (workers s), fd, pass s)]"
    using idle by (auto simp: idle_def server_inv_def fd_AddTask_def fd_push_def)
  ultimately show thesis
    using that[of p r] r c(1) len(3) by (simp add: server_step_def on_readable_def)
qed

lemma serve_one:
  assumes idle: "idle s" and c: "peers s fd = Some c" "incoming c = frame name @ rest" and name: "name_ok name"
    and f: "content fs name = Some f" "sendable f"
    and scripts: "serves (j + frame_cost (length name)) (recvs c)" "serves (k + reply_cost f) (sends c)"
  obtains s' r w where "steps (server_step fs) (answer fd) s = Inr s'" "idle s'"
    "peers s' = (peers s)(fd \<mapsto> c\<lparr>recvs := r, incoming := rest, sends := w, outgoing := outgoing c @ reply f\<rparr>)"
    "serves j r" "serves k w"
proof -
  let ?cmd = "name @ zeros (256 - length name)"
  obtain p r where p: "server_step fs (Readable fd) s = Inr (s\<lparr>peers := (peers s)(fd \<mapsto> c\<lparr>recvs := r, incoming := rest\<rparr>),
      cmd_len := Some (?cmd, int (length name)), workers := p\<rparr>)" (is "_ = Inr ?s1")
    "fd_tasks p = [(next_node (workers s), fd, pass s)]" "serves j r"
    by (rule readable_queues[OF idle c name scripts(1)])
  have inv1: "server_inv ?s1"
    using sync_server.steps_inv[of s fs "[Readable fd]" ?s1] p(1) idle by (simp add: idle_def)
  obtain q where q: "fd_tasks q = []" "server_inv (?s1\<lparr>workers := q\<rparr>)"
    "server_step fs Work ?s1 = run_task fs fd (pass s) (?s1\<lparr>workers := q\<rparr>)"
    using Work_cases[OF inv1, of "next_node (workers s)" fd "pass s" "[]" fs] p(2) by auto
  have "0 \<notin> set name" "length name \<le> 255" using name by (simp_all add: name_ok_def)
  then obtain w where w: "SyncSendFile fs ?cmd (int (length name)) (c\<lparr>recvs := r, incoming := rest\<rparr>)
      = Inr (c\<lparr>recvs := r, incoming := rest, sends := w, outgoing := outgoing c @ reply f\<rparr>)" "serves k w"
    using SyncSendFile_ok[of name fs f k "c\<lparr>recvs := r, incoming := rest\<rparr>"] f scripts(2) by auto
  let ?s2 = "?s1\<lparr>workers := q, peers := (peers s)(fd \<mapsto> c\<lparr>recvs := r, incoming := rest, sends := w, outgoing := outgoing c @ reply f\<rparr>)\<rparr>"
  have run: "run_task fs fd (pass s) (?s1\<lparr>workers := q\<rparr>) = Inr ?s2" using w(1) by (simp add: run_task_def del: fun_upd_apply add: fun_upd_same)
  let ?s3 = "?s2\<lparr>pass := Suc (pass s), cmd_len := None\<rparr>"
  have all: "steps (server_step fs) (answer fd) s = Inr ?s3"
    using p(1) q(3) run by (simp add: answer_def server_step_def del: fun_upd_apply)
  moreover have "idle ?s3"
  proof -
    have "server_inv s" using idle by (simp add: idle_def)
    from sync_server.steps_inv[OF this all] show ?thesis by (simp add: idle_def q(1))
  qed
  ultimately show thesis using that[of ?s3 w r] p(3) w(2) by (simp del: fun_upd_apply)
qed

text \<open>
  What the server needs of a client that asks for the given files, one after the other: the requests
  come in, and the kernel lets enough calls through.
\<close>

definition request_cost :: "byte list list \<Rightarrow> nat" where
  "request_cost names = sum_list (map (\<lambda>n. frame_cost (length n)) names)"

definition replies_cost :: "byte list list \<Rightarrow> nat" where
  "replies_cost files = sum_list (map reply_cost files)"

definition requests :: "(byte list \<Rightarrow> byte list) \<Rightarrow> conn \<Rightarrow> byte list list \<Rightarrow> bool" where
  "requests file c names \<longleftrightarrow> incoming c = concat (map frame names)
     \<and> serves (request_cost names) (recvs c) \<and> serves (replies_cost (map file names)) (sends c)"

lemma serve_next:
  assumes "idle s" "peers s fd = Some c" "requests file c (n # ns)"
    and "name_ok n" "content fs n = Some (file n)" "sendable (file n)"
  obtains s' c' where "steps (server_step fs) (answer fd) s = Inr s'" "idle s'" "peers s' = (peers s)(fd \<mapsto> c')"
    "requests file c' ns" "outgoing c' = outgoing c @ reply (file n)"
proof -
  have "incoming c = frame n @ concat (map frame ns)"
    "serves (request_cost ns + frame_cost (length n)) (recvs c)"
    "serves (replies_cost (map file ns) + reply_cost (file n)) (sends c)"
    using assms(3) by (simp_all add: requests_def request_cost_def replies_cost_def add.commute)
  from serve_one[OF assms(1,2) this(1) assms(4-6) this(2,3)] obtain s' r w where
    "steps (server_step fs) (answer fd) s = Inr s'" "idle s'"
    "peers s' = (peers s)(fd \<mapsto> c\<lparr>recvs := r, incoming := concat (map frame ns), sends := w, outgoing := outgoing c @ reply (file n)\<rparr>)"
    "serves (request_cost ns) r" "serves (replies_cost (map file ns)) w" by metis
  then show thesis by (intro that) (auto simp: requests_def)
qed

text \<open>
  Passes for several clients in any order: each client gets its own replies, in the order of its
  requests.
\<close>

lemma serve_all:
  assumes "idle s" "\<forall>g. length (names g) = count_list fds g"
    and "\<forall>g. \<forall>n \<in> set (names g). name_ok n \<and> content fs n = Some (file n) \<and> sendable (file n)"
    and "\<forall>g \<in> set fds. \<exists>c. peers s g = Some c \<and> requests file c (names g)"
  shows "\<exists>s'. steps (server_step fs) (concat (map answer fds)) s = Inr s'
    \<and> (\<forall>g. case peers s g of None \<Rightarrow> peers s' g = None
        | Some c \<Rightarrow> \<exists>c'. peers s' g = Some c' \<and> outgoing c' = outgoing c @ concat (map (\<lambda>n. reply (file n)) (names g)))"
  using assms
proof (induction fds arbitrary: s names)
  case Nil
  then show ?case by (auto split: option.splits)
next
  case (Cons fd fds)
  then have "length (names fd) = Suc (count_list fds fd)" by simp
  then obtain n ns where ns: "names fd = n # ns" "length ns = count_list fds fd" by (cases "names fd") auto
  obtain c where c: "peers s fd = Some c" "requests file c (n # ns)" using Cons.prems(4) ns(1) by auto
  have n: "name_ok n" "content fs n = Some (file n)" "sendable (file n)"
    using Cons.prems(3) ns(1) by (metis list.set_intros(1))+
  from serve_next[OF Cons.prems(1) c n] obtain s1 c1 where
    s1: "steps (server_step fs) (answer fd) s = Inr s1" "idle s1" "peers s1 = (peers s)(fd \<mapsto> c1)"
    "requests file c1 ns" "outgoing c1 = outgoing c @ reply (file n)" by blast
  let ?names = "names(fd := ns)"
  have "\<forall>g. length (?names g) = count_list fds g" using Cons.prems(2) ns(2) by auto
  moreover have "\<forall>g. \<forall>n \<in> set (?names g). name_ok n \<and> content fs n = Some (file n) \<and> sendable (file n)"
    using Cons.prems(3) ns(1) by (metis fun_upd_apply list.set_intros(2))
  moreover have "\<forall>g \<in> set fds. \<exists>c. peers s1 g = Some c \<and> requests file c (?names g)"
    using Cons.prems(4) s1(3,4) by auto
  ultimately obtain s' where s': "steps (server_step fs) (concat (map answer fds)) s1 = Inr s'"
    "\<forall>g. case peers s1 g of None \<Rightarrow> peers s' g = None
        | Some c \<Rightarrow> \<exists>c'. peers s' g = Some c' \<and> outgoing c' = outgoing c @ concat (map (\<lambda>n. reply (file n)) (?names g))"
    using Cons.IH[OF s1(2)] by blast
  have "case peers s g of None \<Rightarrow> peers s' g = None
      | Some c \<Rightarrow> \<exists>c'. peers s' g = Some c' \<and> outgoing c' = outgoing c @ concat (map (\<lambda>n. reply (file n)) (names g))" for g
    using s'(2)[rule_format, of g] s1(3,5) c(1) ns(1) by (cases "g = fd") (auto split: option.splits)
  then show ?case using s1(1) s'(1) by (simp add: steps_append)
qed

lemma fetch_all_ok:
  assumes "incoming c = concat (map (\<lambda>n. reply (file n)) names)"
    and "\<forall>n \<in> set names. name_ok n \<and> writable fs (n @ dot_copy) \<and> sendable (file n)"
    and "serves (request_cost names) (sends c)" "serves (replies_cost (map file names)) (recvs c)"
  shows "\<exists>fs' c'. fetch_all names fs c = Inr (fs', c') \<and> outgoing c' = outgoing c @ concat (map frame names)
    \<and> content fs' = fold (\<lambda>n m. m(n @ dot_copy \<mapsto> file n)) names (content fs)"
  using assms
proof (induction names arbitrary: fs c)
  case (Cons n names)
  have n: "0 \<notin> set n" "length n \<le> 250" "writable fs (n @ dot_copy)" "sendable (file n)"
    using Cons.prems(2) by (simp_all add: name_ok_def)
  have inc: "incoming c = reply (file n) @ concat (map (\<lambda>n. reply (file n)) names)" using Cons.prems(1) by simp
  have "serves (request_cost names + frame_cost (length n)) (sends c)"
    "serves (replies_cost (map file names) + reply_cost (file n)) (recvs c)"
    using Cons.prems(3,4) by (simp_all add: request_cost_def replies_cost_def add.commute)
  from SyncRecvFile_ok[OF n inc this] obtain w r where
    one: "SyncRecvFile fs (n @ [0]) (int (length n)) c = Inr (fs\<lparr>content := (content fs)(n @ dot_copy \<mapsto> file n)\<rparr>,
       c\<lparr>sends := w, outgoing := outgoing c @ frame n, recvs := r, incoming := concat (map (\<lambda>n. reply (file n)) names)\<rparr>)"
       (is "_ = Inr (?fs, ?c)")
    and "serves (request_cost names) w" "serves (replies_cost (map file names)) r" by blast
  with Cons.IH[of ?c ?fs] Cons.prems(2) obtain fs' c' where "fetch_all names ?fs ?c = Inr (fs', c')"
    "outgoing c' = outgoing c @ frame n @ concat (map frame names)"
    "content fs' = fold (\<lambda>n m. m(n @ dot_copy \<mapsto> file n)) names (content ?fs)"
    by (auto simp del: fun_upd_apply)
  then show ?case using one by (simp del: fun_upd_apply)
qed simp

lemma fold_copies:
  "n \<in> set names \<Longrightarrow> fold (\<lambda>n m. m(n @ dot_copy \<mapsto> file n)) names m (n @ dot_copy) = Some (file n)"
proof (induction names arbitrary: m rule: rev_induct)
  case (snoc x names)
  then show ?case by (cases "x = n") auto
qed simp

text \<open>C15: clients run the client's program against a server that answers each request in the pass that
  read it, the passes for the different clients in any order; each end reads what its peer writes. Then every
  requested file is copied: whatever sizes the kernel moves at a time, each client ends with the contents
  of each file it asked for under its name with \<open>.copy\<close> appended.\<close>

theorem session_copies_files:
  assumes passes: "idle s" "\<forall>g. length (names g) = count_list fds g"
    and files: "\<forall>g. \<forall>n \<in> set (names g). name_ok n \<and> content sfs n = Some (file n) \<and> sendable (file n) \<and> writable (cfs g) (n @ dot_copy)"
    and server: "\<forall>g \<in> set fds. \<exists>sc. peers s g = Some sc \<and> outgoing sc = [] \<and> requests file sc (names g)"
    and client: "\<forall>g \<in> set fds. outgoing (cc g) = [] \<and> incoming (cc g) = concat (map (\<lambda>n. reply (file n)) (names g))
      \<and> serves (request_cost (names g)) (sends (cc g)) \<and> serves (replies_cost (map file (names g))) (recvs (cc g))"
  shows "\<exists>s'. steps (server_step sfs) (concat (map answer fds)) s = Inr s' \<and>
    (\<forall>g \<in> set fds. \<exists>sc sc' cfs' cc'. peers s g = Some sc \<and> peers s' g = Some sc'
      \<and> client_main (names g) (cfs g) (cc g) = Inr (cfs', cc') \<and> incoming (cc g) = outgoing sc' \<and> incoming sc = outgoing cc'
      \<and> (\<forall>n \<in> set (names g). content cfs' (n @ dot_copy) = content sfs n))"
proof -
  obtain s' where s': "steps (server_step sfs) (concat (map answer fds)) s = Inr s'"
    "\<forall>g. case peers s g of None \<Rightarrow> peers s' g = None
        | Some c \<Rightarrow> \<exists>c'. peers s' g = Some c' \<and> outgoing c' = outgoing c @ concat (map (\<lambda>n. reply (file n)) (names g))"
    using serve_all[OF passes, of sfs] files server by blast
  have "\<exists>sc sc' cfs' cc'. peers s g = Some sc \<and> peers s' g = Some sc'
      \<and> client_main (names g) (cfs g) (cc g) = Inr (cfs', cc') \<and> incoming (cc g) = outgoing sc' \<and> incoming sc = outgoing cc'
      \<and> (\<forall>n \<in> set (names g). content cfs' (n @ dot_copy) = content sfs n)" if g: "g \<in> set fds" for g
  proof -
    obtain sc where sc: "peers s g = Some sc" "outgoing sc = []" "requests file sc (names g)" using server g by blast
    then obtain sc' where sc': "peers s' g = Some sc'" "outgoing sc' = concat (map (\<lambda>n. reply (file n)) (names g))"
      using s'(2)[rule_format, of g] by auto
    have c: "incoming (cc g) = concat (map (\<lambda>n. reply (file n)) (names g))" "outgoing (cc g) = []"
      "serves (request_cost (names g)) (sends (cc g))" "serves (replies_cost (map file (names g))) (recvs (cc g))"
      using client g by blast+
    have "\<forall>n \<in> set (names g). name_ok n \<and> writable (cfs g) (n @ dot_copy) \<and> sendable (file n)" using files by blast
    from fetch_all_ok[OF c(1) this c(3,4)] obtain cfs' cc' where f: "fetch_all (names g) (cfs g) (cc g) = Inr (cfs', cc')"
      "outgoing cc' = concat (map frame (names g))" "content cfs' = fold (\<lambda>n m. m(n @ dot_copy \<mapsto> file n)) (names g) (content (cfs g))"
      using c(2) by auto
    have "names g \<noteq> []" using passes(2) g by (metis count_list_0_iff list.size(3))
    then have "client_main (names g) (cfs g) (cc g) = Inr (cfs', cc')" using f(1) by (simp add: client_main_def)
    moreover have "incoming sc = outgoing cc'" using sc(3) f(2) by (simp add: requests_def)
    moreover have "content cfs' (n @ dot_copy) = content sfs n" if "n \<in> set (names g)" for n
      using fold_copies[OF that, of "file" "content (cfs g)"] files that f(3) by simp
    ultimately show ?thesis using sc(1) sc' c(1) by (intro exI[of _ sc] exI[of _ sc'] exI[of _ cfs'] exI[of _ cc']) simp
  qed
  then show ?thesis using s'(1) by blast
qed

text \<open>Two clients, the first of which asks for two files, with the passes interleaved.\<close>

definition demo_names :: "fd \<Rightarrow> byte list list" where
  "demo_names g = (if g = 7 then [[97], [98]] else if g = 8 then [[98]] else [])"

definition demo_file :: "byte list \<Rightarrow> byte list" where
  "demo_file n = (if n = [97] then [1, 2, 3] else [])"

definition demo_files :: files where
  "demo_files = \<lparr>content = [[97] \<mapsto> [1, 2, 3], [98] \<mapsto> []], writable = \<lambda>_. True\<rparr>"

definition demo_server :: server where
  "demo_server = new_server\<lparr>peers := (\<lambda>g. if g \<in> {7, 8} then Some \<lparr>sends = replicate 4160 (Ready 0), recvs = replicate 18 (Ready 3),
     outgoing = [], incoming = concat (map frame (demo_names g))\<rparr> else None)\<rparr>"

definition demo_client :: "fd \<Rightarrow> conn" where
  "demo_client g = \<lparr>sends = replicate 18 (Ready 1), recvs = replicate 4160 (Ready 8), outgoing = [],
     incoming = concat (map (\<lambda>n. reply (demo_file n)) (demo_names g))\<rparr>"

lemma demo_costs: "request_cost (demo_names g) \<le> 18" "replies_cost (map demo_file (demo_names g)) \<le> 4160"
  by (simp_all add: demo_names_def demo_file_def request_cost_def replies_cost_def frame_cost_def reply_cost_def)

theorem session_copies_files_witness:
  "\<exists>s' cfs' cc'. steps (server_step demo_files) (concat (map answer [7, 8, 7])) demo_server = Inr s'
     \<and> client_main [[97], [98]] demo_files (demo_client 7) = Inr (cfs', cc')
     \<and> content cfs' ([97] @ dot_copy) = Some [1, 2, 3] \<and> content cfs' ([98] @ dot_copy) = Some []"
proof -
  have idle: "idle demo_server"
    using new_server_inv by (simp add: idle_def server_inv_def demo_server_def) (simp add: new_server_def new_fd_pool_def)
  have passes: "\<forall>g. length (demo_names g) = count_list [7, 8, 7] g" by (simp add: demo_names_def)
  have files: "\<forall>g. \<forall>n \<in> set (demo_names g). name_ok n \<and> content demo_files n = Some (demo_file n) \<and> sendable (demo_file n)
      \<and> writable demo_files (n @ dot_copy)"
    by (auto simp: demo_names_def demo_file_def demo_files_def name_ok_def sendable_def)
  have "\<forall>g \<in> set [7, 8, 7]. \<exists>sc. peers demo_server g = Some sc \<and> outgoing sc = [] \<and> requests demo_file sc (demo_names g)"
    using demo_costs by (auto simp: demo_server_def requests_def serves_replicate)
  moreover have "\<forall>g \<in> set [7, 8, 7]. outgoing (demo_client g) = [] \<and> incoming (demo_client g) = concat (map (\<lambda>n. reply (demo_file n)) (demo_names g))
      \<and> serves (request_cost (demo_names g)) (sends (demo_client g)) \<and> serves (replies_cost (map demo_file (demo_names g))) (recvs (demo_client g))"
    using demo_costs by (simp add: demo_client_def serves_replicate)
  ultimately obtain s' where s': "steps (server_step demo_files) (concat (map answer [7, 8, 7])) demo_server = Inr s'"
    "\<forall>g \<in> set [7, 8, 7]. \<exists>sc sc' cfs' cc'. peers demo_server g = Some sc \<and> peers s' g = Some sc'
      \<and> client_main (demo_names g) demo_files (demo_client g) = Inr (cfs', cc') \<and> incoming (demo_client g) = outgoing sc' \<and> incoming sc = outgoing cc'
      \<and> (\<forall>n \<in> set (demo_names g). content cfs' (n @ dot_copy) = content demo_files n)"
    using session_copies_files[OF idle passes files] by blast
  from s'(2) obtain cfs' cc' where "client_main (demo_names 7) demo_files (demo_client 7) = Inr (cfs', cc')"
    "\<forall>n \<in> set (demo_names 7). content cfs' (n @ dot_copy) = content demo_files n" by auto
  then show ?thesis using s'(1) by (auto simp: demo_names_def demo_files_def)
qed

subsection \<open>A request that is too long\<close>

lemma recv_loop_overflows:
  assumes "0 \<le> i" "i \<le> int (length buf)" "int (length buf) < i + r" "r \<le> int (length inc)" "serves (nat r) s"
  shows "recv_loop s buf i r inc = Inl OutOfBounds"
  using assms
proof (induction s arbitrary: i r buf inc)
  case (Cons x s)
  then have r: "0 < r" "size_t r = r" by (simp_all add: size_t_def)
  show ?case
  proof (cases x)
    case (Ready k)
    let ?n = "min (min (int (Suc k)) r) (int (length inc))"
    have n: "0 < ?n" "?n \<le> r" "?n \<le> int (length inc)" using r Cons.prems(4) by auto
    show ?thesis
    proof (cases "int (length buf) < i + ?n")
      case True
      then show ?thesis using Ready r by simp
    next
      case False
      then have "?n \<noteq> r" using Cons.prems(3) by auto
      let ?buf = "store_at i (take (nat ?n) inc) buf"
      have len: "length ?buf = length buf"
        using False n Cons.prems(1) by (intro length_store_at) (auto simp: nat_le_iff)
      have "serves (nat r - 1) s" using Cons.prems(5) Ready by simp
      moreover have "nat (r - ?n) \<le> nat r - 1" using n(1) by linarith
      ultimately have "serves (nat (r - ?n)) s" by (rule serves_mono)
      then have "recv_loop s ?buf (i + ?n) (r - ?n) (drop (nat ?n) inc) = Inl OutOfBounds"
        using False n Cons.prems(1-4) len by (intro Cons.IH) auto
      then show ?thesis using Ready r n False \<open>?n \<noteq> r\<close> by (simp add: Let_def)
    qed
  qed (use Cons r in simp_all)
qed simp

text \<open>C29: a request that announces and carries more than the 256 bytes of \<open>cmd\<close> is stored past the
  end of that array: nothing checks the length that the peer sends.\<close>

theorem long_request_overflows:
  assumes "peers s fd = Some c" "incoming c = frame m @ rest" "256 < length m" "length m < 2 ^ 63"
    and "serves (8 + length m) (recvs c)"
  shows "server_step fs (Readable fd) s = Inl OutOfBounds"
proof -
  obtain r where r: "RecvSocket (of_i64 0) 8 c = Inr (0, of_i64 (int (length m)), c\<lparr>recvs := r, incoming := m @ rest\<rparr>)"
    "serves (length m) r"
    using RecvSocket_ok[of 8 "of_i64 0" c "length m"] assms(2,5) by (auto simp: frame_def store_at_def add.commute)
  have "recv_loop r (zeros 256) 0 (int (length m)) (m @ rest) = Inl OutOfBounds"
    using r(2) assms(3) by (intro recv_loop_overflows) (simp_all add: zeros_def)
  moreover have "i64_of (of_i64 (int (length m))) = int (length m)"
    using assms(4) by (intro i64_roundtrip) (simp add: in_i64_def)
  ultimately have "RecvBuff (zeros 256) c = Inl OutOfBounds"
    using r(1) by (simp add: RecvBuff_def) (simp add: RecvSocket_def)
  then show ?thesis using assms(1) by (simp add: server_step_def on_readable_def)
qed

theorem long_request_overflows_witness:
  "server_step \<lparr>content = Map.empty, writable = \<lambda>_. True\<rparr> (Readable 7)
     (new_server\<lparr>peers := [7 \<mapsto> \<lparr>sends = [], recvs = replicate 400 (Ready 99), outgoing = [], incoming = frame (replicate 300 65)\<rparr>]\<rparr>)
   = Inl OutOfBounds"
  by (rule long_request_overflows[of _ 7 "\<lparr>sends = [], recvs = replicate 400 (Ready 99), outgoing = [], incoming = frame (replicate 300 65)\<rparr>"
        "replicate 300 65" "[]"]) (simp_all add: serves_replicate)

end
