(* ===== verification/Echo_Server.thy ===== *)
theory Echo_Server
  imports Epoll_Socket Fd_Pool
begin

section \<open>The echo server and its client\<close>

text \<open>
  \<^verbatim>\<open>src/socket/epoll/server.cpp\<close> and \<^verbatim>\<open>client.cpp\<close>. Unlike the file server these programs call \<open>read\<close> and
  \<open>write\<close> once per message part and do not look at how much was moved. The generated protobuf code
  is outside: \<open>parse\<close> is what \<open>client.data()\<close> returns after \<open>ParseFromArray\<close> of the bytes read
  (\<open>None\<close>: the read failed), and \<open>serialize\<close> is \<open>SerializeAsString\<close> of a client message with the given name
  and number. The server sends its reply as the raw memory of a \<open>Protobuf::Server\<close> object of
  \<open>object_size\<close> bytes: \<open>image\<close> is that memory, given what else is in it besides the two fields (a table
  pointer and other pointers into the server's own memory), an argument of the step. The array
  \<open>buf[data_len]\<close> is as long as the peer says, a negative length is the fault \<open>OutOfBounds\<close>, and length
  zero is the empty array.
\<close>

record protocol =
  parse :: "byte list option \<Rightarrow> int"
  serialize :: "byte list \<Rightarrow> int \<Rightarrow> byte list"
  object_size :: nat
  image :: "byte list \<Rightarrow> int \<Rightarrow> int \<Rightarrow> byte list"

text \<open>One call of \<open>read\<close> or \<open>write\<close>; writing to a peer that is gone ends the process.\<close>

definition read_once :: "nat \<Rightarrow> conn \<Rightarrow> fault + byte list option \<times> conn" where
  "read_once n c =
     (case recvs c of
        [] \<Rightarrow> Inl StillWaiting
      | Ready k # s \<Rightarrow>
          let bs = take (min (Suc k) n) (incoming c)
          in Inr (Some bs, c\<lparr>recvs := s, incoming := drop (length bs) (incoming c)\<rparr>)
      | _ # s \<Rightarrow> Inr (None, c\<lparr>recvs := s\<rparr>))"

definition write_once :: "byte list \<Rightarrow> conn \<Rightarrow> fault + conn" where
  "write_once bs c =
     (case sends c of
        [] \<Rightarrow> Inl StillWaiting
      | Ready k # s \<Rightarrow> Inr (c\<lparr>sends := s, outgoing := outgoing c @ take (Suc k) bs\<rparr>)
      | Pipe # s \<Rightarrow> Inl Killed
      | _ # s \<Rightarrow> Inr (c\<lparr>sends := s\<rparr>))"



subsection \<open>The server\<close>







subsection \<open>The client\<close>

text \<open>
  The reply is read over a \<open>Protobuf::Server\<close> object that is alive: the first byte that arrives overwrites the
  pointers the object is made of, the fault \<open>CorruptObject\<close>. When nothing arrives the object keeps its
  default values, and these are printed.
\<close>

definition client_RecvBuff :: "protocol \<Rightarrow> conn \<Rightarrow> fault + (int \<times> int) \<times> conn" where
  "client_RecvBuff pb c =
     bindE (read_once (object_size pb) c) (\<lambda>(r, c1).
       case r of
         Some (b # bs) \<Rightarrow> Inl CorruptObject
       | _ \<Rightarrow> Inr ((0, 0), c1))"

text \<open>The first rounds of the endless loop, and what they print.\<close>

primrec client_rounds :: "protocol \<Rightarrow> byte list \<Rightarrow> nat \<Rightarrow> int \<Rightarrow> conn \<Rightarrow> fault + (int \<times> int) list \<times> conn" where
  "client_rounds pb cli_name 0 index c = Inr ([], c)"
| "client_rounds pb cli_name (Suc n) index c =
     (let data = serialize pb cli_name index in
      bindE (or_fault IntOverflow (i32 (index + 1))) (\<lambda>index1.
      bindE (write_once (le_bytes 4 (int (length data))) c) (\<lambda>c1.
      bindE (write_once data c1) (\<lambda>c2.
      bindE (client_RecvBuff pb c2) (\<lambda>(msg, c3).
      bindE (client_rounds pb cli_name n index1 c3) (\<lambda>(msgs, c4). Inr (msg # msgs, c4)))))))"

text \<open>Before the loop the name is made from an array of one character, as if it were a C string.\<close>

definition pb_buff :: "int \<Rightarrow> byte list" where
  "pb_buff client_id = [word_of_int (65 + client_id)]"

definition client_SendBuff :: "protocol \<Rightarrow> nat \<Rightarrow> int \<Rightarrow> conn \<Rightarrow> fault + (int \<times> int) list \<times> conn" where
  "client_SendBuff pb n client_id c =
     bindE (read_c_string (pb_buff client_id)) (\<lambda>cli_name. client_rounds pb cli_name n 0 c)"

text \<open>
  So every run of the client is undefined from its first line on; and were the name read as it was meant, the
  first reply would end it.
\<close>

lemma client_SendBuff_undefined:
  "0 \<le> client_id \<Longrightarrow> client_id \<le> 25 \<Longrightarrow> client_SendBuff pb n client_id c = Inl OutOfBounds"
proof -
  assume "0 \<le> client_id" "client_id \<le> 25"
  moreover have "uint (word_of_int x :: byte) = x" if "0 \<le> x" "x < 256" for x
    using that by (simp add: uint_word_of_int)
  ultimately have "uint (word_of_int (65 + client_id) :: byte) = 65 + client_id" by (simp del: of_int_add)
  then have "(word_of_int (65 + client_id) :: byte) \<noteq> 0" using \<open>0 \<le> client_id\<close> by auto
  then show ?thesis by (simp add: client_SendBuff_def pb_buff_def read_c_string_def)
qed

lemma first_reply_corrupts:
  assumes "sends c = Ready k # Ready j # s" "recvs c = Ready i # r" "incoming c \<noteq> []" "0 < object_size pb"
  shows "client_rounds pb name (Suc n) 0 c = Inl CorruptObject"
proof -
  obtain b bs where "take (min (Suc i) (object_size pb)) (incoming c) = b # bs"
    using assms(3,4) by (cases "object_size pb"; cases "incoming c") auto
  then show ?thesis
    using assms(1,2) by (simp add: write_once_def client_RecvBuff_def read_once_def Let_def i32_def in_i32_def)
qed

subsection \<open>One call that moves everything\<close>

text \<open>Scripts whose calls all succeed and move at least \<open>b\<close> bytes, if there are as many.\<close>

definition wide :: "nat \<Rightarrow> nat \<Rightarrow> io list \<Rightarrow> bool" where
  "wide b n s \<longleftrightarrow> n \<le> length s \<and> (\<forall>x \<in> set s. case x of Ready k \<Rightarrow> b \<le> Suc k | _ \<Rightarrow> False)"

definition frame4 :: "byte list \<Rightarrow> byte list" where
  "frame4 m = le_bytes 4 (int (length m)) @ m"






subsection \<open>Every message is answered, in order\<close>





text \<open>A connection that has yet to bring the messages \<open>r\<close>, with \<open>k\<close> numbers in the queue and \<open>out\<close> sent.\<close>

definition conn_rel :: "nat \<Rightarrow> byte list list \<Rightarrow> nat \<Rightarrow> byte list \<Rightarrow> conn \<Rightarrow> bool" where
  "conn_rel b r k out c \<longleftrightarrow> incoming c = concat (map frame4 r) \<and> outgoing c = out \<and>
     (\<forall>m \<in> set r. m \<noteq> [] \<and> length m \<le> b) \<and> wide b (2 * length r + 2) (recvs c) \<and> wide b (length r + k) (sends c)"

definition fd_rel :: "nat \<Rightarrow> conn option \<Rightarrow> byte list list option \<Rightarrow> nat \<Rightarrow> byte list \<Rightarrow> bool" where
  "fd_rel b cl ml k out \<longleftrightarrow>
     (case ml of None \<Rightarrow> cl = None | Some r \<Rightarrow> \<exists>c. cl = Some c \<and> conn_rel b r k out c)"

lemma fd_rel_simps [simp]:
  "fd_rel b cl None k out \<longleftrightarrow> cl = None"
  "fd_rel b (Some c) (Some r) k out \<longleftrightarrow> conn_rel b r k out c"
  by (simp_all add: fd_rel_def)



























end
