(* ===== verification/Chat.thy ===== *)
theory Chat
  imports Echo_Server
begin

section \<open>The chat programs\<close>

text \<open>
  \<^verbatim>\<open>src/socket/select/server.cc\<close> and \<^verbatim>\<open>client.cc\<close>. The server has three threads: one appends accepted
  connections to the list \<open>li\<close>, one polls the connections in turn and prints what arrives, one
  reads lines from the terminal and sends each to every connection. Each pass of a thread is one
  step. What \<open>select\<close> says about a connection is the next entry of its script: \<open>Ready\<close> data, \<open>Again\<close>
  for the timeout, \<open>Broken\<close> for an error; with no entry left nothing arrives. \<open>FD_SET\<close> writes outside
  the set for descriptors that are negative, as \<open>accept\<close> returns them on failure, or at least 1024.
  Arrays on the stack hold arbitrary bytes before they are written, an argument \<open>junk\<close> of the step;
  \<open>printf\<close> of an array without a zero byte reads past its end: the fault \<open>OutOfBounds\<close>. The terminal is the
  bytes that are still to be typed.
\<close>

definition BUFFER_SIZE :: nat where
  "BUFFER_SIZE = 1024"

text \<open>
  \<open>fgets\<close> takes the input up to a newline, or as much as fits before the zero byte it adds; at the end of the
  input the array keeps what it holds.
\<close>

definition line_piece :: "byte list \<Rightarrow> byte list \<times> byte list" where
  "line_piece inp =
     (let k = min (BUFFER_SIZE - 1) (Suc (length (takeWhile (\<lambda>b. b \<noteq> 10) inp))) in (take k inp, drop k inp))"

definition fgets :: "byte list \<Rightarrow> byte list \<Rightarrow> byte list \<times> byte list" where
  "fgets junk inp =
     (if inp = [] then (junk, [])
      else case line_piece inp of (l, rest) \<Rightarrow> (store_at 0 (l @ [0]) junk, rest))"

subsection \<open>The server\<close>

record chat_server =
  li :: "(fd \<times> conn) list"
  console :: "byte list"
  typed :: "byte list"

datatype chat_event =
    GetConn fd conn
  | GetData
  | SendMess "byte list" \<comment> \<open>what \<open>buf\<close> holds before\<close>

definition poll_one :: "fd \<times> conn \<Rightarrow> byte list \<Rightarrow> fault + (fd \<times> conn) \<times> byte list" where
  "poll_one e out =
     (case e of (fd, c) \<Rightarrow>
       if fd < 0 \<or> 1024 \<le> fd then Inl OutOfBounds
       else case recvs c of
         [] \<Rightarrow> Inr (e, out)
       | Ready k # s \<Rightarrow>
           bindE (read_once BUFFER_SIZE c) (\<lambda>(r, c1).
           bindE (read_c_string (case r of None \<Rightarrow> zeros BUFFER_SIZE | Some bs \<Rightarrow> store_at 0 bs (zeros BUFFER_SIZE))) (\<lambda>txt.
             Inr ((fd, c1), out @ txt)))
       | _ # s \<Rightarrow> Inr ((fd, c\<lparr>recvs := s\<rparr>), out))"

primrec getData :: "(fd \<times> conn) list \<Rightarrow> byte list \<Rightarrow> fault + (fd \<times> conn) list \<times> byte list" where
  "getData [] out = Inr ([], out)"
| "getData (e # es) out =
     bindE (poll_one e out) (\<lambda>(e1, out1).
     bindE (getData es out1) (\<lambda>(es1, out2). Inr (e1 # es1, out2)))"

primrec send_all :: "byte list \<Rightarrow> (fd \<times> conn) list \<Rightarrow> fault + (fd \<times> conn) list" where
  "send_all buf [] = Inr []"
| "send_all buf (e # es) =
     bindE (write_once buf (snd e)) (\<lambda>c1. bindE (send_all buf es) (\<lambda>es1. Inr ((fst e, c1) # es1)))"

definition chat_step :: "chat_event \<Rightarrow> chat_server \<Rightarrow> fault + chat_server" where
  "chat_step e s =
     (case e of
        GetConn fd c \<Rightarrow> Inr (s\<lparr>li := li s @ [(fd, c)]\<rparr>)
      | GetData \<Rightarrow> bindE (getData (li s) (console s)) (\<lambda>(es, out). Inr (s\<lparr>li := es, console := out\<rparr>))
      | SendMess junk \<Rightarrow>
          (case fgets junk (typed s) of (buf, rest) \<Rightarrow>
             bindE (send_all buf (li s)) (\<lambda>es. Inr (s\<lparr>li := es, typed := rest\<rparr>))))"

subsection \<open>The client\<close>

text \<open>
  One pass of its loop: whether the socket and the terminal are in the set that \<open>select\<close> returns
  (neither: the timeout), and what the two arrays hold before.
\<close>

record chat_client =
  sock_cli :: conn
  screen :: "byte list"
  keyboard :: "byte list"

definition client_pass ::
  "bool \<Rightarrow> bool \<Rightarrow> byte list \<Rightarrow> byte list \<Rightarrow> chat_client \<Rightarrow> fault + chat_client" where
  "client_pass from_server from_user recvbuf sendbuf s =
     bindE (if from_server then
              bindE (read_once BUFFER_SIZE (sock_cli s)) (\<lambda>(r, c1).
              bindE (read_c_string (case r of None \<Rightarrow> recvbuf | Some bs \<Rightarrow> store_at 0 bs recvbuf)) (\<lambda>txt.
                Inr (s\<lparr>sock_cli := c1, screen := screen s @ txt\<rparr>)))
            else Inr s) (\<lambda>s1.
     if from_user then
       (case fgets sendbuf (keyboard s1) of (buf, rest) \<Rightarrow>
          bindE (read_c_string buf) (\<lambda>txt.
          bindE (write_once txt (sock_cli s1)) (\<lambda>c2. Inr (s1\<lparr>sock_cli := c2, keyboard := rest\<rparr>))))
     else Inr s1)"

subsection \<open>What is typed arrives\<close>

lemma c_string_stop: "0 \<notin> set l \<Longrightarrow> c_string (l @ 0 # bs) = l"
  by (simp add: c_string_def takeWhile_append)

lemma line_piece_split:
  assumes "line_piece inp = (l, rest)"
  shows "inp = l @ rest" "length l < BUFFER_SIZE" "inp \<noteq> [] \<Longrightarrow> l \<noteq> []"
  using assms by (auto simp: line_piece_def BUFFER_SIZE_def Let_def)

lemma line_piece_shorter: "line_piece inp = (l, rest) \<Longrightarrow> inp \<noteq> [] \<Longrightarrow> length rest < length inp"
  using line_piece_split[of inp l rest] by (cases l) auto

text \<open>The pieces in which \<open>fgets\<close> reads a text: its lines, and of long lines 1023 bytes at a time.\<close>

function pieces :: "byte list \<Rightarrow> byte list list" where
  "pieces inp = (if inp = [] then [] else case line_piece inp of (l, rest) \<Rightarrow> l # pieces rest)"
  by pat_completeness auto

termination
  by (relation "measure length") (auto dest: line_piece_shorter[OF sym])

declare pieces.simps [simp del]

lemma pieces_Nil [simp]: "pieces [] = []"
  by (simp add: pieces.simps)

lemma concat_pieces: "concat (pieces inp) = inp"
proof (induction inp rule: pieces.induct)
  case (1 inp)
  obtain l rest where "line_piece inp = (l, rest)" by (cases "line_piece inp")
  then show ?case using 1 line_piece_split(1)[of inp l rest] by (subst pieces.simps) auto
qed

lemma pieces_fit: "p \<in> set (pieces inp) \<Longrightarrow> length p < BUFFER_SIZE \<and> set p \<subseteq> set inp"
proof (induction inp rule: pieces.induct)
  case (1 inp)
  obtain l rest where l: "line_piece inp = (l, rest)" by (cases "line_piece inp")
  show ?case
  proof (cases "inp = []")
    case False
    then have "p = l \<or> p \<in> set (pieces rest)" using "1.prems" l by (simp add: pieces.simps[of inp])
    then show ?thesis using "1.IH"[OF False l[symmetric]] line_piece_split[OF l] by auto
  qed (use "1.prems" in simp)
qed

text \<open>A connection whose next call of \<open>send\<close> moves some of the block.\<close>

definition sent :: "byte list \<Rightarrow> fd \<times> conn \<Rightarrow> fd \<times> conn" where
  "sent buf e =
     (case sends (snd e) of
        Ready k # r \<Rightarrow> (fst e, (snd e)\<lparr>sends := r, outgoing := outgoing (snd e) @ take (Suc k) buf\<rparr>)
      | _ \<Rightarrow> e)"

lemma send_all_sent:
  "\<forall>e \<in> set es. \<exists>k r. sends (snd e) = Ready k # r \<Longrightarrow> send_all buf es = Inr (map (sent buf) es)"
  by (induction es) (auto simp: sent_def write_once_def)

text \<open>Calls that move at least the pieces \<open>ps\<close>, each with its zero byte.\<close>

fun moves :: "byte list list \<Rightarrow> io list \<Rightarrow> bool" where
  "moves [] s = True"
| "moves (p # ps) (Ready k # r) = (length p \<le> k \<and> moves ps r)"
| "moves (p # ps) _ = False"

lemma moves_Cons: "moves (p # ps) s \<longleftrightarrow> (\<exists>k r. s = Ready k # r \<and> length p \<le> k \<and> moves ps r)"
proof (cases s)
  case (Cons x r)
  then show ?thesis by (cases x) auto
qed simp

text \<open>The blocks that are sent for the pieces of a text, and what arrives of them.\<close>

definition block :: "byte list \<Rightarrow> byte list \<Rightarrow> byte list" where
  "block junk p = store_at 0 (p @ [0]) junk"

lemma block_eq: "block junk p = p @ 0 # drop (Suc (length p)) junk"
  by (simp add: block_def store_at_def)

lemma server_sends:
  assumes "length junks = length (pieces (typed s))" "\<forall>e \<in> set (li s). moves (pieces (typed s)) (sends (snd e))"
  shows "steps chat_step (map SendMess junks) s =
    Inr (s\<lparr>li := map (fold sent (map2 block junks (pieces (typed s)))) (li s), typed := []\<rparr>)"
  using assms
proof (induction junks arbitrary: s)
  case Nil
  then have "typed s = []" using concat_pieces[of "typed s"] by simp
  then show ?case by simp
next
  case (Cons junk junks)
  then have ne: "typed s \<noteq> []" by auto
  obtain l rest where l: "line_piece (typed s) = (l, rest)" by (cases "line_piece (typed s)")
  then have ps: "pieces (typed s) = l # pieces rest" using ne by (simp add: pieces.simps[of "typed s"])
  let ?s = "s\<lparr>li := map (sent (block junk l)) (li s), typed := rest\<rparr>"
  have "\<forall>e \<in> set (li s). \<exists>k r. sends (snd e) = Ready k # r" using Cons.prems(2) by (auto simp: ps moves_Cons)
  then have "chat_step (SendMess junk) s = Inr ?s"
    using ne l by (simp add: chat_step_def fgets_def send_all_sent flip: block_def)
  moreover have "\<forall>e \<in> set (li ?s). moves (pieces (typed ?s)) (sends (snd e))"
    using Cons.prems(2) by (auto simp: ps moves_Cons sent_def)
  ultimately show ?case using Cons.IH[of ?s] Cons.prems(1) by (simp add: ps)
qed

text \<open>The bytes that one connection gets, when its calls of \<open>send\<close> are as \<open>io\<close> says.\<close>

fun arrived :: "byte list list \<Rightarrow> io list \<Rightarrow> byte list" where
  "arrived (b # bs) (Ready k # r) = take (Suc k) b @ arrived bs r"
| "arrived _ _ = []"

lemma outgoing_sent:
  assumes "length bufs = length ps" "moves ps (sends (snd e))"
  shows "fst (fold sent bufs e) = fst e \<and> outgoing (snd (fold sent bufs e)) = outgoing (snd e) @ arrived bufs (sends (snd e))"
  using assms
proof (induction bufs ps arbitrary: e rule: list_induct2)
  case (Cons b bs p ps)
  then obtain k r where "sends (snd e) = Ready k # r" "moves ps r" by (auto simp: moves_Cons)
  then show ?case using Cons.IH[of "sent b e"] by (simp add: sent_def)
qed simp

text \<open>A client that receives what one call sent prints the piece.\<close>

lemma client_prints:
  assumes c: "recvs (sock_cli s) = Ready k # r" "incoming (sock_cli s) = take (Suc k) (block junk p) @ rest"
    and len: "length junk = BUFFER_SIZE" "length recvbuf = BUFFER_SIZE" "length p < BUFFER_SIZE" "length p \<le> k" and p: "0 \<notin> set p"
  shows "client_pass True False recvbuf sendbuf s =
    Inr (s\<lparr>sock_cli := (sock_cli s)\<lparr>recvs := r, incoming := rest\<rparr>, screen := screen s @ p\<rparr>)"
proof -
  let ?bs = "take (Suc k) (block junk p)"
  have "length (block junk p) = BUFFER_SIZE" using len by (simp add: block_eq)
  then have n: "length ?bs = min (Suc k) BUFFER_SIZE" by simp
  have "read_once BUFFER_SIZE (sock_cli s) = Inr (Some ?bs, (sock_cli s)\<lparr>recvs := r, incoming := rest\<rparr>)"
  proof -
    have front: "take (length xs) (xs @ rest) = xs" "drop (length xs) (xs @ rest) = rest" for xs by simp_all
    have "take (min (Suc k) BUFFER_SIZE) (?bs @ rest) = ?bs" "drop (length ?bs) (?bs @ rest) = rest"
      using front[of ?bs] unfolding n by blast+
    then show ?thesis using c by (simp only: read_once_def list.simps io.simps Let_def)
  qed
  moreover have "?bs = p @ 0 # take (k - length p) (drop (Suc (length p)) junk)"
    using len(4) by (simp add: block_eq Suc_diff_le)
  then have "read_c_string (store_at 0 ?bs recvbuf) = Inr p"
    using p by (simp add: read_c_string_def store_at_def c_string_stop)
  ultimately show ?thesis by (simp add: client_pass_def)
qed

lemma client_prints_all:
  assumes "length rbs = length junks" "length junks = length ps"
    and "\<forall>j \<in> set junks \<union> set rbs. length j = BUFFER_SIZE" "\<forall>p \<in> set ps. length p < BUFFER_SIZE \<and> 0 \<notin> set p"
    and "moves ps (recvs (sock_cli cl))" "incoming (sock_cli cl) = arrived (map2 block junks ps) (recvs (sock_cli cl))"
  shows "\<exists>cl'. steps (\<lambda>rb. client_pass True False rb sendbuf) rbs cl = Inr cl' \<and> screen cl' = screen cl @ concat ps"
  using assms
proof (induction rbs junks ps arbitrary: cl rule: list_induct3)
  case (Cons rb rbs j js p ps)
  then obtain k r where r: "recvs (sock_cli cl) = Ready k # r" "length p \<le> k" "moves ps r" by (auto simp: moves_Cons)
  let ?rest = "arrived (map2 block js ps) r"
  let ?cl = "cl\<lparr>sock_cli := (sock_cli cl)\<lparr>recvs := r, incoming := ?rest\<rparr>, screen := screen cl @ p\<rparr>"
  have "client_pass True False rb sendbuf cl = Inr ?cl"
    using client_prints[OF r(1), of j p ?rest rb sendbuf] Cons.prems r(1,2) by simp
  then show ?case using Cons.IH[of ?cl] Cons.prems r(3) by simp
qed simp

text \<open>C32: a text without zero bytes is typed at the server, in lines of any length, and is then sent in as many
  passes as \<open>fgets\<close> reads it in pieces (its lines; a line of 1024 bytes or more is several pieces). Every
  connection is open and each call of \<open>send\<close> on it moves at least the piece and its zero byte, though
  not always the whole block of 1024 bytes. Then no pass fails, the whole text is used up, and whatever
  each connection's calls moved: a client that gets the bytes of its connection, and receives what one call
  sent with one call of its own, prints exactly the text. (A connection whose client has gone ends the
  server instead: \<open>gone_client_kills\<close>.)\<close>

theorem chat_broadcast:
  assumes "0 \<notin> set (typed s)" "length junks = length (pieces (typed s))" "\<forall>j \<in> set junks. length j = BUFFER_SIZE"
    and "\<forall>e \<in> set (li s). moves (pieces (typed s)) (sends (snd e))"
  shows "\<exists>s'. steps chat_step (map SendMess junks) s = Inr s' \<and> typed s' = [] \<and> map fst (li s') = map fst (li s) \<and>
    (\<forall>i < length (li s). \<exists>bs. outgoing (snd (li s' ! i)) = outgoing (snd (li s ! i)) @ bs \<and>
       (\<forall>cl rbs sendbuf. incoming (sock_cli cl) = bs \<and> recvs (sock_cli cl) = sends (snd (li s ! i)) \<and>
            length rbs = length junks \<and> (\<forall>rb \<in> set rbs. length rb = BUFFER_SIZE) \<longrightarrow>
          (\<exists>cl'. steps (\<lambda>rb. client_pass True False rb sendbuf) rbs cl = Inr cl' \<and> screen cl' = screen cl @ typed s)))"
proof -
  let ?ps = "pieces (typed s)"
  let ?bufs = "map2 block junks ?ps"
  let ?s' = "s\<lparr>li := map (fold sent ?bufs) (li s), typed := []\<rparr>"
  have n: "length ?bufs = length ?ps" using assms(2) by simp
  have ps: "\<forall>p \<in> set ?ps. length p < BUFFER_SIZE \<and> 0 \<notin> set p" using pieces_fit assms(1) by blast
  have out: "fst (fold sent ?bufs e) = fst e \<and> outgoing (snd (fold sent ?bufs e)) = outgoing (snd e) @ arrived ?bufs (sends (snd e))"
    if "e \<in> set (li s)" for e
    using outgoing_sent[OF n] assms(4) that by blast
  have "\<exists>bs. outgoing (snd (li ?s' ! i)) = outgoing (snd (li s ! i)) @ bs \<and>
      (\<forall>cl rbs sendbuf. incoming (sock_cli cl) = bs \<and> recvs (sock_cli cl) = sends (snd (li s ! i)) \<and>
          length rbs = length junks \<and> (\<forall>rb \<in> set rbs. length rb = BUFFER_SIZE) \<longrightarrow>
        (\<exists>cl'. steps (\<lambda>rb. client_pass True False rb sendbuf) rbs cl = Inr cl' \<and> screen cl' = screen cl @ typed s))"
    if i: "i < length (li s)" for i
  proof (intro exI[of _ "arrived ?bufs (sends (snd (li s ! i)))"] conjI allI impI)
    show "outgoing (snd (li ?s' ! i)) = outgoing (snd (li s ! i)) @ arrived ?bufs (sends (snd (li s ! i)))"
      using out[OF nth_mem[OF i]] i by simp
    fix cl :: chat_client and rbs :: "byte list list" and sendbuf
    assume cl: "incoming (sock_cli cl) = arrived ?bufs (sends (snd (li s ! i))) \<and> recvs (sock_cli cl) = sends (snd (li s ! i)) \<and>
      length rbs = length junks \<and> (\<forall>rb \<in> set rbs. length rb = BUFFER_SIZE)"
    have "moves ?ps (recvs (sock_cli cl))" using assms(4) nth_mem[OF i] cl by auto
    then show "\<exists>cl'. steps (\<lambda>rb. client_pass True False rb sendbuf) rbs cl = Inr cl' \<and> screen cl' = screen cl @ typed s"
      using client_prints_all[OF _ assms(2), of rbs cl sendbuf] assms(3) ps cl concat_pieces[of "typed s"] by auto
  qed
  moreover have "map fst (li ?s') = map fst (li s)" using out by auto
  ultimately show ?thesis using server_sends[OF assms(2,4)] by (intro exI[of _ ?s']) simp
qed

lemma demo_pieces: "pieces [104, 105, 10, 111] = [[104, 105, 10], [111]]"
  by (simp add: pieces.simps line_piece_def BUFFER_SIZE_def)

theorem chat_broadcast_witness:
  "\<exists>s' bs. steps chat_step (map SendMess [zeros BUFFER_SIZE, zeros BUFFER_SIZE])
      \<lparr>li = [(4, \<lparr>sends = [Ready 1023, Ready 7], recvs = [], outgoing = [], incoming = []\<rparr>)], console = [],
        typed = [104, 105, 10, 111]\<rparr> = Inr s' \<and> outgoing (snd (hd (li s'))) = bs \<and>
    (\<exists>cl'. steps (\<lambda>rb. client_pass True False rb []) [zeros BUFFER_SIZE, zeros BUFFER_SIZE]
      \<lparr>sock_cli = \<lparr>sends = [], recvs = [Ready 1023, Ready 7], outgoing = [], incoming = bs\<rparr>, screen = [], keyboard = []\<rparr> = Inr cl'
      \<and> screen cl' = [104, 105, 10, 111])"
proof -
  let ?s = "\<lparr>li = [(4, \<lparr>sends = [Ready 1023, Ready 7], recvs = [], outgoing = [], incoming = []\<rparr>)], console = [],
        typed = [104, 105, 10, 111]\<rparr>" and ?j = "[zeros BUFFER_SIZE, zeros BUFFER_SIZE]"
  have "moves [[104, 105, 10], [111]] [Ready 1023, Ready 7]" by (simp add: moves_Cons)
  then obtain s' bs where s': "steps chat_step (map SendMess ?j) ?s = Inr s'" "outgoing (snd (li s' ! 0)) = bs" "map fst (li s') = [4]" and
    client: "\<And>cl rbs sendbuf. incoming (sock_cli cl) = bs \<Longrightarrow> recvs (sock_cli cl) = [Ready 1023, Ready 7] \<Longrightarrow>
            length rbs = 2 \<Longrightarrow> \<forall>rb \<in> set rbs. length rb = BUFFER_SIZE \<Longrightarrow>
          \<exists>cl'. steps (\<lambda>rb. client_pass True False rb sendbuf) rbs cl = Inr cl' \<and> screen cl' = screen cl @ [104, 105, 10, 111]"
    using chat_broadcast[of ?s ?j] by (auto simp: demo_pieces zeros_def simp del: steps.simps)
  show ?thesis
    using s' client[of "\<lparr>sock_cli = \<lparr>sends = [], recvs = [Ready 1023, Ready 7], outgoing = [], incoming = bs\<rparr>, screen = [], keyboard = []\<rparr>" ?j "[]"]
    by (cases "li s'") (auto simp: zeros_def simp del: steps.simps)
qed

text \<open>
  The list keeps the connections of clients that have gone. The first line that is sent to one of them, when
  the kernel knows that it is closed, ends the server with all its other connections.
\<close>

theorem gone_client_kills:
  assumes "li s = before @ (fd, c) # after" "\<forall>e \<in> set before. \<exists>k r. sends (snd e) = Ready k # r" "sends c = Pipe # r"
  shows "chat_step (SendMess junk) s = Inl Killed"
proof -
  have "send_all buf (before @ (fd, c) # after) = Inl Killed" for buf
    using assms(2) assms(3) by (induction before) (auto simp: write_once_def)
  then show ?thesis using assms(1) by (simp add: chat_step_def split: prod.split)
qed

text \<open>
  In the other direction lines are sent without their zero byte, and the server reads up to 1024
  bytes at a time: when that many have come together, as two long lines do, it prints past the end
  of its buffer.
\<close>

theorem coalesced_lines_overrun:
  assumes "li s = (fd, c) # es" "0 \<le> fd" "fd < 1024" "incoming c = bs @ rest" "length bs = BUFFER_SIZE" "0 \<notin> set bs"
    and "recvs c = Ready k # r" "BUFFER_SIZE \<le> Suc k"
  shows "chat_step GetData s = Inl OutOfBounds"
proof -
  have "read_once BUFFER_SIZE c = Inr (Some bs, c\<lparr>recvs := r, incoming := rest\<rparr>)"
    using assms(4,5,7,8) by (simp add: read_once_def)
  moreover have "store_at 0 bs (zeros BUFFER_SIZE) = bs" using assms(5) by (simp add: store_at_def zeros_def)
  ultimately have "poll_one (fd, c) (console s) = Inl OutOfBounds"
    using assms(2,3,6,7) by (simp add: poll_one_def read_c_string_def)
  then show ?thesis using assms(1) by (simp add: chat_step_def)
qed

end
