(* ===== verification/Socket_Setup.thy ===== *)
theory Socket_Setup
  imports Descriptors Thread_Pool
begin

section \<open>Servers and clients from start to end\<close>

text \<open>
  What the server and client programs do to the table of descriptors: the constructors, \<open>InitServer\<close>,
  \<open>InitClient\<close>, the event loop and the destructors of \<^verbatim>\<open>src/tools/sync_file/epoll_socket\<close> and of
  \<^verbatim>\<open>src/socket/epoll\<close>, and the beginnings of the chat programs in \<^verbatim>\<open>src/socket/select\<close>. Fields that a
  constructor leaves without a value are \<open>None\<close>; reading one is the fault \<open>UninitRead\<close>. The event loop
  is seen here as what it does to descriptors; what it does with messages is in \<open>Sync_Server\<close> and
  \<open>Echo_Server\<close>, and how the pool's threads end is in \<open>Pool_Shutdown\<close>.
\<close>

record server_impl =
  serv_sock :: "int option"
  epfd :: "int option"
  pool_threads :: nat

definition ServerImpl :: server_impl where
  "ServerImpl = \<lparr>serv_sock = None, epfd = None, pool_threads = 0\<rparr>"

text \<open>\<open>addThread\<close>: the argument is an \<open>unsigned short\<close>.\<close>

fun add_threads :: "nat \<Rightarrow> nat \<Rightarrow> nat" where
  "add_threads 0 n = n"
| "add_threads (Suc k) n = (if n < THREADPOOL_MAX_NUM then add_threads k (Suc n) else n)"

definition addThread :: "int \<Rightarrow> server_impl \<Rightarrow> server_impl" where
  "addThread n s = s\<lparr>pool_threads := add_threads (nat (n mod 2 ^ 16)) (pool_threads s)\<rparr>"

definition watch_listener :: "int \<Rightarrow> net \<Rightarrow> int \<times> net" where
  "watch_listener fd n = (case sys_open (EpollFd []) n of (ep, n1) \<Rightarrow> (ep, epoll_add ep fd n1))"

text \<open>Whether the event loop is entered, the object, and the table of descriptors at that time.\<close>

definition sync_InitServer :: "int \<Rightarrow> port \<Rightarrow> server_impl \<Rightarrow> net \<Rightarrow> bool \<times> server_impl \<times> net" where
  "sync_InitServer pool_size p s n =
     (case sys_socket n of (fd, n1) \<Rightarrow>
      let s1 = (addThread pool_size s)\<lparr>serv_sock := Some fd\<rparr> in
      case sys_bind fd p n1 of (bound, n2) \<Rightarrow>
        if \<not> bound then (False, s1, n2)
        else case sys_listen fd n2 of (listening, n3) \<Rightarrow>
          if \<not> listening then (False, s1, n3)
          else case watch_listener fd n3 of (ep, n4) \<Rightarrow> (True, s1\<lparr>epfd := Some ep\<rparr>, n4))"

text \<open>The echo server prints the errors and goes on.\<close>

definition echo_InitServer :: "int \<Rightarrow> port \<Rightarrow> server_impl \<Rightarrow> net \<Rightarrow> bool \<times> server_impl \<times> net" where
  "echo_InitServer pool_size p s n =
     (case sys_socket n of (fd, n1) \<Rightarrow>
      case sys_bind fd p n1 of (_, n2) \<Rightarrow>
      case sys_listen fd n2 of (_, n3) \<Rightarrow>
      case watch_listener fd n3 of (ep, n4) \<Rightarrow>
        (True, addThread pool_size (s\<lparr>serv_sock := Some fd, epfd := Some ep\<rparr>), n4))"

text \<open>
  A pass through \<open>ExecEpoll\<close>: a client has connected, or one has closed its side, which the code
  notices by reading nothing. Only watched descriptors cause events.
\<close>

datatype loop_event = Connect | Hangup int

definition exec_pass :: "server_impl \<Rightarrow> loop_event \<Rightarrow> net \<Rightarrow> net" where
  "exec_pass s e n =
     (case (serv_sock s, epfd s) of
        (Some lfd, Some ep) \<Rightarrow>
          (case desc_of n ep of
             Some (EpollFd fs) \<Rightarrow>
               (case e of
                  Connect \<Rightarrow> if lfd \<in> set fs then (case sys_accept lfd n of (fd, n1) \<Rightarrow> epoll_add ep fd n1) else n
                | Hangup fd \<Rightarrow> if fd \<in> set fs \<and> fd \<noteq> lfd then sys_close fd (epoll_del ep fd n) else n)
           | _ \<Rightarrow> n)
      | _ \<Rightarrow> n)"

definition destroy_server :: "server_impl \<Rightarrow> net \<Rightarrow> fault + net" where
  "destroy_server s n =
     bindE (or_fault UninitRead (serv_sock s)) (\<lambda>fd.
     bindE (or_fault UninitRead (epfd s)) (\<lambda>ep. Inr (sys_close ep (sys_close fd n))))"

text \<open>The programs, when \<open>epoll_wait\<close> fails after the given events.\<close>

definition sync_server_main :: "loop_event list \<Rightarrow> port \<Rightarrow> net \<Rightarrow> fault + net" where
  "sync_server_main es p n =
     (case sync_InitServer 4 p ServerImpl n of (entered, s, n1) \<Rightarrow>
        destroy_server s (if entered then fold (exec_pass s) es n1 else n1))"

definition echo_server_main :: "loop_event list \<Rightarrow> port \<Rightarrow> net \<Rightarrow> fault + net" where
  "echo_server_main es p n =
     (case echo_InitServer 4 p ServerImpl n of (entered, s, n1) \<Rightarrow>
        destroy_server s (if entered then fold (exec_pass s) es n1 else n1))"

text \<open>The chat server exits, which closes its sockets.\<close>

definition chat_InitServer :: "port \<Rightarrow> net \<Rightarrow> int option \<times> net" where
  "chat_InitServer p n =
     (case sys_socket n of (fd, n1) \<Rightarrow>
      case sys_bind fd p n1 of (bound, n2) \<Rightarrow>
        if \<not> bound then (None, sys_close fd n2)
        else case sys_listen fd n2 of (ok, n3) \<Rightarrow> if \<not> ok then (None, sys_close fd n3) else (Some fd, n3))"

subsection \<open>Clients\<close>

record client_impl =
  client_id :: int
  socket_fd :: "int option"

text \<open>What the random engine returns is an argument.\<close>

definition ClientImpl :: "int \<Rightarrow> client_impl" where
  "ClientImpl distr = \<lparr>client_id = distr, socket_fd = None\<rparr>"

definition sync_InitClient :: "port \<Rightarrow> client_impl \<Rightarrow> net \<Rightarrow> bool \<times> client_impl \<times> net" where
  "sync_InitClient p c n =
     (case sys_socket n of (fd, n1) \<Rightarrow>
      let c1 = c\<lparr>socket_fd := Some fd\<rparr> in
        if fd = - 1 then (False, c1, n1)
        else case sys_connect fd p n1 of (ok, n2) \<Rightarrow> (ok, c1, n2))"

text \<open>The echo client goes on without a connection.\<close>

definition echo_InitClient :: "port \<Rightarrow> client_impl \<Rightarrow> net \<Rightarrow> client_impl \<times> net" where
  "echo_InitClient p c n =
     (case sys_socket n of (fd, n1) \<Rightarrow> case sys_connect fd p n1 of (_, n2) \<Rightarrow> (c\<lparr>socket_fd := Some fd\<rparr>, n2))"

definition destroy_client :: "client_impl \<Rightarrow> net \<Rightarrow> fault + net" where
  "destroy_client c n = bindE (or_fault UninitRead (socket_fd c)) (\<lambda>fd. Inr (sys_close fd n))"

text \<open>The program of the file client around its transfers, which leave the table as it is.\<close>

definition sync_client_main :: "int \<Rightarrow> port \<Rightarrow> net \<Rightarrow> fault + int \<times> net" where
  "sync_client_main distr p n =
     (case sync_InitClient p (ClientImpl distr) n of (ok, c, n1) \<Rightarrow>
        bindE (destroy_client c n1) (\<lambda>n2. Inr (if ok then 0 else - 1, n2)))"

definition chat_InitClient :: "port \<Rightarrow> net \<Rightarrow> int option \<times> net" where
  "chat_InitClient p n =
     (case sys_socket n of (fd, n1) \<Rightarrow>
      case sys_connect fd p n1 of (ok, n2) \<Rightarrow> if \<not> ok then (None, sys_close fd n2) else (Some fd, n2))"

subsection \<open>What a server and a client promise each other\<close>

text \<open>The descriptor that a server listens on, or a client has connected, if any.\<close>

definition sync_serve :: "port \<Rightarrow> net \<Rightarrow> int option \<times> net" where
  "sync_serve p n = (case sync_InitServer 4 p ServerImpl n of (entered, s, n1) \<Rightarrow> (if entered then serv_sock s else None, n1))"

definition echo_serve :: "port \<Rightarrow> net \<Rightarrow> int option \<times> net" where
  "echo_serve p n = (case echo_InitServer 4 p ServerImpl n of (entered, s, n1) \<Rightarrow> (if entered then serv_sock s else None, n1))"

definition sync_join :: "port \<Rightarrow> net \<Rightarrow> int option \<times> net" where
  "sync_join p n = (case sync_InitClient p (ClientImpl 0) n of (ok, c, n1) \<Rightarrow> (if ok then socket_fd c else None, n1))"

definition echo_join :: "port \<Rightarrow> net \<Rightarrow> int option \<times> net" where
  "echo_join p n = (case echo_InitClient p (ClientImpl 0) n of (c, n1) \<Rightarrow> (socket_fd c, n1))"

text \<open>
  A server that starts on a free port listens on it and leaves room for clients; a client that finds a listener
  is connected and changes nothing else.
\<close>

locale startup =
  fixes init_server init_client :: "port \<Rightarrow> net \<Rightarrow> int option \<times> net"
  assumes serves: "started n \<Longrightarrow> \<not> in_use p n \<Longrightarrow> free_fds n = a # b # fds \<Longrightarrow>
      \<exists>n1. init_server p n = (Some a, n1) \<and> net_ok n1 \<and> desc_of n1 a = Some (Listening p) \<and> free_fds n1 \<in> {b # fds, fds}"
    and connects: "net_ok n \<Longrightarrow> listens p n \<Longrightarrow> free_fds n = fd # fds \<Longrightarrow>
      \<exists>n1. init_client p n = (Some fd, n1) \<and> desc_of n1 = (desc_of n)(fd \<mapsto> Peer p)"
begin

lemma start_then_connect:
  assumes "started n" "\<not> in_use p n" "free_fds n = a # b # c # fds"
  shows "\<exists>n1 n2 fd. init_server p n = (Some a, n1) \<and> init_client p n1 = (Some fd, n2)
    \<and> desc_of n2 a = Some (Listening p) \<and> desc_of n2 fd = Some (Peer p)"
proof -
  obtain n1 where n1: "init_server p n = (Some a, n1)" "net_ok n1" "desc_of n1 a = Some (Listening p)"
    "free_fds n1 \<in> {b # c # fds, c # fds}"
    using serves[OF assms] by blast
  then obtain fd fds' where fd: "free_fds n1 = fd # fds'" by auto
  have "listens p n1" using n1(3) by (auto simp: listens_iff)
  then obtain n2 where n2: "init_client p n1 = (Some fd, n2)" "desc_of n2 = (desc_of n1)(fd \<mapsto> Peer p)"
    using connects[OF n1(2) _ fd] by blast
  have "fd \<noteq> a" using n1(2,3) fd by (auto simp: net_ok_def)
  then show ?thesis using n1(1,3) n2 by auto
qed

end

text \<open>A socket that has just been made, and what the calls on it do.\<close>

lemma fresh_socket:
  assumes "net_ok n" "free_fds n = fd # fds"
  shows "in_use p ((set_desc fd Unbound n)\<lparr>free_fds := fds\<rparr>) = in_use p n"
    "listens p ((set_desc fd Unbound n)\<lparr>free_fds := fds\<rparr>) = listens p n" "fd \<noteq> - 1"
proof -
  have "desc_of n fd = None" "0 \<le> fd" using net_ok_open[OF assms] by simp_all
  moreover from this have "((desc_of n)(fd \<mapsto> Unbound)) f = Some d \<longleftrightarrow> desc_of n f = Some d" if "d \<noteq> Unbound" for f d
    using that by auto
  ultimately show "in_use p ((set_desc fd Unbound n)\<lparr>free_fds := fds\<rparr>) = in_use p n"
    "listens p ((set_desc fd Unbound n)\<lparr>free_fds := fds\<rparr>) = listens p n" "fd \<noteq> - 1"
    by (simp_all add: in_use_iff listens_iff del: fun_upd_apply)
qed

lemma connected:
  assumes "net_ok n" "listens p n" "free_fds n = fd # fds"
  shows "sys_connect fd p (snd (sys_socket n)) =
    (True, set_desc fd (Peer p) ((set_desc fd Unbound n)\<lparr>free_fds := fds\<rparr>))"
  using assms fresh_socket[OF assms(1,3)] by (simp add: sys_socket_def sys_open_next sys_connect_def)

text \<open>The listening socket at the end of a start, on the port that \<open>bind\<close> or the kernel has chosen.\<close>

definition listening_net :: "int \<Rightarrow> int list \<Rightarrow> port \<Rightarrow> net \<Rightarrow> net \<Rightarrow> bool" where
  "listening_net fd fds q n n' \<longleftrightarrow> desc_of n' = (desc_of n)(fd \<mapsto> Listening q) \<and> free_fds n' = fds \<and> net_ok n'"

lemma bind_and_listen:
  assumes "net_ok n" "free_fds n = fd # fds" "\<not> in_use p n"
  obtains n2 n3 where "sys_bind fd p (snd (sys_socket n)) = (True, n2)" "sys_listen fd n2 = (True, n3)"
    "listening_net fd fds p n n3"
proof -
  let ?n1 = "(set_desc fd Unbound n)\<lparr>free_fds := fds\<rparr>"
  have ok: "net_ok ?n1" using net_ok_open[OF assms(1,2)] by blast
  have "sys_bind fd p ?n1 = (True, set_desc fd (Bound p) ?n1)"
    using fresh_socket[OF assms(1,2)] assms(3) by (simp add: sys_bind_def)
  moreover have "sys_listen fd (set_desc fd (Bound p) ?n1) = (True, set_desc fd (Listening p) (set_desc fd (Bound p) ?n1))"
    by (simp add: sys_listen_def)
  moreover have "listening_net fd fds p n (set_desc fd (Listening p) (set_desc fd (Bound p) ?n1))"
    using ok by (simp add: listening_net_def net_ok_set)
  ultimately show thesis using that assms(2) by (simp add: sys_socket_def sys_open_next)
qed

lemma bind_taken:
  assumes "net_ok n" "free_fds n = fd # fds" "in_use p n"
  shows "sys_bind fd p (snd (sys_socket n)) = (False, snd (sys_socket n))"
    "listening_net fd fds (ephemeral n) n (snd (sys_listen fd (snd (sys_socket n))))"
  using assms fresh_socket[OF assms(1,2)] net_ok_open[OF assms(1,2)]
  by (simp_all add: sys_socket_def sys_open_next sys_bind_def sys_listen_def listening_net_def net_ok_set)

interpretation chat_net: startup chat_InitServer chat_InitClient
proof
  fix n p a b fds
  assume "started n" and free: "\<not> in_use p n" "free_fds n = a # b # fds"
  then have ok: "net_ok n" by (simp add: started_def)
  obtain n2 n3 where "sys_bind a p (snd (sys_socket n)) = (True, n2)" "sys_listen a n2 = (True, n3)"
    "listening_net a (b # fds) p n n3"
    using bind_and_listen[OF ok free(2,1)] .
  then show "\<exists>n1. chat_InitServer p n = (Some a, n1) \<and> net_ok n1 \<and> desc_of n1 a = Some (Listening p) \<and> free_fds n1 \<in> {b # fds, fds}"
    using free(2) by (auto simp: chat_InitServer_def sys_socket_def sys_open_next listening_net_def)
next
  fix n p fd fds
  assume "net_ok n" "listens p n" "free_fds n = fd # fds"
  then show "\<exists>n1. chat_InitClient p n = (Some fd, n1) \<and> desc_of n1 = (desc_of n)(fd \<mapsto> Peer p)"
    using connected[of n p fd fds] by (simp add: chat_InitClient_def sys_socket_def sys_open_next)
qed

subsection \<open>The event loop watches what is open\<close>

text \<open>
  What holds while a server is in its loop: it listens, and it watches its listening socket and the
  connections it has accepted, and nothing else; the descriptors of \<open>n0\<close>, the table at the start, are as they were.
\<close>

definition watching :: "int \<Rightarrow> int \<Rightarrow> port \<Rightarrow> net \<Rightarrow> net \<Rightarrow> bool" where
  "watching a b q n0 n \<longleftrightarrow> a \<noteq> b \<and> net_ok n \<and> desc_of n a = Some (Listening q) \<and>
     (\<exists>fs. desc_of n b = Some (EpollFd fs) \<and> distinct fs \<and> set fs = insert a {fd. desc_of n fd = Some Connection}) \<and>
     desc_of n0 a = None \<and> desc_of n0 b = None \<and>
     (\<forall>fd. fd \<notin> {a, b} \<longrightarrow> desc_of n fd = desc_of n0 fd \<or> desc_of n0 fd = None \<and> desc_of n fd = Some Connection)"

text \<open>
  What the connections of a server are, said without its code: of the free descriptors a client that connects
  gets the first, if there is one, and one that hangs up gives its descriptor back.
\<close>

fun conn_spec :: "loop_event \<Rightarrow> int set \<times> int list \<Rightarrow> int set \<times> int list" where
  "conn_spec Connect (cs, fds) = (case fds of [] \<Rightarrow> (cs, []) | fd # fds' \<Rightarrow> (insert fd cs, fds'))"
| "conn_spec (Hangup fd) (cs, fds) = (if fd \<in> cs then (cs - {fd}, insort fd fds) else (cs, fds))"

definition conns :: "net \<Rightarrow> int set" where
  "conns n = {fd. desc_of n fd = Some Connection}"

text \<open>The connections at the end, when a server starts with the table \<open>n\<close>: two descriptors are its own.\<close>

definition accepted :: "loop_event list \<Rightarrow> net \<Rightarrow> int set" where
  "accepted es n = (case free_fds n of a # b # fds \<Rightarrow> fst (fold conn_spec es ({}, fds)) | _ \<Rightarrow> {})"

lemma watch_listener_watching:
  assumes start: "started n0" and free: "free_fds n0 = a # b # fds" and l: "listening_net a (b # fds) q n0 n"
  shows "\<exists>n'. watch_listener a n = (b, n') \<and> watching a b q n0 n' \<and> free_fds n' = fds \<and> conns n' = {}"
proof -
  let ?n1 = "(set_desc b (EpollFd []) n)\<lparr>free_fds := fds\<rparr>"
  have n: "desc_of n = (desc_of n0)(a \<mapsto> Listening q)" "free_fds n = b # fds" "net_ok n"
    using l by (simp_all add: listening_net_def)
  have ok: "net_ok n0" using start by (simp add: started_def)
  have fresh: "desc_of n0 a = None" "desc_of n0 b = None" "a \<noteq> b" using ok free by (auto simp: net_ok_def)
  have ok1: "net_ok ?n1" using net_ok_open[OF n(3,2)] by blast
  have eq: "watch_listener a n = (b, set_desc b (EpollFd [a]) ?n1)"
    using n fresh by (simp add: watch_listener_def sys_open_next epoll_add_def)
  moreover have "net_ok (set_desc b (EpollFd [a]) ?n1)" using ok1 by (rule net_ok_set) simp
  moreover have "desc_of (set_desc b (EpollFd [a]) ?n1) = (desc_of n0)(a \<mapsto> Listening q, b \<mapsto> EpollFd [a])"
    using n(1) by simp
  ultimately show ?thesis using fresh start by (auto simp: watching_def started_def conns_def)
qed

lemma exec_pass_watching:
  assumes start: "started n0" and w: "watching a b q n0 n" and s: "serv_sock s = Some a" "epfd s = Some b"
  shows "watching a b q n0 (exec_pass s e n) \<and>
    (conns (exec_pass s e n), free_fds (exec_pass s e n)) = conn_spec e (conns n, free_fds n)"
proof -
  obtain fs where n: "a \<noteq> b" "net_ok n" "desc_of n a = Some (Listening q)"
    and fs: "desc_of n b = Some (EpollFd fs)" "distinct fs" "set fs = insert a {fd. desc_of n fd = Some Connection}"
    and n0: "desc_of n0 a = None" "desc_of n0 b = None"
    and rest: "\<And>fd. fd \<notin> {a, b} \<Longrightarrow> desc_of n fd = desc_of n0 fd \<or> desc_of n0 fd = None \<and> desc_of n fd = Some Connection"
    using w by (auto simp: watching_def)
  show ?thesis
  proof (cases e)
    case Connect
    show ?thesis
    proof (cases "free_fds n")
      case Nil
      then have "exec_pass s e n = n"
        using Connect s n fs by (simp add: exec_pass_def sys_accept_def sys_open_def epoll_add_def)
      then show ?thesis using w Connect Nil by simp
    next
      case (Cons fd fds)
      let ?n1 = "(set_desc fd Connection n)\<lparr>free_fds := fds\<rparr>"
      have fresh: "net_ok ?n1" "desc_of n fd = None" using net_ok_open[OF n(2) Cons] by simp_all
      have ne: "fd \<noteq> a" "fd \<noteq> b" "fd \<notin> set fs" using fresh(2) n(3) fs(1,3) by auto
      have ok: "net_ok (set_desc b (EpollFd (fs @ [fd])) ?n1)" using fresh(1) by (rule net_ok_set) (use fs(1) ne in simp)
      have eq: "exec_pass s e n = set_desc b (EpollFd (fs @ [fd])) ?n1"
        using Connect s n fs(1,3) Cons ne by (simp add: exec_pass_def sys_accept_def sys_open_next epoll_add_def)
      have old: "desc_of n0 fd = None" using rest[of fd] ne fresh(2) by auto
      have "watching a b q n0 (exec_pass s e n)"
        unfolding eq watching_def using ok n n0 fs ne old rest by auto
      moreover have "conns (exec_pass s e n) = insert fd (conns n)"
        unfolding eq conns_def using fs(1) ne by auto
      ultimately show ?thesis using Connect Cons eq by simp
    qed
  next
    case (Hangup fd)
    show ?thesis
    proof (cases "fd \<in> set fs \<and> fd \<noteq> a")
      case False
      then have "exec_pass s e n = n" using Hangup s fs(1) by (auto simp: exec_pass_def)
      moreover have "fd \<notin> conns n" using False fs(3) n(3) by (auto simp: conns_def)
      ultimately show ?thesis using w Hangup by simp
    next
      case True
      then have fd: "desc_of n fd = Some Connection" "fd \<noteq> a" "fd \<noteq> b" using fs(1,3) by auto
      let ?n1 = "set_desc b (EpollFd (removeAll fd fs)) n"
      have eq: "exec_pass s e n = sys_close fd ?n1"
        using Hangup s fs(1) True by (simp add: exec_pass_def epoll_del_def)
      have other: "map_option (forget fd) (desc_of n f) = desc_of n f" if "f \<noteq> b" for f
      proof (cases "desc_of n f")
        case (Some d)
        have "d \<noteq> EpollFd gs" for gs
          using rest[of f] that start_no_epoll[OF start] Some n(3) by (cases "f = a") (auto dest: sym)
        then show ?thesis using Some forget_other[of d] by simp
      qed simp
      have d: "desc_of (exec_pass s e n) = (desc_of n)(b \<mapsto> EpollFd (removeAll fd fs), fd := None)"
        unfolding eq using fd other by (auto simp: desc_of_close fun_eq_iff)
      have old: "desc_of n0 fd = None" using rest[of fd] fd start by (auto simp: started_def)
      have ok: "net_ok (exec_pass s e n)"
        unfolding eq by (intro net_ok_close net_ok_set n(2)) (simp add: fs(1))
      have "distinct (removeAll fd fs)" "set (removeAll fd fs) = insert a {f. (desc_of (exec_pass s e n)) f = Some Connection}"
        using fs fd n(1,3) unfolding d by (auto simp: distinct_removeAll)
      then have "watching a b q n0 (exec_pass s e n)" unfolding watching_def d using ok n n0 fd old rest by (auto simp: d)
      moreover have "conns (exec_pass s e n) = conns n - {fd}" unfolding conns_def d using fd fs(1) by auto
      moreover have "free_fds (exec_pass s e n) = insort fd (free_fds n)" unfolding eq using fd by (simp add: free_fds_close)
      ultimately show ?thesis using Hangup fd(1) by (simp add: conns_def)
    qed
  qed
qed

lemma exec_passes_watching:
  assumes "started n0" "serv_sock s = Some a" "epfd s = Some b"
  shows "watching a b q n0 n \<Longrightarrow> watching a b q n0 (fold (exec_pass s) es n) \<and>
    (conns (fold (exec_pass s) es n), free_fds (fold (exec_pass s) es n)) = fold conn_spec es (conns n, free_fds n)"
proof (induction es arbitrary: n)
  case (Cons e es)
  have "watching a b q n0 (exec_pass s e n)"
    "(conns (exec_pass s e n), free_fds (exec_pass s e n)) = conn_spec e (conns n, free_fds n)"
    using exec_pass_watching[OF assms(1) Cons.prems assms(2,3)] by blast+
  then show ?case using Cons.IH[of "exec_pass s e n"] by simp
qed simp

lemma destroy_watching:
  assumes start: "started n0" and w: "watching a b q n0 n" and s: "serv_sock s = Some a" "epfd s = Some b"
  shows "\<exists>n'. destroy_server s n = Inr n' \<and> desc_of n' = (\<lambda>fd. if fd \<in> conns n then Some Connection else desc_of n0 fd)"
proof -
  have n: "a \<noteq> b" "desc_of n a \<noteq> None" "desc_of n b \<noteq> None" "desc_of n0 a = None" "desc_of n0 b = None" "a \<notin> conns n" "b \<notin> conns n"
    and rest: "\<And>fd. fd \<notin> {a, b} \<Longrightarrow> desc_of n fd = desc_of n0 fd \<or> desc_of n fd = Some Connection"
    using w by (auto simp: watching_def conns_def)
  have same: "map_option (forget g) (desc_of n0 fd) = desc_of n0 fd" for g fd
  proof (cases "desc_of n0 fd")
    case (Some d)
    then show ?thesis using start_no_epoll[OF start, of fd] forget_other[of d] by simp
  qed simp
  have "desc_of (sys_close b (sys_close a n)) fd = (if fd \<in> conns n then Some Connection else desc_of n0 fd)" for fd
  proof (cases "fd \<in> {a, b}")
    case False
    then show ?thesis
      using rest[of fd] n(1-5) same by (auto simp: desc_of_close conns_def)
  next
    case True
    then show ?thesis using n by (auto simp: desc_of_close)
  qed
  then show ?thesis using s by (auto simp: destroy_server_def or_fault_def)
qed

lemma sync_InitServer_taken:
  assumes "net_ok n" "free_fds n = a # fds" "in_use p n"
  shows "sync_InitServer k p s n = (False, (addThread k s)\<lparr>serv_sock := Some a\<rparr>, snd (sys_socket n))"
  using bind_taken(1)[OF assms] assms(2) by (simp add: sync_InitServer_def sys_socket_def sys_open_next)

lemma sync_InitServer_free:
  assumes "started n" "free_fds n = a # b # fds" "\<not> in_use p n"
  shows "\<exists>n'. sync_InitServer k p s n = (True, (addThread k s)\<lparr>serv_sock := Some a, epfd := Some b\<rparr>, n')
    \<and> watching a b p n n' \<and> free_fds n' = fds \<and> conns n' = {}"
proof -
  have "net_ok n" using assms(1) by (simp add: started_def)
  from bind_and_listen[OF this assms(2,3)] obtain n2 n3 where
    "sys_bind a p (snd (sys_socket n)) = (True, n2)" "sys_listen a n2 = (True, n3)" "listening_net a (b # fds) p n n3" .
  with watch_listener_watching[OF assms(1,2) this(3)] assms(2) show ?thesis
    by (auto simp: sync_InitServer_def sys_socket_def sys_open_next)
qed

lemma echo_listens:
  assumes "net_ok n" "free_fds n = a # fds"
  obtains n2 n3 x y where "sys_bind a p (snd (sys_socket n)) = (x, n2)" "sys_listen a n2 = (y, n3)"
    "listening_net a fds (if in_use p n then ephemeral n else p) n n3"
proof (cases "in_use p n")
  case True
  then show thesis
    using bind_taken[OF assms True] that[of False "snd (sys_socket n)"] by (metis prod.collapse)
next
  case False
  then show thesis using bind_and_listen[OF assms False] that by metis
qed

lemma echo_InitServer_any:
  assumes "started n" "free_fds n = a # b # fds"
  shows "\<exists>n'. echo_InitServer k p s n = (True, addThread k (s\<lparr>serv_sock := Some a, epfd := Some b\<rparr>), n')
    \<and> watching a b (if in_use p n then ephemeral n else p) n n' \<and> free_fds n' = fds \<and> conns n' = {}"
proof -
  have "net_ok n" using assms(1) by (simp add: started_def)
  from echo_listens[OF this assms(2), of p] obtain n2 n3 x y where
    n3: "sys_bind a p (snd (sys_socket n)) = (x, n2)" "sys_listen a n2 = (y, n3)"
      "listening_net a (b # fds) (if in_use p n then ephemeral n else p) n n3" .
  with watch_listener_watching[OF assms n3(3)] assms(2) show ?thesis
    by (auto simp: echo_InitServer_def sys_socket_def sys_open_next)
qed

text \<open>With too few descriptors there is no epoll: the loop ends at once.\<close>

lemma no_socket:
  assumes "net_ok n" "free_fds n = []"
  shows "sys_socket n = (- 1, n)" "sys_bind (- 1) p n = (False, n)" "sys_listen (- 1) n = (False, n)"
    "watch_listener (- 1) n = (- 1, n)" "sys_close (- 1) n = n"
  using assms
  by (simp_all add: sys_socket_def sys_open_def sys_bind_def sys_listen_def watch_listener_def epoll_add_def sys_close_def)

lemma no_epoll_watch: "listening_net a [] q n n3 \<Longrightarrow> watch_listener a n3 = (- 1, n3)"
  using net_ok_minus_one[of n3]
  by (auto simp: listening_net_def watch_listener_def sys_open_def epoll_add_def simp del: fun_upd_apply)

lemma no_epoll_loop: "net_ok n \<Longrightarrow> epfd s = Some (- 1) \<Longrightarrow> fold (exec_pass s) es n = n"
  by (induction es) (simp_all add: exec_pass_def split: option.split)

lemma no_epoll_end:
  assumes "started n" "free_fds n = [a]" "listening_net a [] q n n3" "serv_sock s = Some a" "epfd s = Some (- 1)"
  shows "\<exists>n'. destroy_server s (fold (exec_pass s) es n3) = Inr n' \<and> desc_of n' = desc_of n"
proof -
  have n3: "net_ok n3" "desc_of n3 = (desc_of n)(a \<mapsto> Listening q)" using assms(3) by (simp_all add: listening_net_def)
  have "desc_of n a = None" using assms(1,2) by (simp add: started_def net_ok_def)
  moreover have "map_option (forget a) (desc_of n f) = desc_of n f" for f
    using start_no_epoll[OF assms(1), of f] forget_other by (cases "desc_of n f") simp_all
  ultimately have "desc_of (sys_close a n3) = desc_of n" using n3(2) by (auto simp: desc_of_close fun_eq_iff)
  moreover have "desc_of (sys_close a n3) (- 1) = None" by (rule net_ok_minus_one[OF net_ok_close[OF n3(1)]])
  then have "sys_close (- 1) (sys_close a n3) = sys_close a n3" by (simp add: sys_close_def[of "- 1"])
  ultimately show ?thesis using assms(4,5) no_epoll_loop[OF n3(1) assms(5)] by (simp add: destroy_server_def or_fault_def)
qed

lemma servers_end_few:
  assumes start: "started n" and few: "\<nexists>a b fds. free_fds n = a # b # fds"
  shows "(if in_use p n \<or> free_fds n = [] then sync_server_main es p n = Inl UninitRead
      else \<exists>n'. sync_server_main es p n = Inr n' \<and> desc_of n' = desc_of n) \<and>
    (\<exists>n'. echo_server_main es p n = Inr n' \<and> desc_of n' = desc_of n)"
proof -
  have ok: "net_ok n" using start by (simp add: started_def)
  consider (none) "free_fds n = []" | (one) a where "free_fds n = [a]" using few by (metis neq_Nil_conv)
  then show ?thesis
  proof cases
    case none
    then show ?thesis
      using no_socket[OF ok none] no_epoll_loop[OF ok]
      by (simp add: sync_server_main_def sync_InitServer_def echo_server_main_def echo_InitServer_def
          destroy_server_def or_fault_def ServerImpl_def addThread_def)
  next
    case (one a)
    obtain n2 n3 x y where
      n3: "sys_bind a p (snd (sys_socket n)) = (x, n2)" "sys_listen a n2 = (y, n3)"
        "listening_net a [] (if in_use p n then ephemeral n else p) n n3"
      using echo_listens[OF ok one] .
    have "\<exists>n'. echo_server_main es p n = Inr n' \<and> desc_of n' = desc_of n"
      using no_epoll_end[OF start one n3(3)] no_epoll_watch[OF n3(3)] n3(1,2) one
      by (simp add: echo_server_main_def echo_InitServer_def sys_socket_def sys_open_next addThread_def)
    moreover have "sync_server_main es p n = Inl UninitRead" if "in_use p n"
      using sync_InitServer_taken[OF ok one that, of 4 ServerImpl]
      by (simp add: sync_server_main_def destroy_server_def ServerImpl_def addThread_def or_fault_def)
    moreover have "\<exists>n'. sync_server_main es p n = Inr n' \<and> desc_of n' = desc_of n" if free: "\<not> in_use p n"
    proof -
      obtain m2 m3 where m: "sys_bind a p (snd (sys_socket n)) = (True, m2)" "sys_listen a m2 = (True, m3)"
        "listening_net a [] p n m3"
        using bind_and_listen[OF ok one free] .
      show ?thesis
        using no_epoll_end[OF start one m(3)] no_epoll_watch[OF m(3)] m(1,2) one
        by (simp add: sync_server_main_def sync_InitServer_def sys_socket_def sys_open_next addThread_def)
    qed
    ultimately show ?thesis using one by simp
  qed
qed

interpretation sync_net: startup sync_serve sync_join
proof
  fix n p a b fds
  assume "started n" "\<not> in_use p n" "free_fds n = a # b # fds"
  from sync_InitServer_free[OF this(1,3,2), of 4 ServerImpl]
  show "\<exists>n1. sync_serve p n = (Some a, n1) \<and> net_ok n1 \<and> desc_of n1 a = Some (Listening p) \<and> free_fds n1 \<in> {b # fds, fds}"
    by (auto simp: sync_serve_def watching_def)
next
  fix n p fd fds
  assume c: "net_ok n" "listens p n" "free_fds n = fd # fds"
  then show "\<exists>n1. sync_join p n = (Some fd, n1) \<and> desc_of n1 = (desc_of n)(fd \<mapsto> Peer p)"
    using connected[OF c] fresh_socket(3)[OF c(1,3)] by (simp add: sync_join_def sync_InitClient_def sys_socket_def sys_open_next)
qed

interpretation echo_net: startup echo_serve echo_join
proof
  fix n p a b fds
  assume "started n" "\<not> in_use p n" "free_fds n = a # b # fds"
  with echo_InitServer_any[OF this(1,3), of 4 p ServerImpl]
  show "\<exists>n1. echo_serve p n = (Some a, n1) \<and> net_ok n1 \<and> desc_of n1 a = Some (Listening p) \<and> free_fds n1 \<in> {b # fds, fds}"
    by (auto simp: echo_serve_def watching_def addThread_def)
next
  fix n p fd fds
  assume c: "net_ok n" "listens p n" "free_fds n = fd # fds"
  then show "\<exists>n1. echo_join p n = (Some fd, n1) \<and> desc_of n1 = (desc_of n)(fd \<mapsto> Peer p)"
    using connected[OF c] by (simp add: echo_join_def echo_InitClient_def sys_socket_def sys_open_next)
qed

subsection \<open>Properties\<close>

text \<open>Each of the three servers, started on a port that nobody uses, listens on it, and its client
  then connects. When the port is taken, the file server and the chat server give up; the echo server
  enters its event loop all the same, listening on whatever port the kernel chooses, while its clients
  reach the other server.\<close>

theorem servers_start:
  assumes "started n" "free_fds n = a # b # c # fds"
  shows "if in_use p n
    then fst (sync_serve p n) = None \<and> fst (chat_InitServer p n) = None
      \<and> (\<exists>n1. echo_serve p n = (Some a, n1) \<and> desc_of n1 a = Some (Listening (ephemeral n)))
    else \<forall>(server, client) \<in> {(sync_serve, sync_join), (echo_serve, echo_join), (chat_InitServer, chat_InitClient)}.
      \<exists>n1 n2 fd. server p n = (Some a, n1) \<and> client p n1 = (Some fd, n2)
        \<and> desc_of n2 a = Some (Listening p) \<and> desc_of n2 fd = Some (Peer p)"
proof (cases "in_use p n")
  case True
  have ok: "net_ok n" using assms(1) by (simp add: started_def)
  obtain n1 where "echo_serve p n = (Some a, n1)" "desc_of n1 a = Some (Listening (ephemeral n))"
    using echo_InitServer_any[OF assms, of 4 p ServerImpl] True by (auto simp: echo_serve_def watching_def addThread_def)
  moreover have "fst (sync_serve p n) = None"
    using sync_InitServer_taken[OF ok assms(2) True, of 4 ServerImpl] by (simp add: sync_serve_def)
  moreover have "fst (chat_InitServer p n) = None"
    using bind_taken(1)[OF ok assms(2) True] assms(2) by (simp add: chat_InitServer_def sys_socket_def sys_open_next)
  ultimately show ?thesis using True by auto
next
  case False
  then show ?thesis
    using sync_net.start_then_connect[OF assms(1) False assms(2)] echo_net.start_then_connect[OF assms(1) False assms(2)]
      chat_net.start_then_connect[OF assms(1) False assms(2)] by auto
qed

theorem servers_start_witness:
  "\<exists>n1 n2 fd. sync_serve 9190 (demo_net []) = (Some 3, n1) \<and> sync_join 9190 n1 = (Some fd, n2) \<and> desc_of n2 fd = Some (Peer 9190)
     \<and> fst (chat_InitServer 7000 (demo_net [(5, Listening 7000)])) = None"
proof -
  have free: "free_fds (demo_net ds) = [3, 4, 6, 7]" for ds by (simp add: demo_net_def)
  have "\<not> in_use 9190 (demo_net [])" "in_use 7000 (demo_net [(5, Listening 7000)])"
    by (simp_all add: in_use_def demo_net_def desc_of_def)
  then show ?thesis
    using servers_start[OF demo_net_started(1) free, of 9190] servers_start[OF demo_net_started(2) free, of 7000] by auto
qed

text \<open>C24: whatever clients connect and hang up, in any order, the connections of a server in its event
  loop are those of the specification \<open>conn_spec\<close>: a client that connects gets the lowest free descriptor, if
  one is free, and a connection that its client closes is closed, no longer watched, and its descriptor free
  for the next client. The server listens on its port all the while, it watches exactly its listening
  socket and the connections that are open, each once, and every other descriptor is as it was.\<close>

theorem loop_watches_open:
  assumes "started n" "\<not> in_use p n" "free_fds n = a # b # fds"
    and "init_server = sync_InitServer \<or> init_server = echo_InitServer"
  shows "\<exists>s n1. init_server 4 p ServerImpl n = (True, s, n1) \<and>
    (\<forall>es. \<exists>n' fs. fold (exec_pass s) es n1 = n' \<and> (conns n', free_fds n') = fold conn_spec es ({}, fds)
      \<and> desc_of n' a = Some (Listening p) \<and> desc_of n' b = Some (EpollFd fs) \<and> distinct fs
      \<and> set fs = insert a (conns n') \<and> (\<forall>fd. fd \<notin> {a, b} \<union> conns n' \<longrightarrow> desc_of n' fd = desc_of n fd)
      \<and> net_ok n')"
proof -
  obtain s n1 where s: "init_server 4 p ServerImpl n = (True, s, n1)" "serv_sock s = Some a" "epfd s = Some b"
    "watching a b p n n1" "free_fds n1 = fds" "conns n1 = {}"
    using assms(4)
  proof
    assume "init_server = sync_InitServer"
    with sync_InitServer_free[OF assms(1,3,2), of 4 ServerImpl] show thesis by (auto intro: that)
  next
    assume "init_server = echo_InitServer"
    with echo_InitServer_any[OF assms(1,3), of 4 p ServerImpl] assms(2) show thesis
      by (auto simp: addThread_def intro: that)
  qed
  have "watching a b p n (fold (exec_pass s) es n1) \<and>
      (conns (fold (exec_pass s) es n1), free_fds (fold (exec_pass s) es n1)) = fold conn_spec es ({}, fds)" for es
    using exec_passes_watching[OF assms(1) s(2,3,4)] s(5,6) by simp
  moreover have "desc_of m fd = desc_of n fd" if "watching a b p n m" "fd \<notin> {a, b} \<union> conns m" for m fd
    using that unfolding watching_def conns_def by blast
  ultimately show ?thesis using s(1) unfolding watching_def conns_def[symmetric] by metis
qed

theorem loop_watches_open_witness:
  "\<exists>s n1. sync_InitServer 4 9190 ServerImpl (demo_net []) = (True, s, n1) \<and>
    (\<exists>n' fs. fold (exec_pass s) [Connect, Connect, Hangup 6] n1 = n' \<and> desc_of n' 4 = Some (EpollFd fs)
      \<and> set fs = {3, 7} \<and> conns n' = {7} \<and> free_fds n' = [6])"
proof -
  have "free_fds (demo_net []) = [3, 4, 6, 7]" "\<not> in_use 9190 (demo_net [])"
    by (simp_all add: demo_net_def in_use_def)
  from loop_watches_open[OF demo_net_started(1) this(2,1), of sync_InitServer] obtain s n1 where
    s: "sync_InitServer 4 9190 ServerImpl (demo_net []) = (True, s, n1)" and
    *: "\<And>es. \<exists>n' fs. fold (exec_pass s) es n1 = n' \<and> (conns n', free_fds n') = fold conn_spec es ({}, [6, 7])
      \<and> desc_of n' 4 = Some (EpollFd fs) \<and> set fs = insert 3 (conns n')"
    by blast
  have "fold conn_spec [Connect, Connect, Hangup 6] ({}, [6, 7]) = ({7}, [6])" by auto
  with s *[of "[Connect, Connect, Hangup 6]"] show ?thesis by force
qed

text \<open>C25: how the programs end, when \<open>epoll_wait\<close> fails after any clients have come and gone, however few
  descriptors are free at the start. The file server's program that cannot bind (its port is taken, or it
  gets no socket) returns from \<open>InitServer\<close> before \<open>epfd\<close> has a value, and its destructor passes that to
  \<open>close\<close>. In all other cases, and the echo server's program always, it closes all it has opened except the
  connections: those that clients have not closed stay open, and every other descriptor is as before the start.\<close>

theorem servers_end:
  assumes "started n"
  shows "(if in_use p n \<or> free_fds n = [] then sync_server_main es p n = Inl UninitRead
      else \<exists>n'. sync_server_main es p n = Inr n' \<and>
        desc_of n' = (\<lambda>fd. if fd \<in> accepted es n then Some Connection else desc_of n fd)) \<and>
    (\<exists>n'. echo_server_main es p n = Inr n' \<and>
      desc_of n' = (\<lambda>fd. if fd \<in> accepted es n then Some Connection else desc_of n fd))"
proof (cases "\<exists>a b fds. free_fds n = a # b # fds")
  case False
  then have "accepted es n = {}" by (auto simp: accepted_def split: list.split)
  then show ?thesis using servers_end_few[OF assms False, of p es] by simp
next
  case True
  then obtain a b fds where free: "free_fds n = a # b # fds" by blast
  have ok: "net_ok n" using assms by (simp add: started_def)
  have loop: "\<exists>n'. destroy_server s (fold (exec_pass s) es n1) = Inr n' \<and>
      desc_of n' = (\<lambda>fd. if fd \<in> accepted es n then Some Connection else desc_of n fd)"
    if "watching a b q n n1" "serv_sock s = Some a" "epfd s = Some b" "free_fds n1 = fds" "conns n1 = {}" for q n1 s
  proof -
    let ?m = "fold (exec_pass s) es n1"
    have "watching a b q n ?m" "(conns ?m, free_fds ?m) = fold conn_spec es ({}, fds)"
      using exec_passes_watching[OF assms that(2,3,1), of es] that(4,5) by simp_all
    moreover from this(2) have "conns ?m = accepted es n" by (simp add: accepted_def free) (metis fst_conv)
    ultimately show ?thesis using destroy_watching[OF assms _ that(2,3), of q ?m] by simp
  qed
  have "sync_server_main es p n = Inl UninitRead" if "in_use p n"
    using sync_InitServer_taken[OF ok free that, of 4 ServerImpl]
    by (simp add: sync_server_main_def destroy_server_def ServerImpl_def addThread_def or_fault_def)
  moreover have "\<exists>n'. sync_server_main es p n = Inr n' \<and>
      desc_of n' = (\<lambda>fd. if fd \<in> accepted es n then Some Connection else desc_of n fd)" if "\<not> in_use p n"
    using sync_InitServer_free[OF assms free that, of 4 ServerImpl] loop by (auto simp: sync_server_main_def)
  moreover have "\<exists>n'. echo_server_main es p n = Inr n' \<and>
      desc_of n' = (\<lambda>fd. if fd \<in> accepted es n then Some Connection else desc_of n fd)"
    using echo_InitServer_any[OF assms free, of 4 p ServerImpl] loop by (auto simp: echo_server_main_def addThread_def)
  ultimately show ?thesis using free by simp
qed

theorem servers_end_witness:
  "sync_server_main [] 7000 (demo_net [(5, Listening 7000)]) = Inl UninitRead \<and>
   (\<exists>n'. sync_server_main [Connect, Connect, Hangup 6] 9190 (demo_net []) = Inr n' \<and> desc_of n' = [7 \<mapsto> Connection])"
proof -
  have free: "free_fds (demo_net ds) = [3, 4, 6, 7]" for ds by (simp add: demo_net_def)
  have "\<not> in_use 9190 (demo_net [])" "in_use 7000 (demo_net [(5, Listening 7000)])" "desc_of (demo_net []) = Map.empty"
    by (auto simp: in_use_def demo_net_def desc_of_def)
  moreover have "accepted [Connect, Connect, Hangup 6] (demo_net []) = {7}" by (auto simp: accepted_def free)
  ultimately show ?thesis
    using servers_end[OF demo_net_started(1), of 9190 "[Connect, Connect, Hangup 6]"]
      servers_end[OF demo_net_started(2), of 7000 "[]"] free by (auto simp: fun_eq_iff)
qed

text \<open>A client gives its descriptor back whether or not it was connected.\<close>

theorem sync_client_ends:
  assumes "started n" "free_fds n = fd # fds"
  shows "\<exists>n'. sync_client_main distr p n = Inr (if listens p n then 0 else - 1, n') \<and> desc_of n' = desc_of n \<and> free_fds n' = free_fds n"
proof -
  let ?n1 = "(set_desc fd Unbound n)\<lparr>free_fds := fds\<rparr>"
  have ok: "net_ok n" using assms(1) by (simp add: started_def)
  have restored: "desc_of (sys_close fd m) = desc_of n \<and> free_fds (sys_close fd m) = free_fds n"
    if "desc_of m = (desc_of n)(fd \<mapsto> d)" "free_fds m = fds" for m d
  proof -
    have "map_option (forget fd) (desc_of n f) = desc_of n f" for f
      using start_no_epoll[OF assms(1), of f] forget_other by (cases "desc_of n f") simp_all
    moreover have "insort fd fds = fd # fds"
      using ok assms(2) by (auto simp: net_ok_def intro: insort_is_Cons)
    ultimately show ?thesis using that assms(2) net_ok_open[OF ok assms(2)] by (auto simp: desc_of_close free_fds_close fun_eq_iff)
  qed
  have "sys_connect fd p ?n1 = (if listens p n then (True, set_desc fd (Peer p) ?n1) else (False, ?n1))"
    using fresh_socket[OF ok assms(2)] by (simp add: sys_connect_def)
  then show ?thesis
    using restored[of "set_desc fd (Peer p) ?n1" "Peer p"] restored[of ?n1 Unbound] assms(2) fresh_socket(3)[OF ok assms(2)]
    by (simp add: sync_client_main_def sync_InitClient_def sys_socket_def sys_open_next destroy_client_def or_fault_def ClientImpl_def)
qed

end
