(* ===== verification/Lru_Cache.thy ===== *)
theory Lru_Cache
  imports Decimal "HOL-Library.AList"
begin

section \<open>The least-recently-used cache\<close>

text \<open>
  \<^verbatim>\<open>src/test/146.cc\<close>: a cache of \<open>capacity_\<close> entries as a doubly linked list of nodes, the most recently
  used one first, and a map from keys to nodes. The nodes are objects in a store that maps the
  addresses in use to their fields; \<open>None\<close> as a pointer is \<open>nullptr\<close>, and an address without a node
  has been freed. The addresses that \<open>new\<close> returns are an argument. The map is an association list
  with one entry per key: its order is not observable.
\<close>

type_synonym ptr = "nat option"

record list_node =
  head :: ptr
  key :: int
  val :: int
  tail :: ptr

type_synonym heap = "nat \<Rightarrow> list_node option"

record lru_cache =
  lru_capacity :: int
  now_length :: int
  lru_head :: ptr
  lru_tail :: ptr
  cache_mp :: "(int \<times> nat) list"
  nodes :: heap

definition new_node :: "int \<Rightarrow> int \<Rightarrow> list_node" where
  "new_node k v = \<lparr>head = None, key = k, val = v, tail = None\<rparr>"

definition LRUCache :: "int \<Rightarrow> lru_cache" where
  "LRUCache capacity =
     \<lparr>lru_capacity = capacity, now_length = 0, lru_head = None, lru_tail = None, cache_mp = [], nodes = (\<lambda>_. None)\<rparr>"

definition deref_node :: "lru_cache \<Rightarrow> ptr \<Rightarrow> fault + list_node" where
  "deref_node s p = (case p of None \<Rightarrow> Inl NullDeref | Some a \<Rightarrow> or_fault UseAfterFree (nodes s a))"

definition assign :: "ptr \<Rightarrow> (list_node \<Rightarrow> list_node) \<Rightarrow> lru_cache \<Rightarrow> fault + lru_cache" where
  "assign p f s =
     bindE (deref_node s p) (\<lambda>n.
       case p of None \<Rightarrow> Inl NullDeref | Some a \<Rightarrow> Inr (s\<lparr>nodes := (nodes s)(a \<mapsto> f n)\<rparr>))"

definition InsertHead :: "ptr \<Rightarrow> lru_cache \<Rightarrow> fault + lru_cache" where
  "InsertHead now s =
     bindE (assign now (\<lambda>n. n\<lparr>tail := lru_head s\<rparr>) s) (\<lambda>s1.
     bindE (assign now (\<lambda>n. n\<lparr>head := None\<rparr>) s1) (\<lambda>s2.
     bindE (if lru_head s2 \<noteq> None then assign (lru_head s2) (\<lambda>n. n\<lparr>head := now\<rparr>) s2 else Inr s2) (\<lambda>s3.
     let s4 = s3\<lparr>lru_head := now\<rparr>
     in Inr (if lru_tail s4 = None then s4\<lparr>lru_tail := lru_head s4\<rparr> else s4))))"

definition DeleteNode :: "ptr \<Rightarrow> lru_cache \<Rightarrow> fault + lru_cache" where
  "DeleteNode node s =
     bindE (deref_node s node) (\<lambda>n.
     bindE (if head n = None then Inr (s\<lparr>lru_head := tail n\<rparr>)
            else assign (head n) (\<lambda>m. m\<lparr>tail := tail n\<rparr>) s) (\<lambda>s1.
     bindE (deref_node s1 node) (\<lambda>n1.
       if tail n1 = None then Inr (s1\<lparr>lru_tail := head n1\<rparr>)
       else assign (tail n1) (\<lambda>m. m\<lparr>head := head n1\<rparr>) s1)))"

definition get :: "int \<Rightarrow> lru_cache \<Rightarrow> fault + int \<times> lru_cache" where
  "get k s =
     (case map_of (cache_mp s) k of
       Some a \<Rightarrow>
         bindE (DeleteNode (Some a) s) (\<lambda>s1.
         bindE (InsertHead (Some a) s1) (\<lambda>s2.
         bindE (deref_node s2 (Some a)) (\<lambda>n. Inr (val n, s2))))
     | None \<Rightarrow> Inr (- 1, s))"

text \<open>
  \<open>put\<close>. The test \<open>cache_mp_.size() >= capacity_\<close> compares in \<open>size_t\<close>, so a negative capacity is a
  huge one.
\<close>

definition put :: "(heap \<Rightarrow> nat option) \<Rightarrow> int \<Rightarrow> int \<Rightarrow> lru_cache \<Rightarrow> fault + lru_cache" where
  "put alloc k v s =
     (case map_of (cache_mp s) k of
       Some a \<Rightarrow> bindE (DeleteNode (Some a) s) (InsertHead (Some a))
     | None \<Rightarrow>
         let tmp = lru_tail s in
         bindE (if lru_capacity s mod 2 ^ 64 \<le> int (length (cache_mp s))
                then bindE (deref_node s (lru_tail s)) (\<lambda>n.
                     let s1 = s\<lparr>cache_mp := AList.delete (key n) (cache_mp s)\<rparr> in
                     bindE (DeleteNode (lru_tail s1) s1) (\<lambda>s2.
                     bindE (assign tmp (\<lambda>n. n\<lparr>key := k\<rparr>) s2) (\<lambda>s3.
                     bindE (assign tmp (\<lambda>n. n\<lparr>val := v\<rparr>) s3) (\<lambda>s4. Inr (tmp, s4)))))
                else bindE (or_fault BadAlloc (alloc (nodes s))) (\<lambda>a.
                     Inr (Some a, s\<lparr>nodes := (nodes s)(a \<mapsto> new_node k v)\<rparr>))) (\<lambda>(p, s1).
         bindE (InsertHead p s1) (\<lambda>s2.
         case p of None \<Rightarrow> Inl NullDeref
         | Some a \<Rightarrow> Inr (s2\<lparr>cache_mp := AList.update k a (cache_mp s2)\<rparr>))))"

text \<open>\<open>showLRU\<close>: the loop returns \<open>None\<close> if it runs into a bad pointer or in a circle.\<close>

partial_function (option) show_loop :: "heap \<Rightarrow> ptr \<Rightarrow> string option" where
  "show_loop h p =
     (case p of None \<Rightarrow> Some []
      | Some a \<Rightarrow> do {
          n \<leftarrow> h a;
          rest \<leftarrow> show_loop h (tail n);
          Some (''['' @ print_i64 (key n) @ '','' @ print_i64 (val n) @ ''],'' @ rest)
        })"

definition endl :: string where
  "endl = [CHR 0x0A]"

definition showLRU :: "lru_cache \<Rightarrow> string option" where
  "showLRU s = do { out \<leftarrow> show_loop (nodes s) (lru_head s); Some (''LRU:'' @ out @ endl) }"

text \<open>
  The destructor: \<open>head_->tail\<close> is read after \<open>head_\<close> has been deleted, through the same pointer. The
  function terminates because that read fails.
\<close>

definition delete_node :: "ptr \<Rightarrow> lru_cache \<Rightarrow> fault + lru_cache" where
  "delete_node p s =
     bindE (deref_node s p) (\<lambda>_.
       case p of None \<Rightarrow> Inr s | Some a \<Rightarrow> Inr (s\<lparr>nodes := (nodes s)(a := None)\<rparr>))"

function destroy_cache :: "lru_cache \<Rightarrow> fault + lru_cache" where
  "destroy_cache s =
     (if lru_head s = None then Inr s
      else bindE (delete_node (lru_head s) s) (\<lambda>s1.
           bindE (deref_node s1 (lru_head s1)) (\<lambda>n. destroy_cache (s1\<lparr>lru_head := tail n\<rparr>))))"
  by pat_completeness auto
termination
  by (relation "{}") (auto simp: delete_node_def deref_node_def bindE_Inr_iff or_fault_Inr_iff)

subsection \<open>Running the program\<close>

text \<open>What a client does with a cache, and what it sees: the operations of \<open>main\<close>.\<close>

datatype lru_op = Get int | Put int int | Show

record client =
  lru :: lru_cache
  shown :: string

definition lru_step :: "(heap \<Rightarrow> nat option) \<Rightarrow> lru_op \<Rightarrow> client \<Rightarrow> fault + client" where
  "lru_step alloc op c =
     (case op of
       Get k \<Rightarrow> bindE (get k (lru c)) (\<lambda>(v, s). Inr (c\<lparr>lru := s, shown := shown c @ print_i64 v @ endl\<rparr>))
     | Put k v \<Rightarrow> bindE (put alloc k v (lru c)) (\<lambda>s. Inr (c\<lparr>lru := s\<rparr>))
     | Show \<Rightarrow> bindE (or_fault UseAfterFree (showLRU (lru c))) (\<lambda>out. Inr (c\<lparr>shown := shown c @ out\<rparr>)))"

definition lru_main :: "(heap \<Rightarrow> nat option) \<Rightarrow> fault + client" where
  "lru_main alloc =
     bindE (steps (lru_step alloc)
              [Put 1 1, Show, Put 2 2, Show, Get 1, Put 3 3, Show, Get 2, Put 4 4, Show, Get 1, Get 3, Get 4]
              \<lparr>lru = LRUCache 2, shown = []\<rparr>) (\<lambda>c.
     bindE (destroy_cache (lru c)) (\<lambda>s. Inr (c\<lparr>lru := s\<rparr>)))"

subsection \<open>The linked list\<close>

text \<open>
  \<open>linked h p as q\<close>: the nodes at \<open>as\<close> follow each other, with \<open>p\<close> before the first and \<open>q\<close> after
  the last.
\<close>

fun first_of :: "nat list \<Rightarrow> ptr \<Rightarrow> ptr" where
  "first_of [] q = q"
| "first_of (a # as) q = Some a"

definition last_of :: "nat list \<Rightarrow> ptr \<Rightarrow> ptr" where
  "last_of as p = (if as = [] then p else Some (last as))"

fun linked :: "heap \<Rightarrow> ptr \<Rightarrow> nat list \<Rightarrow> ptr \<Rightarrow> bool" where
  "linked h p [] q = True"
| "linked h p (a # as) q =
     (case h a of None \<Rightarrow> False
      | Some n \<Rightarrow> head n = p \<and> tail n = first_of as q \<and> linked h (Some a) as q)"

lemma last_of_simps [simp]: "last_of [] p = p" "last_of (as @ [a]) p = Some a" "last_of (a # as) p = last_of as (Some a)"
  by (simp_all add: last_of_def)

lemma first_of_append [simp]: "first_of (as @ bs) q = first_of as (first_of bs q)"
  by (cases as) simp_all

lemma last_of_append [simp]: "last_of (as @ bs) p = last_of bs (last_of as p)"
  by (simp add: last_of_def)

lemma first_of_eq_None [simp]: "first_of as None = None \<longleftrightarrow> as = []"
  by (cases as) simp_all

lemma last_of_eq_None [simp]: "last_of as None = None \<longleftrightarrow> as = []"
  by (simp add: last_of_def)

lemma linked_append [simp]:
  "linked h p (as @ bs) q \<longleftrightarrow> linked h p as (first_of bs q) \<and> linked h (last_of as p) bs q"
  by (induction as arbitrary: p) (auto split: option.splits)

lemma linked_upd [simp]: "a \<notin> set as \<Longrightarrow> linked (h(a := x)) p as q = linked h p as q"
  by (induction as arbitrary: p) (auto split: option.splits)

lemma linked_dom: "linked h p as q \<Longrightarrow> a \<in> set as \<Longrightarrow> h a \<noteq> None"
  by (induction as arbitrary: p) (auto split: option.splits)

lemma linked_set_tail:
  assumes "linked h p (as @ [a]) q" "a \<notin> set as" "h a = Some n"
  shows "linked (h(a \<mapsto> n\<lparr>tail := q'\<rparr>)) p (as @ [a]) q'"
  using assms by simp

lemma linked_set_head:
  assumes "linked h p (a # as) q" "a \<notin> set as" "h a = Some n"
  shows "linked (h(a \<mapsto> n\<lparr>head := p'\<rparr>)) p' (a # as) q"
  using assms by simp

text \<open>The list of a cache, and what the pointer operations leave alone: keys and values.\<close>

definition chain :: "lru_cache \<Rightarrow> nat list \<Rightarrow> bool" where
  "chain s ps \<longleftrightarrow> distinct ps \<and> linked (nodes s) None ps None \<and>
     lru_head s = first_of ps None \<and> lru_tail s = last_of ps None"

definition node_entry :: "heap \<Rightarrow> nat \<Rightarrow> (int \<times> int) option" where
  "node_entry h a = map_option (\<lambda>n. (key n, val n)) (h a)"

definition same_data :: "lru_cache \<Rightarrow> lru_cache \<Rightarrow> bool" where
  "same_data s s' \<longleftrightarrow> lru_capacity s' = lru_capacity s \<and> cache_mp s' = cache_mp s \<and>
     node_entry (nodes s') = node_entry (nodes s)"

lemma node_entry_upd: "h a = Some n \<Longrightarrow> key m = key n \<Longrightarrow> val m = val n \<Longrightarrow> node_entry (h(a \<mapsto> m)) = node_entry h"
  by (auto simp: node_entry_def fun_eq_iff)

lemma node_entry_None_iff: "node_entry h a = None \<longleftrightarrow> h a = None"
  by (simp add: node_entry_def)

lemma assign_Some: "nodes s a = Some n \<Longrightarrow> assign (Some a) f s = Inr (s\<lparr>nodes := (nodes s)(a \<mapsto> f n)\<rparr>)"
  by (simp add: assign_def deref_node_def)

lemma deref_Some: "nodes s a = Some n \<Longrightarrow> deref_node s (Some a) = Inr n"
  by (simp add: deref_node_def)

lemma InsertHead_chain:
  assumes ch: "chain s ps" and a: "a \<notin> set ps" "nodes s a = Some n"
  shows "\<exists>s'. InsertHead (Some a) s = Inr s' \<and> chain s' (a # ps) \<and> same_data s s'"
proof (cases ps)
  case Nil
  then show ?thesis
    using ch a
    by (simp add: InsertHead_def assign_Some chain_def same_data_def node_entry_upd Let_def)
next
  case (Cons b qs)
  with ch obtain m where m: "nodes s b = Some m" "head m = None" "tail m = first_of qs None" "linked (nodes s) (Some b) qs None"
    by (auto simp: chain_def split: option.splits)
  have "b \<noteq> a" "a \<notin> set qs" "b \<notin> set qs" using a ch Cons by (auto simp: chain_def)
  then show ?thesis
    using ch a m Cons
    by (simp add: InsertHead_def assign_Some chain_def same_data_def node_entry_upd Let_def last_of_def)
qed

text \<open>The two halves of \<open>DeleteNode\<close>: unlink from the predecessor, then from the successor.\<close>

lemma unlink_before:
  assumes d: "distinct (as @ a # bs)" and n: "nodes s a = Some n" "head n = last_of as None" "tail n = first_of bs None"
    and la: "linked (nodes s) None as (Some a)" and lb: "linked (nodes s) (Some a) bs None"
    and hd: "lru_head s = first_of (as @ [a]) None"
  shows "\<exists>s1. (if head n = None then Inr (s\<lparr>lru_head := tail n\<rparr>) else assign (head n) (\<lambda>m. m\<lparr>tail := tail n\<rparr>) s) = Inr s1 \<and>
     nodes s1 a = Some n \<and> linked (nodes s1) None as (first_of bs None) \<and> linked (nodes s1) (Some a) bs None \<and>
     lru_head s1 = first_of (as @ bs) None \<and> lru_tail s1 = lru_tail s \<and> same_data s s1"
proof (cases as rule: rev_cases)
  case Nil
  then show ?thesis using n lb by (simp add: same_data_def)
next
  case (snoc cs c)
  then obtain m where m: "nodes s c = Some m" using la by (auto split: option.splits)
  have "c \<noteq> a" "c \<notin> set cs" "c \<notin> set bs" using d snoc by auto
  then show ?thesis
    using n lb hd m la linked_set_tail[of "nodes s" None cs c "Some a" m "first_of bs None"] snoc
    by (auto simp: assign_Some same_data_def node_entry_upd)
qed

lemma unlink_after:
  assumes d: "distinct (as @ a # bs)" and n: "nodes s a = Some n" "head n = last_of as None" "tail n = first_of bs None"
    and la: "linked (nodes s) None as (first_of bs None)" and lb: "linked (nodes s) (Some a) bs None"
    and tl: "lru_head s = first_of (as @ bs) None" "lru_tail s = last_of (a # bs) None"
  shows "\<exists>s'. (if tail n = None then Inr (s\<lparr>lru_tail := head n\<rparr>) else assign (tail n) (\<lambda>m. m\<lparr>head := head n\<rparr>) s) = Inr s' \<and>
     chain s' (as @ bs) \<and> same_data s s'"
proof (cases bs)
  case Nil
  then show ?thesis using d n la tl by (simp add: same_data_def chain_def)
next
  case (Cons b cs)
  then obtain m where m: "nodes s b = Some m" using lb by (auto split: option.splits)
  have "b \<noteq> a" "b \<notin> set cs" "b \<notin> set as" using d Cons by auto
  then show ?thesis
    using d n la lb tl m Cons linked_set_head[of "nodes s" "Some a" b cs None m "last_of as None"]
    by (auto simp: assign_Some same_data_def node_entry_upd chain_def)
qed

lemma DeleteNode_chain:
  assumes ch: "chain s (as @ a # bs)"
  shows "\<exists>s'. DeleteNode (Some a) s = Inr s' \<and> chain s' (as @ bs) \<and> same_data s s'"
proof -
  obtain n where n: "nodes s a = Some n" "head n = last_of as None" "tail n = first_of bs None"
    and la: "linked (nodes s) None as (Some a)" and lb: "linked (nodes s) (Some a) bs None"
    using ch by (auto simp: chain_def split: option.splits)
  have d: "distinct (as @ a # bs)" using ch by (simp add: chain_def)
  have hd: "lru_head s = first_of (as @ [a]) None" "lru_tail s = last_of (a # bs) None"
    using ch by (simp_all add: chain_def)
  obtain s1 where s1: "(if head n = None then Inr (s\<lparr>lru_head := tail n\<rparr>)
       else assign (head n) (\<lambda>m. m\<lparr>tail := tail n\<rparr>) s) = Inr s1"
    and n1: "nodes s1 a = Some n" and "linked (nodes s1) None as (first_of bs None)"
    "linked (nodes s1) (Some a) bs None" "lru_head s1 = first_of (as @ bs) None"
    and t1: "lru_tail s1 = lru_tail s" and same: "same_data s s1"
    using unlink_before[OF d n la lb hd(1)] by blast
  then obtain s' where "(if tail n = None then Inr (s1\<lparr>lru_tail := head n\<rparr>)
       else assign (tail n) (\<lambda>m. m\<lparr>head := head n\<rparr>) s1) = Inr s'" "chain s' (as @ bs)" "same_data s1 s'"
    using unlink_after[OF d n1 n(2,3)] hd(2) t1 by metis
  then show ?thesis
    using same s1 by (auto simp: DeleteNode_def deref_Some[OF n(1)] deref_Some[OF n1] same_data_def simp del: if_split)
qed

subsection \<open>Lists of keys\<close>

lemma alist_delete_front:
  assumes "distinct (map fst (xs @ (k, v) # ys))"
  shows "AList.delete k (xs @ (k, v) # ys) = xs @ ys"
proof -
  have "filter (\<lambda>(k', _). k \<noteq> k') zs = zs" if "k \<notin> fst ` set zs" for zs :: "('a \<times> 'b) list"
    using that by (induction zs) auto
  then show ?thesis using assms by (simp add: AList.delete_eq)
qed

lemma alist_update_new: "k \<notin> fst ` set xs \<Longrightarrow> AList.update k v xs = xs @ [(k, v)]"
  by (induction xs) auto

lemma mset_delete_key:
  assumes "mset xs = add_mset (k, v) (mset ys)" "k \<notin> fst ` set ys"
  shows "mset (AList.delete k xs) = mset ys"
proof -
  have "mset (AList.delete k xs) = filter_mset (\<lambda>(k', _). k \<noteq> k') (mset xs)"
    by (simp add: AList.delete_eq)
  also have "\<dots> = filter_mset (\<lambda>(k', _). k \<noteq> k') (mset ys)" using assms(1) by simp
  also have "\<dots> = mset ys" using assms(2) by (force simp: filter_mset_eq_conv)
  finally show ?thesis .
qed

lemma map_of_mset:
  assumes "mset xs = mset ys" "distinct (map fst ys)"
  shows "map_of xs = map_of ys"
proof -
  have "mset (map fst xs) = mset (map fst ys)" using assms(1) by simp
  then have "distinct (map fst xs)" using assms(2) mset_eq_imp_distinct_iff by blast
  moreover have "set xs = set ys" using assms(1) by (rule mset_eq_setD)
  ultimately show ?thesis using assms(2) by (metis map_of_inject_set)
qed

subsection \<open>The invariant of the cache\<close>

text \<open>
  \<open>held s ps\<close>: the nodes at \<open>ps\<close> are the list, they are all the nodes there are, no two have the
  same key, and the map has one entry for each of them. \<open>contents\<close> is what the list holds.
\<close>

definition key_of :: "heap \<Rightarrow> nat \<Rightarrow> int" where
  "key_of h a = fst (the (node_entry h a))"

definition held :: "lru_cache \<Rightarrow> nat list \<Rightarrow> bool" where
  "held s ps \<longleftrightarrow> chain s ps \<and> dom (node_entry (nodes s)) = set ps \<and> distinct (map (key_of (nodes s)) ps) \<and>
     mset (cache_mp s) = mset (map (\<lambda>a. (key_of (nodes s) a, a)) ps)"

partial_function (option) walk :: "heap \<Rightarrow> ptr \<Rightarrow> (int \<times> int) list option" where
  "walk h p =
     (case p of None \<Rightarrow> Some []
      | Some a \<Rightarrow> do { n \<leftarrow> h a; rest \<leftarrow> walk h (tail n); Some ((key n, val n) # rest) })"

definition contents :: "lru_cache \<Rightarrow> (int \<times> int) list" where
  "contents s = (case walk (nodes s) (lru_head s) of None \<Rightarrow> [] | Some xs \<Rightarrow> xs)"

definition show_entry :: "int \<times> int \<Rightarrow> string" where
  "show_entry e = ''['' @ print_i64 (fst e) @ '','' @ print_i64 (snd e) @ ''],''"

lemma walk_linked: "linked h p ps None \<Longrightarrow> walk h (first_of ps None) = Some (map (\<lambda>a. the (node_entry h a)) ps)"
proof (induction ps arbitrary: p)
  case Nil
  show ?case by (simp add: walk.simps)
next
  case (Cons a ps)
  then obtain n where n: "h a = Some n" "tail n = first_of ps None" "linked h (Some a) ps None"
    by (auto split: option.splits)
  show ?case using Cons.IH[OF n(3)] n by (simp add: walk.simps[of h "Some a"] node_entry_def)
qed

lemma show_linked:
  "linked h p ps None \<Longrightarrow>
   show_loop h (first_of ps None) = Some (concat (map show_entry (map (\<lambda>a. the (node_entry h a)) ps)))"
proof (induction ps arbitrary: p)
  case Nil
  show ?case by (simp add: show_loop.simps)
next
  case (Cons a ps)
  then obtain n where n: "h a = Some n" "tail n = first_of ps None" "linked h (Some a) ps None"
    by (auto split: option.splits)
  show ?case using Cons.IH[OF n(3)] n by (simp add: show_loop.simps[of h "Some a"] node_entry_def show_entry_def)
qed

lemma contents_chain: "chain s ps \<Longrightarrow> contents s = map (\<lambda>a. the (node_entry (nodes s) a)) ps"
  by (simp add: chain_def contents_def walk_linked[of _ None])

lemma showLRU_chain: "chain s ps \<Longrightarrow> showLRU s = Some (''LRU:'' @ concat (map show_entry (contents s)) @ endl)"
  by (simp add: showLRU_def contents_chain) (simp add: chain_def show_linked[of _ None])

lemma keys_contents: "chain s ps \<Longrightarrow> map fst (contents s) = map (key_of (nodes s)) ps"
  by (simp add: contents_chain key_of_def)

lemma held_map_of:
  assumes "held s ps"
  shows "map_of (cache_mp s) k = Some a \<longleftrightarrow> a \<in> set ps \<and> key_of (nodes s) a = k"
proof -
  let ?ys = "map (\<lambda>a. (key_of (nodes s) a, a)) ps"
  have "map fst ?ys = map (key_of (nodes s)) ps" by simp
  then have d: "distinct (map fst ?ys)" using assms by (simp only: held_def)
  have "map_of (cache_mp s) = map_of ?ys" using assms d by (intro map_of_mset) (simp_all add: held_def)
  then show ?thesis using map_of_eq_Some_iff[OF d, of k a] by auto
qed

lemma held_length: "held s ps \<Longrightarrow> length (cache_mp s) = length ps"
  by (metis held_def length_map size_mset)

lemma held_same:
  assumes "held s ps" "chain s' qs" "mset qs = mset ps" "same_data s s'"
  shows "held s' qs"
proof -
  have key: "key_of (nodes s') = key_of (nodes s)" and mp: "cache_mp s' = cache_mp s"
    and dm: "dom (node_entry (nodes s')) = dom (node_entry (nodes s))"
    using assms(4) by (simp_all add: same_data_def key_of_def[abs_def])
  have "mset (map f qs) = mset (map f ps)" for f :: "nat \<Rightarrow> int" using assms(3) by simp
  then have "distinct (map (key_of (nodes s)) qs)"
    using assms(1) mset_eq_imp_distinct_iff unfolding held_def by blast
  then show ?thesis
    using assms(1,2) assms(3) mset_eq_setD[OF assms(3)] by (simp add: held_def key mp dm)
qed

subsection \<open>The operations\<close>

text \<open>
  What the operations do to the list of entries, most recently used first. A hit moves its entry to
  the front and leaves its value alone, also when it is \<open>put\<close>; a new entry pushes out the last one
  when the cache is full.
\<close>

definition touch :: "int \<Rightarrow> (int \<times> int) list \<Rightarrow> (int \<times> int) list" where
  "touch k xs = (case map_of xs k of None \<Rightarrow> xs | Some v \<Rightarrow> (k, v) # AList.delete k xs)"

definition put_entry :: "nat \<Rightarrow> int \<Rightarrow> int \<Rightarrow> (int \<times> int) list \<Rightarrow> (int \<times> int) list" where
  "put_entry cap k v xs =
     (if k \<in> fst ` set xs then touch k xs
      else (k, v) # (if cap \<le> length xs then butlast xs else xs))"

lemma held_at:
  assumes "held s (as @ a # bs)"
  obtains n where "nodes s a = Some n" "node_entry (nodes s) a = Some (key n, val n)" "key_of (nodes s) a = key n"
proof -
  have "nodes s a \<noteq> None" using assms by (auto simp: held_def chain_def split: option.splits)
  then show ?thesis using that by (auto simp: key_of_def node_entry_def)
qed

lemma move_to_front:
  assumes h: "held s (as @ a # bs)"
  shows "\<exists>s'. bindE (DeleteNode (Some a) s) (InsertHead (Some a)) = Inr s' \<and> held s' (a # as @ bs) \<and> same_data s s'"
proof -
  obtain n where n: "node_entry (nodes s) a = Some n" using held_at[OF h] by metis
  obtain s1 where s1: "DeleteNode (Some a) s = Inr s1" "chain s1 (as @ bs)" "same_data s s1"
    using DeleteNode_chain h unfolding held_def by blast
  have "node_entry (nodes s1) a \<noteq> None" using n s1(3) by (simp add: same_data_def)
  then obtain m where m: "nodes s1 a = Some m" by (auto simp: node_entry_None_iff)
  have "a \<notin> set (as @ bs)" using h by (simp add: held_def chain_def)
  then obtain s' where s': "InsertHead (Some a) s1 = Inr s'" "chain s' (a # as @ bs)" "same_data s1 s'"
    using InsertHead_chain[OF s1(2) _ m] by blast
  have "same_data s s'" using s1(3) s'(3) by (simp add: same_data_def)
  then show ?thesis using held_same[OF h s'(2)] s1(1) s'(1) by simp
qed

lemma touch_contents:
  assumes h: "held s (as @ a # bs)" and h': "held s' (a # as @ bs)" and same: "same_data s s'"
  shows "contents s' = touch (key_of (nodes s) a) (contents s)"
    and "map_of (contents s) (key_of (nodes s) a) = Some (snd (the (node_entry (nodes s) a)))"
proof -
  let ?e = "\<lambda>a. the (node_entry (nodes s) a)"
  have ch: "chain s (as @ a # bs)" "chain s' (a # as @ bs)" using h h' by (simp_all add: held_def)
  have c: "contents s = map ?e as @ (key_of (nodes s) a, snd (?e a)) # map ?e bs"
    using contents_chain[OF ch(1)] by (simp add: key_of_def)
  have "distinct (map fst (contents s))" using keys_contents[OF ch(1)] h by (simp add: held_def)
  note d = this[unfolded c]
  show m: "map_of (contents s) (key_of (nodes s) a) = Some (snd (?e a))"
    unfolding c using d by (intro map_of_is_SomeI) auto
  have "contents s' = (key_of (nodes s) a, snd (?e a)) # map ?e as @ map ?e bs"
    using contents_chain[OF ch(2)] same by (simp add: same_data_def key_of_def)
  then show "contents s' = touch (key_of (nodes s) a) (contents s)"
    using m alist_delete_front[OF d] by (simp add: touch_def c)
qed

lemma held_lookup:
  assumes h: "held s ps"
  shows "map_of (cache_mp s) k = None \<longleftrightarrow> k \<notin> fst ` set (contents s)"
proof -
  have "fst ` set (contents s) = key_of (nodes s) ` set ps"
    using keys_contents[of s ps] h by (metis held_def list.set_map)
  moreover have "map_of (cache_mp s) k = None \<longleftrightarrow> (\<forall>a. map_of (cache_mp s) k \<noteq> Some a)" by auto
  ultimately show ?thesis using held_map_of[OF h, of k] by auto
qed

lemma held_hit:
  assumes h: "held s ps" and a: "map_of (cache_mp s) k = Some a"
  obtains as bs where "ps = as @ a # bs" "key_of (nodes s) a = k"
  using held_map_of[OF h, of k a] a split_list[of a ps] by blast

lemma get_miss: "held s ps \<Longrightarrow> k \<notin> fst ` set (contents s) \<Longrightarrow> get k s = Inr (- 1, s)"
  using held_lookup[of s ps k] by (simp add: get_def)

lemma hit:
  assumes h: "held s ps" and a: "map_of (cache_mp s) k = Some a"
  obtains v s' qs where "bindE (DeleteNode (Some a) s) (InsertHead (Some a)) = Inr s'" "held s' qs"
    "length qs = length ps" "lru_capacity s' = lru_capacity s" "contents s' = touch k (contents s)"
    "map_of (contents s) k = Some v" "node_entry (nodes s') a = Some (k, v)"
proof -
  obtain as bs where ps: "ps = as @ a # bs" and k: "key_of (nodes s) a = k" using held_hit[OF h a] .
  obtain s' where s': "bindE (DeleteNode (Some a) s) (InsertHead (Some a)) = Inr s'"
    "held s' (a # as @ bs)" "same_data s s'"
    using move_to_front h ps by blast
  obtain n :: list_node where n: "node_entry (nodes s) a = Some (key n, val n)" "key_of (nodes s) a = key n"
    by (rule held_at[OF h[unfolded ps]])
  show thesis
    using that[OF s'(1,2), of "val n"] ps s'(3) touch_contents[OF h[unfolded ps] s'(2,3)] n k
    by (simp add: same_data_def)
qed

lemma get_hit:
  assumes h: "held s ps" and k: "k \<in> fst ` set (contents s)"
  obtains v s' qs where "get k s = Inr (v, s')" "held s' qs" "length qs = length ps"
    "lru_capacity s' = lru_capacity s" "contents s' = touch k (contents s)" "map_of (contents s) k = Some v"
proof -
  obtain a where a: "map_of (cache_mp s) k = Some a" using held_lookup[OF h, of k] k by auto
  obtain v s' qs where s': "bindE (DeleteNode (Some a) s) (InsertHead (Some a)) = Inr s'" "held s' qs"
    "length qs = length ps" "lru_capacity s' = lru_capacity s" "contents s' = touch k (contents s)"
    "map_of (contents s) k = Some v" "node_entry (nodes s') a = Some (k, v)"
    using hit[OF h a] .
  then obtain n where n: "nodes s' a = Some n" "val n = v" by (auto simp: node_entry_def)
  obtain s1 where "DeleteNode (Some a) s = Inr s1" "InsertHead (Some a) s1 = Inr s'"
    using s'(1) by (auto simp: bindE_Inr_iff)
  then have "get k s = Inr (v, s')" using n a by (simp add: get_def deref_Some)
  then show thesis using that s' by blast
qed

text \<open>A node whose key is new goes in front of the others, and into the map.\<close>

lemma insert_new:
  assumes ch: "chain s ps" and a: "a \<notin> set ps" "node_entry (nodes s) a = Some (k, v)"
    and dm: "dom (node_entry (nodes s)) = insert a (set ps)" and d: "distinct (map (key_of (nodes s)) ps)"
    and mp: "mset (cache_mp s) = mset (map (\<lambda>a. (key_of (nodes s) a, a)) ps)"
    and k: "k \<notin> key_of (nodes s) ` set ps"
  shows "\<exists>s1. InsertHead (Some a) s = Inr s1 \<and> held (s1\<lparr>cache_mp := AList.update k a (cache_mp s1)\<rparr>) (a # ps) \<and>
     contents s1 = (k, v) # contents s \<and> lru_capacity s1 = lru_capacity s"
proof -
  obtain m where "nodes s a = Some m" using a(2) by (auto simp: node_entry_def)
  then obtain s1 where s1: "InsertHead (Some a) s = Inr s1" "chain s1 (a # ps)" "same_data s s1"
    using InsertHead_chain[OF ch a(1)] by blast
  have "set (cache_mp s) = set (map (\<lambda>a. (key_of (nodes s) a, a)) ps)" using mp by (rule mset_eq_setD)
  then have "k \<notin> fst ` set (cache_mp s)" using k by auto
  then have "AList.update k a (cache_mp s) = cache_mp s @ [(k, a)]" by (rule alist_update_new)
  moreover have "key_of (nodes s) a = k" using a(2) by (simp add: key_of_def)
  moreover have "key_of (nodes s1) = key_of (nodes s)" using s1(3) by (simp add: same_data_def key_of_def[abs_def])
  ultimately have "held (s1\<lparr>cache_mp := AList.update k a (cache_mp s1)\<rparr>) (a # ps)"
    using s1(2,3) dm d k mp by (simp add: held_def same_data_def chain_def)
  moreover have "contents s1 = (k, v) # contents s"
    using contents_chain[OF s1(2)] contents_chain[OF ch] s1(3) a(2) by (simp add: same_data_def)
  ultimately show ?thesis using s1 by (simp add: same_data_def)
qed

lemma contents_mp [simp]: "contents (s\<lparr>cache_mp := m\<rparr>) = contents s"
  by (simp add: contents_def)

lemma key_of_upd: "b \<noteq> a \<Longrightarrow> key_of (h(a \<mapsto> n)) b = key_of h b"
  by (simp add: key_of_def node_entry_def)

text \<open>Room in the cache: a node is allocated.\<close>

lemma put_room:
  assumes h: "held s ps" and k: "k \<notin> fst ` set (contents s)" and room: "int (length ps) < lru_capacity s mod 2 ^ 64"
    and al: "alloc (nodes s) = Some a" "nodes s a = None"
  shows "\<exists>s'. put alloc k v s = Inr s' \<and> held s' (a # ps) \<and> contents s' = (k, v) # contents s \<and>
     lru_capacity s' = lru_capacity s"
proof -
  let ?s = "s\<lparr>nodes := (nodes s)(a \<mapsto> new_node k v)\<rparr>"
  have ch: "chain s ps" using h by (simp add: held_def)
  have a: "a \<notin> set ps" using ch al(2) by (auto simp: chain_def dest: linked_dom)
  have keys: "key_of (nodes ?s) b = key_of (nodes s) b" if "b \<in> set ps" for b
  proof -
    have "b \<noteq> a" using a that by blast
    then show ?thesis by (simp add: key_of_upd)
  qed
  have ch': "chain ?s ps" using ch a by (simp add: chain_def)
  have cont: "contents ?s = contents s"
    using a by (simp add: contents_chain[OF ch] contents_chain[OF ch']) (auto simp: node_entry_def)
  have k': "k \<notin> key_of (nodes s) ` set ps" using k keys_contents[OF ch] by (metis list.set_map)
  have "\<exists>s1. InsertHead (Some a) ?s = Inr s1 \<and> held (s1\<lparr>cache_mp := AList.update k a (cache_mp s1)\<rparr>) (a # ps) \<and>
     contents s1 = (k, v) # contents ?s \<and> lru_capacity s1 = lru_capacity ?s"
  proof (rule insert_new[OF ch' a])
    show "node_entry (nodes ?s) a = Some (k, v)" by (simp add: node_entry_def new_node_def)
    have "dom (node_entry (nodes ?s)) = insert a (dom (node_entry (nodes s)))" by (auto simp: dom_def node_entry_def)
    then show "dom (node_entry (nodes ?s)) = insert a (set ps)" using h by (simp add: held_def)
    show "distinct (map (key_of (nodes ?s)) ps)" using h keys by (simp add: held_def cong: map_cong)
    show "mset (cache_mp ?s) = mset (map (\<lambda>a. (key_of (nodes ?s) a, a)) ps)"
      using h keys by (simp add: held_def cong: map_cong)
    show "k \<notin> key_of (nodes ?s) ` set ps" using k' keys by (metis image_cong)
  qed
  moreover have "map_of (cache_mp s) k = None" using held_lookup[OF h] k by simp
  moreover have "\<not> lru_capacity s mod 2 ^ 64 \<le> int (length (cache_mp s))" using room held_length[OF h] by simp
  ultimately show ?thesis using al(1) cont by (auto simp: put_def Let_def)
qed

text \<open>A full cache: the last node is taken off the list and out of the map, and used again.\<close>

lemma evict:
  assumes h: "held s (as @ [a])" and n: "nodes s a = Some n"
  defines "s1 \<equiv> s\<lparr>cache_mp := AList.delete (key n) (cache_mp s)\<rparr>"
  obtains s2 m where "DeleteNode (Some a) s1 = Inr s2" "chain s2 as" "nodes s2 a = Some m"
    "node_entry (nodes s2) = node_entry (nodes s)" "lru_capacity s2 = lru_capacity s"
    "mset (cache_mp s2) = mset (map (\<lambda>a. (key_of (nodes s) a, a)) as)"
proof -
  have ch: "chain s1 (as @ a # [])" using h by (simp add: held_def chain_def s1_def)
  obtain s2 where s2: "DeleteNode (Some a) s1 = Inr s2" "chain s2 (as @ [])" "same_data s1 s2"
    using DeleteNode_chain[OF ch] by blast
  then have e: "node_entry (nodes s2) = node_entry (nodes s)" and mp: "cache_mp s2 = AList.delete (key n) (cache_mp s)"
    by (simp_all add: same_data_def s1_def)
  have "nodes s2 a \<noteq> None" using node_entry_None_iff[of "nodes s2" a] n e by (simp add: node_entry_def)
  then obtain m where m: "nodes s2 a = Some m" by blast
  have key: "key_of (nodes s) a = key n" using n by (simp add: key_of_def node_entry_def)
  have "mset (cache_mp s2) = mset (map (\<lambda>a. (key_of (nodes s) a, a)) as)"
    unfolding mp
  proof (rule mset_delete_key)
    show "mset (cache_mp s) = add_mset (key n, a) (mset (map (\<lambda>a. (key_of (nodes s) a, a)) as))"
      using h key by (simp add: held_def)
    show "key n \<notin> fst ` set (map (\<lambda>a. (key_of (nodes s) a, a)) as)"
      using h key by (auto simp: held_def)
  qed
  then show thesis using that[OF s2(1) _ m e] s2(2,3) by (simp add: same_data_def s1_def)
qed

lemma put_full:
  assumes h: "held s (as @ [a])" and k: "k \<notin> fst ` set (contents s)"
    and full: "lru_capacity s mod 2 ^ 64 \<le> int (length (as @ [a]))"
  shows "\<exists>s'. put alloc k v s = Inr s' \<and> held s' (a # as) \<and> contents s' = (k, v) # butlast (contents s) \<and>
     lru_capacity s' = lru_capacity s"
proof -
  obtain n where n: "nodes s a = Some n" using held_at[OF h] by blast
  let ?s1 = "s\<lparr>cache_mp := AList.delete (key n) (cache_mp s)\<rparr>"
  have ch: "chain s (as @ [a])" using h by (simp add: held_def)
  obtain s2 m where s2: "DeleteNode (Some a) ?s1 = Inr s2" "chain s2 as" and m: "nodes s2 a = Some m"
    and e: "node_entry (nodes s2) = node_entry (nodes s)" and cap: "lru_capacity s2 = lru_capacity s"
    and mp: "mset (cache_mp s2) = mset (map (\<lambda>a. (key_of (nodes s) a, a)) as)"
    by (rule evict[OF h n])
  let ?s4 = "s2\<lparr>nodes := (nodes s2)(a \<mapsto> m\<lparr>key := k, val := v\<rparr>)\<rparr>"
  have a: "a \<notin> set as" using ch by (simp add: chain_def)
  have es: "node_entry (nodes ?s4) b = node_entry (nodes s) b" if "b \<in> set as" for b
    using a that fun_cong[OF e, of b] by (auto simp: node_entry_def)
  then have keys: "key_of (nodes ?s4) b = key_of (nodes s) b" if "b \<in> set as" for b
    using that by (simp add: key_of_def)
  have ch': "chain ?s4 as" using s2(2) a by (simp add: chain_def)
  have k': "k \<notin> key_of (nodes s) ` set as" using k keys_contents[OF ch] by (metis UnCI image_Un list.set_map set_append)
  have cont: "contents ?s4 = butlast (contents s)"
    unfolding contents_chain[OF ch'] contents_chain[OF ch] map_append using es by simp
  have "\<exists>s1. InsertHead (Some a) ?s4 = Inr s1 \<and> held (s1\<lparr>cache_mp := AList.update k a (cache_mp s1)\<rparr>) (a # as) \<and>
     contents s1 = (k, v) # contents ?s4 \<and> lru_capacity s1 = lru_capacity ?s4"
  proof (rule insert_new[OF ch' a])
    show "node_entry (nodes ?s4) a = Some (k, v)" by (simp add: node_entry_def)
    have "dom (node_entry (nodes ?s4)) = insert a (dom (node_entry (nodes s2)))" by (auto simp: dom_def node_entry_def)
    then show "dom (node_entry (nodes ?s4)) = insert a (set as)" using h e by (auto simp: held_def)
    show "distinct (map (key_of (nodes ?s4)) as)" using h keys by (simp add: held_def cong: map_cong)
    show "mset (cache_mp ?s4) = mset (map (\<lambda>a. (key_of (nodes ?s4) a, a)) as)"
      using mp keys by (simp cong: map_cong)
    show "k \<notin> key_of (nodes ?s4) ` set as" using k' keys by (metis image_cong)
  qed
  moreover have "map_of (cache_mp s) k = None" using held_lookup[OF h] k by simp
  moreover have "lru_capacity s mod 2 ^ 64 \<le> int (length (cache_mp s))" using full held_length[OF h] by simp
  moreover have "lru_tail s = Some a" using ch by (simp add: chain_def)
  ultimately show ?thesis
    using n s2(1) m cont cap by (auto simp: put_def Let_def deref_Some assign_Some)
qed

subsection \<open>The cache implements its specification\<close>

text \<open>
  \<open>new\<close> never returns an address in use, and it finds one as long as fewer than \<open>cap\<close> nodes are
  allocated.
\<close>

definition allocator :: "nat \<Rightarrow> (heap \<Rightarrow> nat option) \<Rightarrow> bool" where
  "allocator cap alloc \<longleftrightarrow> (\<forall>h a. alloc h = Some a \<longrightarrow> h a = None) \<and>
     (\<forall>h. finite (dom h) \<and> card (dom h) < cap \<longrightarrow> alloc h \<noteq> None)"

definition lru_inv :: "nat \<Rightarrow> lru_cache \<Rightarrow> bool" where
  "lru_inv cap s \<longleftrightarrow> (\<exists>ps. held s ps \<and> length ps \<le> cap \<and> 0 < cap \<and> lru_capacity s mod 2 ^ 64 = int cap)"

definition lru_spec :: "nat \<Rightarrow> lru_op \<Rightarrow> (int \<times> int) list \<times> string \<Rightarrow> (int \<times> int) list \<times> string" where
  "lru_spec cap op xo =
     (let (xs, out) = xo in
      case op of
        Get k \<Rightarrow> (touch k xs, out @ print_i64 (case map_of xs k of None \<Rightarrow> - 1 | Some v \<Rightarrow> v) @ endl)
      | Put k v \<Rightarrow> (put_entry cap k v xs, out)
      | Show \<Rightarrow> (xs, out @ ''LRU:'' @ concat (map show_entry xs) @ endl))"

definition client_view :: "client \<Rightarrow> (int \<times> int) list \<times> string" where
  "client_view c = (contents (lru c), shown c)"

lemma lru_invI:
  "held s ps \<Longrightarrow> length ps \<le> cap \<Longrightarrow> 0 < cap \<Longrightarrow> lru_capacity s mod 2 ^ 64 = int cap \<Longrightarrow> lru_inv cap s"
  unfolding lru_inv_def by blast

lemma get_spec:
  assumes "lru_inv cap s"
  obtains v s' where "get k s = Inr (v, s')" "lru_inv cap s'" "contents s' = touch k (contents s)"
    "v = (case map_of (contents s) k of None \<Rightarrow> - 1 | Some v \<Rightarrow> v)"
proof -
  obtain ps where ps: "held s ps" "length ps \<le> cap" "0 < cap" "lru_capacity s mod 2 ^ 64 = int cap"
    using assms by (auto simp: lru_inv_def)
  show thesis
  proof (cases "k \<in> fst ` set (contents s)")
    case True
    then obtain v s' qs where "get k s = Inr (v, s')" "held s' qs" "length qs = length ps"
      "lru_capacity s' = lru_capacity s" "contents s' = touch k (contents s)" "map_of (contents s) k = Some v"
      using get_hit[OF ps(1)] by metis
    moreover from this have "lru_inv cap s'" using lru_invI[of s' qs cap] ps by simp
    ultimately show thesis using that by simp
  next
    case False
    then have "map_of (contents s) k = None" by (simp add: map_of_eq_None_iff)
    then show thesis using that[of "- 1" s] get_miss[OF ps(1) False] assms by (simp add: touch_def)
  qed
qed

lemma put_spec:
  assumes "lru_inv cap s" and al: "allocator cap alloc"
  obtains s' where "put alloc k v s = Inr s'" "lru_inv cap s'" "contents s' = put_entry cap k v (contents s)"
proof -
  obtain ps where ps: "held s ps" "length ps \<le> cap" "0 < cap" "lru_capacity s mod 2 ^ 64 = int cap"
    using assms by (auto simp: lru_inv_def)
  have ch: "chain s ps" and dm: "dom (nodes s) = set ps"
    using ps(1) by (auto simp: held_def dom_def node_entry_def)
  have len: "length (contents s) = length ps" using contents_chain[OF ch] by simp
  show thesis
  proof (cases "map_of (cache_mp s) k")
    case (Some a)
    then obtain v' s' qs where "bindE (DeleteNode (Some a) s) (InsertHead (Some a)) = Inr s'" "held s' qs"
      "length qs = length ps" "lru_capacity s' = lru_capacity s" "contents s' = touch k (contents s)"
      using hit[OF ps(1)] by metis
    moreover have "k \<in> fst ` set (contents s)" using held_lookup[OF ps(1), of k] Some by auto
    ultimately show thesis using that[of s'] lru_invI[of s' qs cap] ps Some by (simp add: put_def put_entry_def)
  next
    case None
    then have k: "k \<notin> fst ` set (contents s)" using held_lookup[OF ps(1)] by simp
    show thesis
    proof (cases "length ps < cap")
      case True
      then obtain a where a: "alloc (nodes s) = Some a"
        using al dm ps(2) card_length[of ps] by (fastforce simp: allocator_def)
      then have "nodes s a = None" using al by (simp add: allocator_def)
      then obtain s' where "put alloc k v s = Inr s'" "held s' (a # ps)" "contents s' = (k, v) # contents s"
        "lru_capacity s' = lru_capacity s"
        using put_room[of s ps k alloc a v] k a ps(1,4) True by auto
      then show thesis using that[of s'] k len True ps lru_invI[of s' "a # ps" cap] by (simp add: put_entry_def)
    next
      case False
      then have "ps \<noteq> []" "length ps = cap" using ps(2,3) by auto
      then obtain as a where q: "ps = as @ [a]" by (cases ps rule: rev_cases) auto
      then obtain s' where "put alloc k v s = Inr s'" "held s' (a # as)" "contents s' = (k, v) # butlast (contents s)"
        "lru_capacity s' = lru_capacity s"
        using put_full[of s as a k alloc v] k ps(1,4) \<open>length ps = cap\<close> by auto
      then show thesis
        using that[of s'] k len \<open>length ps = cap\<close> ps q lru_invI[of s' "a # as" cap] by (simp add: put_entry_def)
    qed
  qed
qed

lemma show_spec: "lru_inv cap s \<Longrightarrow> showLRU s = Some (''LRU:'' @ concat (map show_entry (contents s)) @ endl)"
  using showLRU_chain by (auto simp: lru_inv_def held_def)

lemma lru_step_spec:
  assumes inv: "lru_inv cap (lru c)" and al: "allocator cap alloc"
  shows "\<exists>c'. lru_step alloc op c = Inr c' \<and> lru_inv cap (lru c') \<and> client_view c' = lru_spec cap op (client_view c)"
proof (cases op)
  case (Get k)
  obtain v s' where "get k (lru c) = Inr (v, s')" "lru_inv cap s'" "contents s' = touch k (contents (lru c))"
    "v = (case map_of (contents (lru c)) k of None \<Rightarrow> - 1 | Some v \<Rightarrow> v)"
    using get_spec[OF inv] by metis
  then show ?thesis using Get by (simp add: lru_step_def client_view_def lru_spec_def)
next
  case (Put k v)
  obtain s' where "put alloc k v (lru c) = Inr s'" "lru_inv cap s'" "contents s' = put_entry cap k v (contents (lru c))"
    using put_spec[OF inv al] by metis
  then show ?thesis using Put by (simp add: lru_step_def client_view_def lru_spec_def)
next
  case Show
  then show ?thesis using show_spec[OF inv] inv by (simp add: lru_step_def client_view_def lru_spec_def)
qed

interpretation lru_ops: refining_ops "lru_step alloc" "\<lambda>c. lru_inv cap (lru c) \<and> allocator cap alloc"
  "\<lambda>_ _. True" "\<lambda>_. False" client_view "lru_spec cap"
proof unfold_locales
  fix c :: client and op
  assume "lru_inv cap (lru c) \<and> allocator cap alloc"
  then show "outcome (\<lambda>_. False) (\<lambda>c'. (lru_inv cap (lru c') \<and> allocator cap alloc) \<and> True) (lru_step alloc op c)"
    using lru_step_spec[of cap c alloc op] by auto
next
  fix c c' :: client and op
  assume "lru_inv cap (lru c) \<and> allocator cap alloc" "lru_step alloc op c = Inr c'"
  then show "client_view c' = lru_spec cap op (client_view c)"
    using lru_step_spec[of cap c alloc op] by auto
qed simp_all

subsection \<open>Properties\<close>

lemma LRUCache_inv:
  assumes "in_i32 capacity" "capacity \<noteq> 0"
  shows "lru_inv (nat (capacity mod 2 ^ 64)) (LRUCache capacity)"
proof -
  have "capacity mod 2 ^ 64 \<noteq> 0"
    using assms zmod_eq_0_iff[of capacity "2 ^ 64"] by (auto simp: in_i32_def)
  then have "0 < capacity mod 2 ^ 64" using pos_mod_sign[of "2 ^ 64" capacity] by simp
  moreover have "held (LRUCache capacity) []"
    by (simp add: held_def chain_def LRUCache_def dom_def node_entry_def)
  ultimately show ?thesis by (intro lru_invI[of _ "[]"]) (simp_all add: LRUCache_def)
qed

lemma contents_new [simp]: "contents (LRUCache capacity) = []"
  by (simp add: contents_def LRUCache_def walk.simps)

lemma lru_inv_keys: "lru_inv cap s \<Longrightarrow> distinct (map fst (contents s)) \<and> length (contents s) \<le> cap"
  using keys_contents contents_chain by (fastforce simp: lru_inv_def held_def)

lemma lru_run:
  assumes "in_i32 capacity" "capacity \<noteq> 0" "allocator (nat (capacity mod 2 ^ 64)) alloc"
  obtains c where "steps (lru_step alloc) ops \<lparr>lru = LRUCache capacity, shown = []\<rparr> = Inr c"
    "client_view c = fold (lru_spec (nat (capacity mod 2 ^ 64))) ops ([], [])"
    "lru_inv (nat (capacity mod 2 ^ 64)) (lru c)"
proof -
  let ?c = "\<lparr>lru = LRUCache capacity, shown = []\<rparr>" and ?cap = "nat (capacity mod 2 ^ 64)"
  have inv: "lru_inv ?cap (lru ?c) \<and> allocator ?cap alloc" using LRUCache_inv assms by simp
  obtain c where c: "steps (lru_step alloc) ops ?c = Inr c"
    using lru_ops.steps_safe[OF inv, of ops] by (cases "steps (lru_step alloc) ops ?c") auto
  then show thesis
    using that lru_ops.steps_abs[OF inv c] lru_ops.steps_inv[OF inv c] by (simp add: client_view_def)
qed

text \<open>
  The cache that the comment at the head of the file describes: a \<open>put\<close> of a key that is held changes
  its value too. \<open>overwrites\<close> holds for a \<open>put\<close> that gives a key that is held a value that differs.
\<close>

definition put_intended :: "nat \<Rightarrow> int \<Rightarrow> int \<Rightarrow> (int \<times> int) list \<Rightarrow> (int \<times> int) list" where
  "put_intended cap k v xs =
     (k, v) # (if k \<in> fst ` set xs then AList.delete k xs else if cap \<le> length xs then butlast xs else xs)"

definition lru_intended :: "nat \<Rightarrow> lru_op \<Rightarrow> (int \<times> int) list \<times> string \<Rightarrow> (int \<times> int) list \<times> string" where
  "lru_intended cap op xo =
     (case op of Put k v \<Rightarrow> (put_intended cap k v (fst xo), snd xo) | _ \<Rightarrow> lru_spec cap op xo)"

definition overwrites :: "lru_op \<Rightarrow> (int \<times> int) list \<Rightarrow> bool" where
  "overwrites op xs = (case op of Put k v \<Rightarrow> map_of xs k \<noteq> None \<and> map_of xs k \<noteq> Some v | _ \<Rightarrow> False)"

fun run_overwrites :: "nat \<Rightarrow> lru_op list \<Rightarrow> (int \<times> int) list \<times> string \<Rightarrow> bool" where
  "run_overwrites cap [] xo = False"
| "run_overwrites cap (op # ops) xo =
     (overwrites op (fst xo) \<or> run_overwrites cap ops (lru_intended cap op xo))"

lemma keys_delete [simp]: "map fst (AList.delete k xs) = filter (\<lambda>j. j \<noteq> k) (map fst xs)"
  by (induction xs) auto

lemma keys_touch [simp]:
  "map fst (touch k xs) = (if k \<in> set (map fst xs) then k # filter (\<lambda>j. j \<noteq> k) (map fst xs) else map fst xs)"
  by (auto simp: touch_def map_of_eq_None_iff dest: map_of_SomeD split: option.split) (force dest: map_of_SomeD)+

lemma keys_put_entry:
  "map fst (put_entry cap k v xs) =
     k # (if k \<in> set (map fst xs) then filter (\<lambda>j. j \<noteq> k) (map fst xs)
          else if cap \<le> length (map fst xs) then butlast (map fst xs) else map fst xs)"
  by (simp add: put_entry_def map_butlast)

lemma keys_put_intended: "map fst (put_intended cap k v xs) = map fst (put_entry cap k v xs)"
  by (simp add: put_intended_def keys_put_entry map_butlast)

lemma intended_keys:
  "map fst (fst xo) = map fst (fst yo) \<Longrightarrow>
     map fst (fst (fold (lru_spec cap) ops xo)) = map fst (fst (fold (lru_intended cap) ops yo))"
proof (induction ops arbitrary: xo yo)
  case (Cons op ops)
  have "map fst (fst (lru_spec cap op xo)) = map fst (fst (lru_intended cap op yo))"
    using Cons.prems
    by (cases op) (simp_all add: lru_spec_def lru_intended_def keys_put_intended keys_put_entry split_beta)
  then show ?case using Cons.IH by simp
qed simp

lemma intended_same: "\<not> overwrites op (fst xo) \<Longrightarrow> lru_spec cap op xo = lru_intended cap op xo"
  by (cases op)
    (auto simp: lru_spec_def lru_intended_def overwrites_def put_entry_def put_intended_def touch_def
       split_beta map_of_eq_None_iff split: option.splits)

lemma intended_run: "\<not> run_overwrites cap ops xo \<Longrightarrow> fold (lru_spec cap) ops xo = fold (lru_intended cap) ops xo"
  by (induction ops arbitrary: xo) (simp_all add: intended_same)

text \<open>C5: take any \<open>capacity\<close> but 0, an allocator that finds room for that many nodes, and any sequence of
  \<open>get\<close>, \<open>put\<close> and \<open>showLRU\<close>. The calls do not fault; the keys held, most recently used first, are those of
  the LRU cache the code's comment describes; and as long as no \<open>put\<close> gives a key that is held another
  value, the values held and all that is printed are those of that cache too. (A \<open>put\<close> of a key that is
  held moves it to the front and keeps its old value, which is not what the comment says: values held
  and lines printed are those of \<open>lru_spec\<close> in every case.) No key occurs twice, and the capacity is
  kept. The destructor is not among the calls.\<close>

theorem lru_refines_list:
  assumes "in_i32 capacity" "capacity \<noteq> 0" "allocator (nat (capacity mod 2 ^ 64)) alloc"
  shows "\<exists>c. steps (lru_step alloc) ops \<lparr>lru = LRUCache capacity, shown = []\<rparr> = Inr c \<and>
     map fst (contents (lru c)) =
       map fst (fst (fold (lru_intended (nat (capacity mod 2 ^ 64))) ops ([], []))) \<and>
     (\<not> run_overwrites (nat (capacity mod 2 ^ 64)) ops ([], []) \<longrightarrow>
       (contents (lru c), shown c) = fold (lru_intended (nat (capacity mod 2 ^ 64))) ops ([], [])) \<and>
     (contents (lru c), shown c) = fold (lru_spec (nat (capacity mod 2 ^ 64))) ops ([], []) \<and>
     distinct (map fst (contents (lru c))) \<and> length (contents (lru c)) \<le> nat (capacity mod 2 ^ 64)"
proof -
  let ?cap = "nat (capacity mod 2 ^ 64)"
  obtain c where c: "steps (lru_step alloc) ops \<lparr>lru = LRUCache capacity, shown = []\<rparr> = Inr c"
    "(contents (lru c), shown c) = fold (lru_spec ?cap) ops ([], [])" "lru_inv ?cap (lru c)"
    using lru_run[OF assms] by (metis client_view_def)
  have "map fst (contents (lru c)) = map fst (fst (fold (lru_intended ?cap) ops ([], [])))"
    using intended_keys[of "([], [])" "([], [])" ?cap ops] c(2) by (metis fst_conv)
  then show ?thesis using c lru_inv_keys[OF c(3)] intended_run[of ?cap ops "([], [])"] by auto
qed

text \<open>An allocator for small caches, and the run of the program.\<close>

definition two_nodes :: "heap \<Rightarrow> nat option" where
  "two_nodes h = (if h 0 = None then Some 0 else if h 1 = None then Some 1 else None)"

lemma two_nodes_ok: "allocator 2 two_nodes"
proof -
  have "\<not> card (dom h) < 2" if "finite (dom h)" "h 0 \<noteq> None" "h 1 \<noteq> None" for h :: heap
    using card_mono[OF that(1), of "{0, 1}"] that by (auto simp: domIff)
  then show ?thesis unfolding allocator_def two_nodes_def by (metis option.distinct(1) option.inject)
qed

lemma demo_run_stable: "\<not> run_overwrites 2 [Put 1 1, Put 2 2, Put 1 1, Get 1, Put 3 3, Get 2, Show] ([], [])"
  by (simp add: overwrites_def lru_intended_def lru_spec_def put_intended_def touch_def)

theorem lru_refines_list_witness:
  "\<exists>c. steps (lru_step two_nodes) [Put 1 1, Put 2 2, Put 1 1, Get 1, Put 3 3, Get 2, Show]
       \<lparr>lru = LRUCache 2, shown = []\<rparr> = Inr c \<and>
     (contents (lru c), shown c) =
       fold (lru_intended 2) [Put 1 1, Put 2 2, Put 1 1, Get 1, Put 3 3, Get 2, Show] ([], []) \<and>
     contents (lru c) = [(3, 3), (1, 1)] \<and> shown c = ''1'' @ endl @ ''-1'' @ endl @ ''LRU:[3,3],[1,1],'' @ endl"
  using lru_refines_list[of 2 two_nodes "[Put 1 1, Put 2 2, Put 1 1, Get 1, Put 3 3, Get 2, Show]"]
    two_nodes_ok demo_run_stable
  by (auto simp: in_i32_def lru_spec_def put_entry_def touch_def print_i64_def digits_of.simps show_entry_def)

text \<open>C36: a \<open>put\<close> of a key that is in the cache does not store the new value: the next \<open>get\<close> of the
  key returns the old one.\<close>

theorem put_keeps_old_value:
  assumes "in_i32 capacity" "capacity \<noteq> 0" "allocator (nat (capacity mod 2 ^ 64)) alloc"
    and "steps (lru_step alloc) ops \<lparr>lru = LRUCache capacity, shown = []\<rparr> = Inr c"
    and "map_of (contents (lru c)) k = Some old"
  shows "\<exists>s s'. put alloc k new (lru c) = Inr s \<and> get k s = Inr (old, s') \<and> map_of (contents s') k = Some old"
proof -
  let ?cap = "nat (capacity mod 2 ^ 64)"
  have inv: "lru_inv ?cap (lru c)" using lru_run[OF assms(1-3), of ops] assms(4) by force
  obtain s where s: "put alloc k new (lru c) = Inr s" "lru_inv ?cap s"
    "contents s = put_entry ?cap k new (contents (lru c))"
    using put_spec[OF inv assms(3)] by metis
  have "k \<in> fst ` set (contents (lru c))" using assms(5) by (metis map_of_eq_None_iff option.distinct(1))
  then have "map_of (contents s) k = Some old" using s(3) assms(5) by (simp add: put_entry_def touch_def)
  moreover obtain v s' where "get k s = Inr (v, s')" "contents s' = touch k (contents s)"
    "v = (case map_of (contents s) k of None \<Rightarrow> - 1 | Some v \<Rightarrow> v)"
    using get_spec[OF s(2)] by metis
  ultimately show ?thesis using s(1) by (simp add: touch_def)
qed

theorem put_keeps_old_value_witness:
  "\<exists>c s s'. steps (lru_step two_nodes) [Put 1 10] \<lparr>lru = LRUCache 2, shown = []\<rparr> = Inr c \<and>
     put two_nodes 1 20 (lru c) = Inr s \<and> get 1 s = Inr (10, s')"
proof -
  obtain c where c: "steps (lru_step two_nodes) [Put 1 10] \<lparr>lru = LRUCache 2, shown = []\<rparr> = Inr c"
    "client_view c = fold (lru_spec 2) [Put 1 10] ([], [])"
    using lru_run[of 2 two_nodes "[Put 1 10]"] two_nodes_ok by (auto simp: in_i32_def)
  then have "map_of (contents (lru c)) 1 = Some 10" by (simp add: client_view_def lru_spec_def put_entry_def)
  then show ?thesis
    using put_keeps_old_value[of 2 two_nodes "[Put 1 10]" c 1 10 20] c(1) two_nodes_ok by (auto simp: in_i32_def)
qed

lemma lru_faults_inv:
  assumes "lru_inv cap s" "contents s \<noteq> []"
  shows "destroy_cache s = Inl UseAfterFree"
proof -
  obtain ps where ch: "chain s ps" using assms(1) by (auto simp: lru_inv_def held_def)
  then obtain a qs where ps: "ps = a # qs" using assms(2) contents_chain[OF ch] by (cases ps) auto
  then obtain n where "nodes s a = Some n" "lru_head s = Some a"
    using ch by (auto simp: chain_def split: option.splits)
  then show ?thesis by (subst destroy_cache.simps) (simp add: delete_node_def deref_node_def)
qed

text \<open>Destroying a cache that holds an entry reads a node that has just been deleted, and a cache
  of capacity zero dereferences a null pointer at its first \<open>put\<close>.\<close>

theorem lru_faults:
  assumes "in_i32 capacity" "capacity \<noteq> 0" "allocator (nat (capacity mod 2 ^ 64)) alloc"
    and "steps (lru_step alloc) ops \<lparr>lru = LRUCache capacity, shown = []\<rparr> = Inr c" "contents (lru c) \<noteq> []"
  shows "destroy_cache (lru c) = Inl UseAfterFree \<and> put alloc k v (LRUCache 0) = Inl NullDeref"
proof -
  have "lru_inv (nat (capacity mod 2 ^ 64)) (lru c)" using lru_run[OF assms(1-3), of ops] assms(4) by force
  then have "destroy_cache (lru c) = Inl UseAfterFree" using lru_faults_inv assms(5) by blast
  moreover have "put alloc k v (LRUCache 0) = Inl NullDeref"
    by (simp add: put_def LRUCache_def deref_node_def)
  ultimately show ?thesis ..
qed

theorem lru_faults_witness:
  "\<exists>c. steps (lru_step two_nodes) [Put 1 10] \<lparr>lru = LRUCache 2, shown = []\<rparr> = Inr c \<and>
     destroy_cache (lru c) = Inl UseAfterFree"
proof -
  obtain c where c: "steps (lru_step two_nodes) [Put 1 10] \<lparr>lru = LRUCache 2, shown = []\<rparr> = Inr c"
    "client_view c = fold (lru_spec 2) [Put 1 10] ([], [])"
    using lru_run[of 2 two_nodes "[Put 1 10]"] two_nodes_ok by (auto simp: in_i32_def)
  then have "contents (lru c) \<noteq> []" by (simp add: client_view_def lru_spec_def put_entry_def)
  then show ?thesis
    using lru_faults[of 2 two_nodes "[Put 1 10]" c] c(1) two_nodes_ok by (auto simp: in_i32_def)
qed

text \<open>The program ends in the fault of the destructor.\<close>

lemma lru_main_faults: "lru_main two_nodes = Inl UseAfterFree"
proof -
  let ?ops = "[Put 1 1, Show, Put 2 2, Show, Get 1, Put 3 3, Show, Get 2, Put 4 4, Show, Get 1, Get 3, Get 4]"
  obtain c where c: "steps (lru_step two_nodes) ?ops \<lparr>lru = LRUCache 2, shown = []\<rparr> = Inr c"
    "client_view c = fold (lru_spec 2) ?ops ([], [])" "lru_inv 2 (lru c)"
    using lru_run[of 2 two_nodes ?ops] two_nodes_ok by (auto simp: in_i32_def)
  have "contents (lru c) = [(4, 4), (3, 3)]"
    using arg_cong[OF c(2), of fst] by (simp add: client_view_def lru_spec_def put_entry_def touch_def)
  then have "destroy_cache (lru c) = Inl UseAfterFree"
    using lru_faults_inv[OF c(3)] by simp
  then show ?thesis using c(1) by (simp add: lru_main_def del: steps.simps)
qed

end
