(* ===== verification/Smallest_Pairs.thy ===== *)
theory Smallest_Pairs
  imports Decimal
begin

section \<open>The pairs with the smallest sums\<close>

text \<open>
  \<^verbatim>\<open>src/test/373.cc\<close>: of all pairs of an element of \<open>nums1\<close> and one of \<open>nums2\<close>, both ascending, the \<open>k\<close>
  with the smallest sums, from a priority queue of index pairs. Which of several least pairs is on top
  of a \<open>std::priority_queue\<close> is not specified: \<open>pick\<close> is an argument of the model. The queue is a list;
  its comparisons read the arrays and add, so that adding to a queue that is not empty needs every
  sum in it to be defined.
\<close>

type_synonym index_pair = "int \<times> int"

definition pair_sum :: "int list \<Rightarrow> int list \<Rightarrow> index_pair \<Rightarrow> int option" where
  "pair_sum nums1 nums2 f = do { a \<leftarrow> rd nums1 (fst f); b \<leftarrow> rd nums2 (snd f); i32 (a + b) }"

definition cmp :: "int list \<Rightarrow> int list \<Rightarrow> index_pair \<Rightarrow> index_pair \<Rightarrow> bool option" where
  "cmp nums1 nums2 f s = do { x \<leftarrow> pair_sum nums1 nums2 f; y \<leftarrow> pair_sum nums1 nums2 s; Some (x > y) }"

definition comparable :: "int list \<Rightarrow> int list \<Rightarrow> index_pair list \<Rightarrow> bool" where
  "comparable nums1 nums2 p \<longleftrightarrow> list_all (\<lambda>f. pair_sum nums1 nums2 f \<noteq> None) p"

definition emplace_pair :: "int list \<Rightarrow> int list \<Rightarrow> index_pair \<Rightarrow> index_pair list \<Rightarrow> index_pair list option" where
  "emplace_pair nums1 nums2 f p =
     (if p = [] \<or> comparable nums1 nums2 (f # p) then Some (f # p) else None)"

text \<open>What the standard library promises of \<open>top\<close>: nothing in the queue comes before it.\<close>

definition top_ok :: "int list \<Rightarrow> int list \<Rightarrow> (index_pair list \<Rightarrow> index_pair) \<Rightarrow> bool" where
  "top_ok nums1 nums2 pick \<longleftrightarrow>
     (\<forall>p. p \<noteq> [] \<and> comparable nums1 nums2 p \<longrightarrow>
        pick p \<in> set p \<and> (\<forall>q \<in> set p. cmp nums1 nums2 (pick p) q = Some False))"

function fill_rows :: "int list \<Rightarrow> int list \<Rightarrow> int \<Rightarrow> int \<Rightarrow> index_pair list \<Rightarrow> index_pair list option" where
  "fill_rows nums1 nums2 i n p =
     (if i < n then do { p \<leftarrow> emplace_pair nums1 nums2 (i, 0) p; fill_rows nums1 nums2 (i + 1) n p }
      else Some p)"
  by pat_completeness auto
termination
  by (relation "measure (\<lambda>(_, _, i, n, _). nat (n - i))") auto

function take_pairs ::
  "(index_pair list \<Rightarrow> index_pair) \<Rightarrow> int list \<Rightarrow> int list \<Rightarrow> int \<Rightarrow> int \<Rightarrow> index_pair list \<Rightarrow> int list list \<Rightarrow>
   int list list option" where
  "take_pairs pick nums1 nums2 m k p res =
     do {
       k' \<leftarrow> i32 (k - 1);
       if k > 0 \<and> p \<noteq> [] then do {
         let item = pick p;
         let p = remove1 item p;
         a \<leftarrow> rd nums1 (fst item);
         b \<leftarrow> rd nums2 (snd item);
         let res = res @ [[a, b]];
         j \<leftarrow> i32 (snd item + 1);
         p \<leftarrow> (if j < m then emplace_pair nums1 nums2 (fst item, j) p else Some p);
         take_pairs pick nums1 nums2 m k' p res
       } else Some res
     }"
  by pat_completeness auto
termination
  by (relation "measure (\<lambda>(_, _, _, _, k, _). nat k)") (auto simp: i32_Some_iff)

declare fill_rows.simps [simp del] take_pairs.simps [simp del]

text \<open>The conversion of a \<open>size_t\<close> to \<open>int\<close>.\<close>

definition to_int :: "nat \<Rightarrow> int" where
  "to_int n = (int n + 2 ^ 31) mod 2 ^ 32 - 2 ^ 31"

definition print_pairs :: "int list list \<Rightarrow> string" where
  "print_pairs res = concat (map (\<lambda>item. [CHR 0x0A] @ concat (map (\<lambda>t. print_i64 t @ '', '') item)) res) @ [CHR 0x0A]"

definition KSmallestPairs ::
  "(index_pair list \<Rightarrow> index_pair) \<Rightarrow> int list \<Rightarrow> int list \<Rightarrow> int \<Rightarrow> (string \<times> int list list) option" where
  "KSmallestPairs pick nums1 nums2 k =
     (let n = to_int (length nums1); m = to_int (length nums2)
      in do {
        p \<leftarrow> fill_rows nums1 nums2 0 (min k n) [];
        res \<leftarrow> take_pairs pick nums1 nums2 m k p [];
        Some (print_pairs res, res)
      })"

definition pairs_main :: "(index_pair list \<Rightarrow> index_pair) \<Rightarrow> string option" where
  "pairs_main pick = do { (out, _) \<leftarrow> KSmallestPairs pick [1, 7, 11] [2, 4, 6] 10; Some out }"

subsection \<open>The queue\<close>

definition grid :: "int \<Rightarrow> int \<Rightarrow> index_pair set" where
  "grid n m = {0..<n} \<times> {0..<m}"

definition sum_of :: "int list \<Rightarrow> int list \<Rightarrow> index_pair \<Rightarrow> int" where
  "sum_of nums1 nums2 f = elem nums1 (fst f) + elem nums2 (snd f)"

definition sums_fit :: "int list \<Rightarrow> int list \<Rightarrow> bool" where
  "sums_fit nums1 nums2 \<longleftrightarrow>
     (\<forall>f \<in> grid (int (length nums1)) (int (length nums2)). in_i32 (sum_of nums1 nums2 f))"

lemma sums_fitI:
  assumes "\<And>x y. x \<in> set nums1 \<Longrightarrow> y \<in> set nums2 \<Longrightarrow> in_i32 (x + y)"
  shows "sums_fit nums1 nums2"
  unfolding sums_fit_def sum_of_def grid_def elem_def by (auto intro!: assms nth_mem)

lemma pair_sum_grid:
  assumes "sums_fit nums1 nums2" "f \<in> grid (int (length nums1)) (int (length nums2))"
  shows "pair_sum nums1 nums2 f = Some (sum_of nums1 nums2 f)"
proof -
  have "in_i32 (sum_of nums1 nums2 f)" using assms unfolding sums_fit_def by blast
  moreover have "0 \<le> fst f" "fst f < int (length nums1)" "0 \<le> snd f" "snd f < int (length nums2)"
    using assms(2) by (auto simp: grid_def)
  ultimately show ?thesis by (simp add: pair_sum_def in_range i32_def sum_of_def)
qed

lemma comparable_grid:
  "sums_fit nums1 nums2 \<Longrightarrow> set p \<subseteq> grid (int (length nums1)) (int (length nums2)) \<Longrightarrow> comparable nums1 nums2 p"
  by (auto simp: comparable_def list_all_iff subset_iff pair_sum_grid)

lemma emplace_grid:
  "sums_fit nums1 nums2 \<Longrightarrow> set (f # p) \<subseteq> grid (int (length nums1)) (int (length nums2)) \<Longrightarrow>
   emplace_pair nums1 nums2 f p = Some (f # p)"
  using comparable_grid[of nums1 nums2 "f # p"] by (simp add: emplace_pair_def)

lemma top_least:
  assumes "sums_fit nums1 nums2" "top_ok nums1 nums2 pick" "p \<noteq> []"
    and p: "set p \<subseteq> grid (int (length nums1)) (int (length nums2))"
  shows "pick p \<in> set p" and "q \<in> set p \<Longrightarrow> sum_of nums1 nums2 (pick p) \<le> sum_of nums1 nums2 q"
proof -
  have ok: "pick p \<in> set p" "\<forall>q \<in> set p. cmp nums1 nums2 (pick p) q = Some False"
    using assms comparable_grid[OF assms(1) p] by (simp_all add: top_ok_def)
  show "pick p \<in> set p" by (rule ok)
  assume "q \<in> set p"
  then have "cmp nums1 nums2 (pick p) q = Some False" "q \<in> grid (int (length nums1)) (int (length nums2))"
    "pick p \<in> grid (int (length nums1)) (int (length nums2))" using ok p by auto
  then show "sum_of nums1 nums2 (pick p) \<le> sum_of nums1 nums2 q"
    using assms(1) by (simp add: cmp_def pair_sum_grid)
qed

lemma fill_rows_grid:
  assumes "sums_fit nums1 nums2" "0 \<le> i" "n \<le> int (length nums1)" "nums2 \<noteq> []"
    and "set p \<subseteq> grid (int (length nums1)) (int (length nums2))"
  shows "fill_rows nums1 nums2 i n p = Some (map (\<lambda>r. (r, 0)) (rev [i..n - 1]) @ p)"
  using assms(2,5)
proof (induction "nat (n - i)" arbitrary: i p)
  case 0
  then show ?case by (simp add: fill_rows.simps)
next
  case (Suc d)
  then have "i < n" by simp
  then have "set ((i, 0) # p) \<subseteq> grid (int (length nums1)) (int (length nums2))"
    using Suc.prems assms(3,4) by (simp add: grid_def)
  note e = emplace_grid[OF assms(1) this]
  have "fill_rows nums1 nums2 (i + 1) n ((i, 0) # p) = Some (map (\<lambda>r. (r, 0)) (rev [i + 1..n - 1]) @ (i, 0) # p)"
    using Suc \<open>i < n\<close> assms(3,4) by (intro Suc.hyps) (auto simp: grid_def)
  then show ?case using \<open>i < n\<close> e by (subst fill_rows.simps) (simp add: upto_rec1[of i])
qed

subsection \<open>The loop\<close>

text \<open>
  After the pairs \<open>ps\<close> have been taken, in a grid of which the first \<open>K\<close> rows are in the queue: in each
  row the queue holds the first pair not taken, if any; the pairs taken are in order, and no other pair
  of the whole grid has a smaller sum.
\<close>

definition pairs_inv :: "int list \<Rightarrow> int list \<Rightarrow> int \<Rightarrow> index_pair list \<Rightarrow> index_pair list \<Rightarrow> bool" where
  "pairs_inv nums1 nums2 K ps p \<longleftrightarrow>
     distinct (ps @ p) \<and> set ps \<union> set p \<subseteq> grid K (int (length nums2)) \<and>
     (\<forall>i j. (i, j) \<in> grid K (int (length nums2)) - set ps \<longrightarrow> (\<exists>c \<le> j. (i, c) \<in> set p)) \<and>
     (\<forall>i j c. (i, j) \<in> set ps \<union> set p \<and> (i, c) \<in> set p \<longrightarrow> j \<le> c) \<and>
     sorted (map (sum_of nums1 nums2) ps) \<and>
     (\<forall>f \<in> set ps. \<forall>g \<in> grid (int (length nums1)) (int (length nums2)) - set ps.
        sum_of nums1 nums2 f \<le> sum_of nums1 nums2 g)"

lemma elem_mono: "sorted v \<Longrightarrow> 0 \<le> i \<Longrightarrow> i \<le> j \<Longrightarrow> j < int (length v) \<Longrightarrow> elem v i \<le> (elem v j :: int)"
  by (simp add: elem_def sorted_nth_mono)

lemma sum_of_mono:
  assumes "sorted nums1" "sorted nums2" "0 \<le> i" "i \<le> i'" "i' < int (length nums1)" "0 \<le> j" "j \<le> j'" "j' < int (length nums2)"
  shows "sum_of nums1 nums2 (i, j) \<le> sum_of nums1 nums2 (i', j')"
  using elem_mono[OF assms(1,3-5)] elem_mono[OF assms(2,6-8)] by (simp add: sum_of_def)

text \<open>A queue in which every row has a pair that is at least as small contains a least pair.\<close>

lemma least_in_queue:
  assumes inv: "pairs_inv nums1 nums2 K ps p" and srt: "sorted nums1" "sorted nums2"
    and K: "K \<le> int (length nums1)" "K < int (length nums1) \<Longrightarrow> int (length ps) < K"
    and g: "g \<in> grid (int (length nums1)) (int (length nums2)) - set ps"
  obtains f where "f \<in> set p" "sum_of nums1 nums2 f \<le> sum_of nums1 nums2 g"
proof -
  obtain i j where ij: "g = (i, j)" "0 \<le> i" "i < int (length nums1)" "0 \<le> j" "j < int (length nums2)" "(i, j) \<notin> set ps"
    using g by (cases g) (auto simp: grid_def)
  have front: "\<exists>c \<le> j'. (r, c) \<in> set p" if "(r, j') \<in> grid K (int (length nums2)) - set ps" for r j'
    using inv that unfolding pairs_inv_def by blast
  have sub: "set ps \<union> set p \<subseteq> grid K (int (length nums2))" using inv by (simp add: pairs_inv_def)
  show thesis
  proof (cases "i < K")
    case True
    then obtain c where c: "c \<le> j" "(i, c) \<in> set p" using front[of i j] ij by (auto simp: grid_def)
    moreover have "0 \<le> c" using c(2) sub by (auto simp: grid_def)
    ultimately show thesis using that[of "(i, c)"] ij sum_of_mono[OF srt, of i i c j] by simp
  next
    case False
    then have len: "int (length ps) < K" using K(2) ij(3) by simp
    have "card (fst ` set ps) \<le> length ps" by (metis card_image_le card_length finite_set order_trans)
    then have "card (fst ` set ps) < card {0..<K}" using len by simp
    then have "\<not> {0..<K} \<subseteq> fst ` set ps" using card_mono[of "fst ` set ps" "{0..<K}"] by auto
    then obtain r where "r \<in> {0..<K}" and r: "r \<notin> fst ` set ps" by blast
    then have r0: "0 \<le> r" "r < K" by simp_all
    have "(r, 0) \<in> grid K (int (length nums2)) - set ps" using r r0 ij by (force simp: grid_def)
    then obtain c where c: "c \<le> 0" "(r, c) \<in> set p" using front by blast
    then have "c = 0" using sub by (auto simp: grid_def)
    then show thesis
      using that[of "(r, 0)"] c(2) ij r0 False sum_of_mono[OF srt, of r i 0 j] by simp
  qed
qed

text \<open>Taking the top of the queue, and putting the next pair of its row in its place.\<close>

lemma pairs_inv_step:
  assumes inv: "pairs_inv nums1 nums2 K ps p" and K: "K \<le> int (length nums1)"
    and f: "(i, c) \<in> set p"
    and least: "\<And>g. g \<in> grid (int (length nums1)) (int (length nums2)) - set ps \<Longrightarrow>
      sum_of nums1 nums2 (i, c) \<le> sum_of nums1 nums2 g"
    and p': "p' = (if c + 1 < int (length nums2) then (i, c + 1) # remove1 (i, c) p else remove1 (i, c) p)"
  shows "pairs_inv nums1 nums2 K (ps @ [(i, c)]) p'"
proof -
  let ?m = "int (length nums2)"
  have d: "distinct (ps @ p)" and sub: "set ps \<union> set p \<subseteq> grid K ?m"
    and front: "\<And>r j. (r, j) \<in> grid K ?m - set ps \<Longrightarrow> \<exists>c \<le> j. (r, c) \<in> set p"
    and row: "\<And>r j c. (r, j) \<in> set ps \<union> set p \<Longrightarrow> (r, c) \<in> set p \<Longrightarrow> j \<le> c"
    and srt: "sorted (map (sum_of nums1 nums2) ps)"
    and low: "\<And>f g. f \<in> set ps \<Longrightarrow> g \<in> grid (int (length nums1)) ?m - set ps \<Longrightarrow> sum_of nums1 nums2 f \<le> sum_of nums1 nums2 g"
    using inv unfolding pairs_inv_def by blast+
  have rm: "set (remove1 (i, c) p) = set p - {(i, c)}" "distinct (remove1 (i, c) p)" using d by auto
  have fnew: "(i, c + 1) \<notin> set ps \<union> set p" using row[of i "c + 1" c] f by auto
  have ic: "0 \<le> i" "i < K" "0 \<le> c" "c < ?m" using f sub by (auto simp: grid_def)
  have "distinct ((ps @ [(i, c)]) @ p')" using d f fnew rm by (auto simp: p')
  moreover have "set (ps @ [(i, c)]) \<union> set p' \<subseteq> grid K ?m"
    using sub f ic rm by (auto simp: p' grid_def)
  moreover have "\<exists>c' \<le> j. (r, c') \<in> set p'" if g: "(r, j) \<in> grid K ?m - set (ps @ [(i, c)])" for r j
  proof -
    obtain c' where c': "c' \<le> j" "(r, c') \<in> set p" using front[of r j] g by auto
    show ?thesis
    proof (cases "(r, c') = (i, c)")
      case False
      then show ?thesis using c' rm by (auto simp: p')
    next
      case True
      then have "c + 1 \<le> j" "j < ?m" using g c'(1) by (auto simp: grid_def)
      then show ?thesis using True by (auto simp: p')
    qed
  qed
  moreover have "j \<le> c'" if g: "(r, j) \<in> set (ps @ [(i, c)]) \<union> set p'" "(r, c') \<in> set p'" for r j c'
  proof (cases "r = i")
    case True
    have "(i, x) \<in> set ps \<union> set p \<Longrightarrow> x \<le> c" for x using row[of i x c] f by simp
    then have "j \<le> c + 1" using g(1) True f rm by (fastforce simp: p' split: if_splits)
    moreover have "c' = c + 1"
    proof (rule ccontr)
      assume "c' \<noteq> c + 1"
      then have "(i, c') \<in> set p" "c' \<noteq> c" using g(2) True rm by (auto simp: p' split: if_splits)
      then show False using row[of i c' c] row[of i c c'] f by auto
    qed
    ultimately show ?thesis by simp
  next
    case False
    then show ?thesis using g rm f row[of r j c'] by (auto simp: p' split: if_splits)
  qed
  moreover have "sorted (map (sum_of nums1 nums2) (ps @ [(i, c)]))"
    using srt low[of _ "(i, c)"] f d sub ic K by (force simp: sorted_append grid_def)
  moreover have "sum_of nums1 nums2 f' \<le> sum_of nums1 nums2 g"
    if "f' \<in> set (ps @ [(i, c)])" "g \<in> grid (int (length nums1)) ?m - set (ps @ [(i, c)])" for f' g
    using that low[of f' g] least[of g] by auto
  ultimately show ?thesis unfolding pairs_inv_def by blast
qed

definition values_at :: "int list \<Rightarrow> int list \<Rightarrow> index_pair list \<Rightarrow> int list list" where
  "values_at nums1 nums2 ps = map (\<lambda>f. [elem nums1 (fst f), elem nums2 (snd f)]) ps"

lemma take_pairs_loop:
  assumes srt: "sorted nums1" "sorted nums2" and fit: "sums_fit nums1 nums2" and top: "top_ok nums1 nums2 pick"
    and size: "length nums2 < 2 ^ 31" and K: "K = min tot (int (length nums1))"
    and "pairs_inv nums1 nums2 K ps p" "int (length ps) + k = tot" "0 \<le> k" "tot < 2 ^ 31"
  shows "\<exists>qs p'. take_pairs pick nums1 nums2 (int (length nums2)) k p (values_at nums1 nums2 ps) =
      Some (values_at nums1 nums2 qs) \<and> pairs_inv nums1 nums2 K qs p' \<and>
      int (length qs) \<le> tot \<and> (int (length qs) = tot \<or> p' = [])"
  using assms(7-9)
proof (induction "nat k" arbitrary: ps p k)
  case 0
  then show ?case by (intro exI[of _ ps] exI[of _ p]) (simp add: take_pairs.simps in_range)
next
  case (Suc d)
  let ?m = "int (length nums2)"
  have k: "0 < k" "k < 2 ^ 31" using Suc.hyps(2) Suc.prems(2) assms(10) by simp_all
  show ?case
  proof (cases "p = []")
    case True
    then show ?thesis using Suc.prems k
      by (intro exI[of _ ps] exI[of _ p]) (simp add: take_pairs.simps in_range)
  next
    case False
    have Kn: "K \<le> int (length nums1)" and Klt: "K < int (length nums1) \<Longrightarrow> int (length ps) < K"
      using K Suc.prems(2) k by simp_all
    have sub: "set p \<subseteq> grid K ?m" using Suc.prems(1) by (simp add: pairs_inv_def)
    then have subn: "set p \<subseteq> grid (int (length nums1)) ?m" using Kn by (force simp: grid_def)
    obtain i c where f: "pick p = (i, c)" "(i, c) \<in> set p"
      using top_least(1)[OF fit top False subn] by (metis surj_pair)
    then have ic: "0 \<le> i" "i < K" "0 \<le> c" "c < ?m" using sub by (auto simp: grid_def)
    define p' where "p' = (if c + 1 < ?m then (i, c + 1) # remove1 (i, c) p else remove1 (i, c) p)"
    have inv: "pairs_inv nums1 nums2 K (ps @ [(i, c)]) p'"
    proof (rule pairs_inv_step[OF Suc.prems(1) Kn f(2) _ p'_def])
      fix g assume "g \<in> grid (int (length nums1)) ?m - set ps"
      then obtain h where "h \<in> set p" "sum_of nums1 nums2 h \<le> sum_of nums1 nums2 g"
        using least_in_queue[OF Suc.prems(1) srt Kn Klt] by blast
      then show "sum_of nums1 nums2 (i, c) \<le> sum_of nums1 nums2 g"
        using top_least(2)[OF fit top False subn, of h] f(1) by simp
    qed
    have "set p' \<subseteq> grid (int (length nums1)) ?m" using inv Kn by (force simp: pairs_inv_def grid_def)
    then have "(if c + 1 < ?m then emplace_pair nums1 nums2 (i, c + 1) (remove1 (i, c) p) else Some (remove1 (i, c) p)) = Some p'"
      using emplace_grid[OF fit, of "(i, c + 1)" "remove1 (i, c) p"] by (cases "c + 1 < ?m") (simp_all add: p'_def)
    then have "take_pairs pick nums1 nums2 ?m k p (values_at nums1 nums2 ps) =
        take_pairs pick nums1 nums2 ?m (k - 1) p' (values_at nums1 nums2 (ps @ [(i, c)]))"
      using k f ic Kn size False
      by (subst take_pairs.simps, cases "c + 1 < ?m") (simp_all add: in_range Let_def values_at_def)
    then show ?thesis using Suc.hyps(1)[OF _ inv, of "k - 1"] Suc.hyps(2) Suc.prems(2) k by simp
  qed
qed

lemma pairs_inv_init:
  assumes "sums_fit nums1 nums2" "nums2 \<noteq> []"
  shows "pairs_inv nums1 nums2 K [] (map (\<lambda>r. (r, 0)) (rev [0..K - 1]))"
proof -
  have "distinct (map (\<lambda>r :: int. (r, 0 :: int)) (rev [0..K - 1]))"
    by (simp add: distinct_map inj_on_def)
  then show ?thesis using assms(2) by (auto simp: pairs_inv_def grid_def)
qed

lemma card_grid: "0 \<le> n \<Longrightarrow> 0 \<le> m \<Longrightarrow> int (card (grid n m)) = n * m"
  by (simp add: grid_def card_cartesian_product)

lemma pairs_inv_end:
  assumes inv: "pairs_inv nums1 nums2 K qs p" and K: "K = min tot (int (length nums1))" "0 \<le> tot"
    and len: "int (length qs) \<le> tot" "int (length qs) = tot \<or> p = []" and m: "nums2 \<noteq> []"
  shows "int (length qs) = min tot (int (length nums1) * int (length nums2))"
proof -
  let ?n = "int (length nums1)" and ?m = "int (length nums2)"
  have d: "distinct qs" "set qs \<subseteq> grid K ?m" using inv by (simp_all add: pairs_inv_def)
  have c: "int (length qs) = int (card (set qs))" using d(1) by (simp add: distinct_card)
  have fin: "finite (grid K ?m)" by (simp add: grid_def)
  have "int (length qs) \<le> K * ?m"
    using card_mono[OF fin d(2)] card_grid[of K ?m] K c by simp
  also have "\<dots> \<le> ?n * ?m" using K by (intro mult_right_mono) simp_all
  finally have le: "int (length qs) \<le> ?n * ?m" .
  show ?thesis
  proof (cases "int (length qs) = tot")
    case False
    then have "p = []" using len(2) by simp
    then have "grid K ?m \<subseteq> set qs" using inv unfolding pairs_inv_def by auto
    then have "set qs = grid K ?m" using d(2) by blast
    then have full: "int (length qs) = K * ?m" using c card_grid[of K ?m] K by simp
    have "1 \<le> ?m" using m by (cases nums2) simp_all
    then have "K * 1 \<le> K * ?m" using K by (intro mult_left_mono) simp_all
    then have "K = ?n" using full len(1) False K by linarith
    then show ?thesis using full le len(1) by simp
  qed (use le in simp)
qed

lemma to_int_small: "n < 2 ^ 31 \<Longrightarrow> to_int n = int n"
  by (simp add: to_int_def)

text \<open>C33: for a count \<open>k\<close> that is not negative and ascending arrays, the second of them not empty, whose
  sums fit in an \<open>int\<close> and whose lengths do too, \<open>KSmallestPairs\<close> returns and prints the
  values of \<open>k\<close> different pairs, or of all of them if there are fewer, in the order of their sums, and no other pair
  has a smaller sum than one of them, whichever least pair the priority queue offers. (With an empty
  second array it reads outside that array as soon as it compares two rows: \<open>KSmallestPairs_empty\<close>.)\<close>

theorem KSmallestPairs_least:
  assumes "sorted nums1" "sorted nums2" "nums2 \<noteq> []" "length nums1 < 2 ^ 31" "length nums2 < 2 ^ 31"
    and "sums_fit nums1 nums2" "top_ok nums1 nums2 pick" "0 \<le> k" "k < 2 ^ 31"
  shows "\<exists>ps. KSmallestPairs pick nums1 nums2 k =
      Some (print_pairs (values_at nums1 nums2 ps), values_at nums1 nums2 ps) \<and>
    distinct ps \<and> set ps \<subseteq> grid (int (length nums1)) (int (length nums2)) \<and>
    int (length ps) = min k (int (length nums1) * int (length nums2)) \<and>
    sorted (map (sum_of nums1 nums2) ps) \<and>
    (\<forall>f \<in> set ps. \<forall>g \<in> grid (int (length nums1)) (int (length nums2)) - set ps.
       sum_of nums1 nums2 f \<le> sum_of nums1 nums2 g)"
proof -
  let ?K = "min k (int (length nums1))"
  have fill: "fill_rows nums1 nums2 0 ?K [] = Some (map (\<lambda>r. (r, 0)) (rev [0..?K - 1]))"
    using fill_rows_grid[OF assms(6), of 0 ?K "[]"] assms(3) by simp
  obtain ps p' where ps: "take_pairs pick nums1 nums2 (int (length nums2)) k (map (\<lambda>r. (r, 0)) (rev [0..?K - 1])) [] =
      Some (values_at nums1 nums2 ps)" "pairs_inv nums1 nums2 ?K ps p'" "int (length ps) \<le> k" "int (length ps) = k \<or> p' = []"
    using take_pairs_loop[OF assms(1,2,6,7,5) refl pairs_inv_init[OF assms(6,3)], of k k] assms(8,9)
    by (auto simp: values_at_def)
  have "set ps \<subseteq> grid (int (length nums1)) (int (length nums2))"
    using ps(2) by (force simp: pairs_inv_def grid_def)
  then show ?thesis
    using ps fill pairs_inv_end[OF ps(2) refl assms(8) ps(3,4) assms(3)] assms(4,5)
    by (intro exI[of _ ps]) (simp add: KSmallestPairs_def to_int_small pairs_inv_def)
qed

text \<open>A queue that offers the first of the least pairs.\<close>

definition first_least :: "int list \<Rightarrow> int list \<Rightarrow> index_pair list \<Rightarrow> index_pair" where
  "first_least nums1 nums2 p = arg_min_list (\<lambda>f. the (pair_sum nums1 nums2 f)) p"

lemma first_least_ok: "top_ok nums1 nums2 (first_least nums1 nums2)"
proof -
  have "first_least nums1 nums2 p \<in> set p \<and> (\<forall>q \<in> set p. cmp nums1 nums2 (first_least nums1 nums2 p) q = Some False)"
    if "p \<noteq> []" and c: "comparable nums1 nums2 p" for p
  proof -
    let ?s = "\<lambda>f. the (pair_sum nums1 nums2 f)"
    have i: "first_least nums1 nums2 p \<in> set p" using arg_min_list_in[OF that(1)] by (simp add: first_least_def)
    have "?s (first_least nums1 nums2 p) = Min (?s ` set p)"
      unfolding first_least_def by (rule f_arg_min_list_f[OF that(1)])
    then have "?s (first_least nums1 nums2 p) \<le> ?s q" if "q \<in> set p" for q using that by simp
    moreover have "pair_sum nums1 nums2 q = Some (?s q)" if "q \<in> set p" for q
      using c that by (auto simp: comparable_def list_all_iff)
    ultimately have "cmp nums1 nums2 (first_least nums1 nums2 p) q = Some False" if "q \<in> set p" for q
      using i that by (simp add: cmp_def bind_eq_Some_conv) (metis bind.bind_lunit not_less option.sel)
    then show ?thesis using i by blast
  qed
  then show ?thesis by (simp add: top_ok_def)
qed

theorem KSmallestPairs_least_witness:
  "\<exists>out res. KSmallestPairs (first_least [1, 7, 11] [2, 4, 6]) [1, 7, 11] [2, 4, 6] 3 = Some (out, res) \<and> length res = 3"
proof -
  have "sums_fit [1, 7, 11] [2, 4, 6]"
    by (rule sums_fitI) (auto simp: in_i32_def)
  from KSmallestPairs_least[OF _ _ _ _ _ this first_least_ok, of 3] show ?thesis
    by (auto simp: values_at_def)
qed

text \<open>An empty second array is read outside its bounds as soon as two rows are compared.\<close>

lemma KSmallestPairs_empty:
  assumes "2 \<le> length nums1" "length nums1 < 2 ^ 31" "2 \<le> k"
  shows "KSmallestPairs pick nums1 [] k = None"
proof -
  let ?K = "min k (int (length nums1))"
  have K: "1 < ?K" using assms by simp
  have "emplace_pair nums1 [] (1, 0) [(0, 0)] = None"
    by (simp add: emplace_pair_def comparable_def pair_sum_def rd_def)
  then have "fill_rows nums1 [] 1 ?K [(0, 0)] = None" using K by (subst fill_rows.simps) simp
  then have "fill_rows nums1 [] 0 ?K [] = None"
    using K by (subst fill_rows.simps) (auto simp: emplace_pair_def)
  then show ?thesis using assms(2) by (simp add: KSmallestPairs_def to_int_small)
qed

end
