(* ===== verification/Jump_Game.thy ===== *)
theory Jump_Game
  imports Decimal
begin

section \<open>The least number of jumps\<close>

text \<open>
  \<^verbatim>\<open>src/test/45.cc\<close>: from position \<open>p\<close> of an array one can jump ahead by up to \<open>nums[p]\<close> positions;
  \<open>jump\<close> computes in one pass how many jumps lead from the first position to the last. The bound
  \<open>nums.size()-1\<close> is computed in \<open>size_t\<close>, so that the loop of an empty array starts and reads outside
  it.
\<close>

function jump_loop :: "int list \<Rightarrow> int \<Rightarrow> int \<Rightarrow> int \<Rightarrow> int \<Rightarrow> int \<Rightarrow> int option" where
  "jump_loop nums n i res end' maxpos =
     (if i < n then do {
        x \<leftarrow> rd nums i;
        s \<leftarrow> i32 (i + x);
        let maxpos = max maxpos s;
        (res, end') \<leftarrow> (if i = end' then do { r \<leftarrow> i32 (res + 1); Some (r, maxpos) } else Some (res, end'));
        i \<leftarrow> i32 (i + 1);
        jump_loop nums n i res end' maxpos
      } else Some res)"
  by pat_completeness auto
termination
  by (relation "measure (\<lambda>(_, n, i, _). nat (n - i))") (auto simp: i32_Some_iff)


declare jump_loop.simps [simp del]

definition jump :: "int list \<Rightarrow> (string \<times> int) option" where
  "jump nums =
     do {
       res \<leftarrow> jump_loop nums ((int (length nums) - 1) mod 2 ^ 64) 0 0 0 0;
       Some (concat (map (\<lambda>item. print_i64 item @ '','') nums) @ [CHR 0x0A], res)
     }"

definition jump_main :: "string option" where
  "jump_main =
     (let arr = [1, 1, 1, 1, 4, 5, 6]; nums = take 4 arr
      in do { (out, m) \<leftarrow> jump nums; Some (out @ ''min:'' @ print_i64 m @ [CHR 0x0A]) })"

text \<open>The positions that \<open>k\<close> jumps can lead to.\<close>

inductive jumps :: "int list \<Rightarrow> int \<Rightarrow> nat \<Rightarrow> bool" for nums where
  start: "jumps nums 0 0"
| ahead: "jumps nums p k \<Longrightarrow> p < q \<Longrightarrow> q \<le> p + elem nums p \<Longrightarrow> q < int (length nums) \<Longrightarrow> jumps nums q (Suc k)"

inductive_cases jumps_SucE: "jumps nums q (Suc k)"

lemma jumps_range: "jumps nums p k \<Longrightarrow> 0 \<le> p \<and> (p < int (length nums) \<or> p = 0)"
  by (induction rule: jumps.induct) auto

text \<open>
  The state of the loop at position \<open>i\<close>: \<open>maxpos\<close> is the farthest position in reach of those before
  \<open>i\<close>; \<open>res\<close> jumps lead to the positions up to \<open>end\<close> and no farther, and fewer jumps do not lead
  to \<open>i\<close> or beyond.
\<close>

definition farthest :: "int list \<Rightarrow> int \<Rightarrow> int \<Rightarrow> bool" where
  "farthest nums i mx \<longleftrightarrow> 0 \<le> mx \<and> (\<forall>q. 0 \<le> q \<and> q < i \<longrightarrow> q + elem nums q \<le> mx) \<and>
     (mx = 0 \<or> (\<exists>q. 0 \<le> q \<and> q < i \<and> mx = q + elem nums q))"

definition jump_inv :: "int list \<Rightarrow> int \<Rightarrow> int \<Rightarrow> int \<Rightarrow> int \<Rightarrow> bool" where
  "jump_inv nums i res e mx \<longleftrightarrow> 0 \<le> i \<and> i \<le> e \<and> 0 \<le> res \<and> res \<le> i \<and> farthest nums i mx \<and>
     (\<forall>p. 0 \<le> p \<and> p \<le> e \<and> p < int (length nums) \<longrightarrow> (\<exists>k. int k \<le> res \<and> jumps nums p k)) \<and>
     (\<forall>p k. int k \<le> res \<and> jumps nums p k \<longrightarrow> p \<le> e) \<and>
     (\<forall>p k. int k < res \<and> jumps nums p k \<longrightarrow> p < i)"

lemma farthest_step: "0 \<le> i \<Longrightarrow> farthest nums i mx \<Longrightarrow> farthest nums (i + 1) (max mx (i + elem nums i))"
proof -
  assume i: "0 \<le> i" and far: "farthest nums i mx"
  let ?m = "max mx (i + elem nums i)"
  have "q + elem nums q \<le> ?m" if q: "0 \<le> q" "q < i + 1" for q
  proof (cases "q = i")
    case False
    then have "q + elem nums q \<le> mx" using far q by (simp add: farthest_def)
    then show ?thesis by simp
  qed simp
  moreover have "?m = 0 \<or> (\<exists>q. 0 \<le> q \<and> q < i + 1 \<and> ?m = q + elem nums q)"
  proof (cases "mx \<le> i + elem nums i")
    case True
    then show ?thesis using i by (intro disjI2 exI[of _ i]) simp
  next
    case False
    then have "?m = mx" by simp
    moreover have "mx = 0 \<or> (\<exists>q. 0 \<le> q \<and> q < i + 1 \<and> mx = q + elem nums q)"
    proof (cases "mx = 0")
      case False
      then obtain q where "0 \<le> q" "q < i" "mx = q + elem nums q" using far by (auto simp: farthest_def)
      moreover from this have "q < i + 1" by simp
      ultimately show ?thesis by blast
    qed simp
    ultimately show ?thesis by simp
  qed
  ultimately show ?thesis using far by (auto simp: farthest_def)
qed

text \<open>When nothing leads beyond \<open>i\<close>, the positions after it are out of reach.\<close>

lemma stuck:
  assumes "farthest nums (i + 1) mx" "mx \<le> i" "0 \<le> i" "jumps nums p k"
  shows "p \<le> i"
  using assms(4)
proof (induction rule: jumps.induct)
  case (ahead p k q)
  then have "p + elem nums p \<le> mx" using assms(1) jumps_range[of nums p k] by (simp add: farthest_def)
  then show ?case using ahead assms(2) by linarith
qed (use assms in simp)

lemma jump_inv_step:
  assumes inv: "jump_inv nums i res e mx" and i: "i < int (length nums) - 1"
    and last: "jumps nums (int (length nums) - 1) m"
  defines "mx' \<equiv> max mx (i + elem nums i)"
  shows "jump_inv nums (i + 1) (if i = e then res + 1 else res) (if i = e then mx' else e) mx'"
proof (cases "i = e")
  case False
  then have "i + 1 \<le> e" "farthest nums (i + 1) mx'"
    using inv farthest_step[of i nums mx] by (simp_all add: jump_inv_def mx'_def)
  moreover have "\<forall>p k. int k < res \<and> jumps nums p k \<longrightarrow> p < i + 1"
    using inv unfolding jump_inv_def by (meson less_add_one order.strict_trans)
  ultimately show ?thesis using inv False unfolding jump_inv_def if_not_P[OF False] by auto
next
  case True
  have far: "farthest nums (i + 1) mx'" using inv farthest_step by (simp add: jump_inv_def mx'_def)
  have i0: "0 \<le> i" and res: "0 \<le> res" "res \<le> i" using inv by (simp_all add: jump_inv_def)
  have reach: "\<exists>k. int k \<le> res \<and> jumps nums p k" if "0 \<le> p" "p \<le> i" for p
    using inv that True i by (simp add: jump_inv_def)
  have bound: "p \<le> i" if "int k \<le> res" "jumps nums p k" for p k
    using inv that True unfolding jump_inv_def by blast
  have "i < mx'" using stuck[OF far _ i0 last] i by linarith
  moreover have "\<exists>k. int k \<le> res + 1 \<and> jumps nums p k" if p: "0 \<le> p" "p \<le> mx'" "p < int (length nums)" for p
  proof (cases "p \<le> i")
    case True
    then obtain k where "int k \<le> res" "jumps nums p k" using reach[OF p(1)] by blast
    then show ?thesis by (intro exI[of _ k]) simp
  next
    case False
    obtain q where q: "0 \<le> q" "q < i + 1" "mx' = q + elem nums q"
      using far \<open>i < mx'\<close> i0 by (auto simp: farthest_def)
    then obtain k where k: "int k \<le> res" "jumps nums q k" using reach[of q] by auto
    have "jumps nums p (Suc k)" using jumps.ahead[OF k(2)] q p False by simp
    then show ?thesis using k(1) by (intro exI[of _ "Suc k"]) simp
  qed
  moreover have "p \<le> mx'" if k: "int k \<le> res + 1" "jumps nums p k" for p k
  proof (cases k)
    case 0
    then show ?thesis using k(2) \<open>i < mx'\<close> i0 by (auto elim: jumps.cases)
  next
    case (Suc j)
    then obtain q where q: "jumps nums q j" "p \<le> q + elem nums q" using k(2) by (auto elim: jumps_SucE)
    have "q \<le> i" using bound[OF _ q(1)] k(1) Suc by simp
    then have "q + elem nums q \<le> mx'" using far jumps_range[OF q(1)] by (simp add: farthest_def)
    then show ?thesis using q(2) by simp
  qed
  moreover have "p < i + 1" if "int k < res + 1" "jumps nums p k" for p k
    using bound[of k p] that by simp
  ultimately show ?thesis using True far i0 res unfolding jump_inv_def if_P[OF True] by auto
qed

text \<open>The loop, from a state that satisfies the invariant to the last position.\<close>

lemma jump_loop_least:
  assumes "jump_inv nums i res e mx" "i \<le> int (length nums) - 1" "length nums \<le> 2 ^ 31"
    and last: "jumps nums (int (length nums) - 1) m"
    and fits: "\<And>p. 0 \<le> p \<Longrightarrow> p < int (length nums) \<Longrightarrow> in_i32 (p + elem nums p)"
  shows "\<exists>k. jump_loop nums (int (length nums) - 1) i res e mx = Some (int k) \<and>
     jumps nums (int (length nums) - 1) k \<and> (\<forall>j. jumps nums (int (length nums) - 1) j \<longrightarrow> k \<le> j)"
  using assms(1,2)
proof (induction "nat (int (length nums) - 1 - i)" arbitrary: i res e mx)
  case 0
  let ?n = "int (length nums) - 1"
  have i: "i = ?n" "0 \<le> i" "i \<le> e" using 0 by (simp_all add: jump_inv_def)
  then have "0 \<le> ?n \<and> ?n \<le> e \<and> ?n < int (length nums)" by simp
  then obtain k where k: "int k \<le> res" "jumps nums ?n k" using 0(2) unfolding jump_inv_def by blast
  have least: "\<not> int j < res" if "jumps nums ?n j" for j
    using 0(2) that i(1) unfolding jump_inv_def by (metis order.irrefl)
  then have "res = int k" using k by fastforce
  moreover have "k \<le> j" if "jumps nums ?n j" for j using least[OF that] \<open>res = int k\<close> by simp
  ultimately show ?case using k(2) i(1) by (intro exI[of _ k]) (simp add: jump_loop.simps)
next
  case (Suc d)
  let ?n = "int (length nums) - 1"
  have i: "0 \<le> i" "i < ?n" "res \<le> i" "0 \<le> res" using Suc by (simp_all add: jump_inv_def)
  have small: "i + 1 < 2 ^ 31" using i assms(3) by simp
  let ?mx = "max mx (i + elem nums i)"
  have inv: "jump_inv nums (i + 1) (if i = e then res + 1 else res) (if i = e then ?mx else e) ?mx"
    by (rule jump_inv_step[OF Suc.prems(1) i(2) last])
  have "jump_loop nums ?n i res e mx =
      jump_loop nums ?n (i + 1) (if i = e then res + 1 else res) (if i = e then ?mx else e) ?mx"
    using i small fits[of i] by (subst jump_loop.simps) (simp add: in_range i32_def in_i32_def Let_def)
  then show ?case using Suc.hyps(1)[OF _ inv] Suc.hyps(2) i by simp
qed

text \<open>C34: for an array whose last position can be reached, and whose jumps end below $2^{31}$,
  \<open>jump\<close> stays inside the array and returns the least number of jumps that lead from the first
  position to the last.\<close>

theorem jump_least:
  assumes "nums \<noteq> []" "length nums \<le> 2 ^ 31"
    and "\<forall>p. 0 \<le> p \<and> p < int (length nums) \<longrightarrow> in_i32 (p + elem nums p)"
    and "jumps nums (int (length nums) - 1) m"
  shows "\<exists>out k. jump nums = Some (out, int k) \<and> jumps nums (int (length nums) - 1) k \<and>
     (\<forall>j. jumps nums (int (length nums) - 1) j \<longrightarrow> k \<le> j)"
proof -
  have "0 < length nums" using assms(1) by simp
  then have n: "0 \<le> int (length nums) - 1" "(int (length nums) - 1) mod 2 ^ 64 = int (length nums) - 1"
    using assms(2) by simp_all
  have "jump_inv nums 0 0 0 0"
    by (auto simp: jump_inv_def farthest_def intro: jumps.start elim: jumps.cases)
  from jump_loop_least[OF this n(1) assms(2,4)] assms(3) show ?thesis
    unfolding jump_def n(2) by auto
qed

lemma jumps_example: "jumps [2, 3, 1, 1, 4] 4 2"
proof -
  have "jumps [2, 3, 1, 1, 4] 1 (Suc 0)" by (rule jumps.ahead[OF jumps.start]) (simp_all add: elem_def)
  then have "jumps [2, 3, 1, 1, 4] 4 (Suc (Suc 0))" by (rule jumps.ahead) (simp_all add: elem_def)
  then show ?thesis by (simp add: numeral_2_eq_2)
qed

theorem jump_least_witness:
  "\<exists>out k. jump [2, 3, 1, 1, 4] = Some (out, int k) \<and> jumps [2, 3, 1, 1, 4] 4 k \<and> k \<le> 2"
proof -
  have "p \<in> {0, 1, 2, 3, 4}" if "0 \<le> p" "p < 5" for p :: int using that by auto
  then have "\<forall>p. 0 \<le> p \<and> p < int (length [2, 3, 1, 1, 4]) \<longrightarrow> in_i32 (p + elem [2, 3, 1, 1, 4] p)"
    by (fastforce simp: elem_def in_i32_def)
  from jump_least[OF _ _ this, of 2] jumps_example show ?thesis by auto
qed

text \<open>An empty array is read outside its bounds, and a last position that is out of reach is not noticed.\<close>

lemma jump_empty: "jump [] = None"
  by (simp add: jump_def jump_loop.simps rd_def)

lemma jump_unreachable: "jump [0, 1] = Some (''0,1,'' @ [CHR 0x0A], 1)" "\<not> jumps [0, 1] 1 k"
proof -
  show "jump [0, 1] = Some (''0,1,'' @ [CHR 0x0A], 1)"
    by (simp add: jump_def jump_loop.simps rd_def i32_def in_i32_def print_i64_def digits_of.simps)
  have "p \<le> 0" if "jumps [0, 1] p k" for p k
    by (rule stuck[of "[0, 1]" 0 0, OF _ _ _ that]) (auto simp: farthest_def elem_def)
  then show "\<not> jumps [0, 1] 1 k" by fastforce
qed

lemma jump_main_prints: "jump_main = Some (''1,1,1,1,'' @ [CHR 0x0A] @ ''min:3'' @ [CHR 0x0A])"
  by (simp add: jump_main_def jump_def jump_loop.simps rd_def i32_def in_i32_def print_i64_def digits_of.simps)

end
