(* ===== verification/Letter_Combinations.thy ===== *)
theory Letter_Combinations
  imports Prelude
begin

section \<open>Letter combinations of a phone number\<close>

text \<open>
  \<^verbatim>\<open>src/test/17.cc\<close>: the strings that the keys of a telephone can stand for. \<open>core\<close> extends a prefix by
  the letters of every later key, not only of the next one, and runs its inner index over the letters
  of key \<open>i\<close> while it reads those of key \<open>n\<close>; what it collects is decided by the length of the
  result alone. \<open>operator[]\<close> of a string reads the terminating zero at the position after the last
  character, and is undefined beyond it.
\<close>

definition strs :: "string list" where
  "strs = ['''', ''abc'', ''def'', ''ghi'', ''jkl'', ''mno'', ''pqrs'', ''tuv'', ''wxyz'']"

definition char_at :: "string \<Rightarrow> nat \<Rightarrow> char option" where
  "char_at s m = (if m < length s then Some (s ! m) else if m = length s then Some (CHR 0x00) else None)"

text \<open>A loop over a range of indices, with a body that can fail.\<close>

fun loop :: "('a \<Rightarrow> 'b \<Rightarrow> 'b option) \<Rightarrow> 'a list \<Rightarrow> 'b \<Rightarrow> 'b option" where
  "loop f [] s = Some s"
| "loop f (x # xs) s = do { s' \<leftarrow> f x s; loop f xs s' }"

lemma loop_cong [fundef_cong]:
  "xs = ys \<Longrightarrow> s = t \<Longrightarrow> (\<And>x s. x \<in> set ys \<Longrightarrow> f x s = g x s) \<Longrightarrow> loop f xs s = loop g ys t"
proof (induction ys arbitrary: xs s t)
  case (Cons y ys)
  then have "f y t = g y t" by simp
  moreover have "loop f ys = loop g ys" by (intro ext) (simp add: Cons)
  ultimately show ?case using Cons.prems by simp
qed simp

function core :: "string list \<Rightarrow> string list \<Rightarrow> nat \<Rightarrow> nat \<Rightarrow> string \<Rightarrow> string list option" where
  "core res des i j s =
     do {
       res \<leftarrow> loop (\<lambda>n. loop (\<lambda>m res. do { c \<leftarrow> char_at (des ! n) m; core res des (n + 1) m (s @ [c]) })
                       [0..<length (des ! i)])
              [i..<length des] res;
       Some (if length des \<le> length s then res @ [s] else res)
     }"
  by pat_completeness auto
termination
  by (relation "measure (\<lambda>(res, des, i, j, s). length des - i)") auto

declare core.simps [simp del]

fun keys :: "string \<Rightarrow> string list option" where
  "keys [] = Some []"
| "keys (d # ds) = do { ls \<leftarrow> rd strs (int (of_char d) - 49); rest \<leftarrow> keys ds; Some (ls # rest) }"

definition letterCombinations :: "string \<Rightarrow> (string \<times> string list) option" where
  "letterCombinations digits =
     do {
       tmp \<leftarrow> keys digits;
       res \<leftarrow> core [] tmp 0 0 '''';
       Some (concat (map (\<lambda>item. item @ [CHR 0x0A]) res) @ [CHR 0x0A], res)
     }"

definition letters_main :: "string option" where
  "letters_main = do { (out, _) \<leftarrow> letterCombinations ''2''; Some out }"

subsection \<open>The combinations\<close>

text \<open>One letter of each key, in the order of the keys and of their letters.\<close>

fun combos :: "string list \<Rightarrow> string list" where
  "combos [] = ['''']"
| "combos (ls # lss) = concat (map (\<lambda>c. map ((#) c) (combos lss)) ls)"

lemma set_combos: "set (combos lss) = {w. list_all2 (\<lambda>c ls. c \<in> set ls) w lss}"
  by (induction lss) (auto simp: list_all2_Cons2)

lemma distinct_prefixed: "distinct ws \<Longrightarrow> distinct ls \<Longrightarrow> distinct (concat (map (\<lambda>c. map ((#) c) ws) ls))"
  by (induction ls) (auto simp: distinct_map)

lemma distinct_combos: "(\<And>ls. ls \<in> set lss \<Longrightarrow> distinct ls) \<Longrightarrow> distinct (combos lss)"
  by (induction lss) (simp_all add: distinct_prefixed)

lemma loop_skip: "(\<And>x. x \<in> set xs \<Longrightarrow> f x s = Some s) \<Longrightarrow> loop f xs s = Some s"
  by (induction xs) auto

lemma loop_collect:
  "(\<And>x s. x \<in> set xs \<Longrightarrow> f x s = Some (s @ g x)) \<Longrightarrow> loop f xs s = Some (s @ concat (map g xs))"
  by (induction xs arbitrary: s) auto

lemma loop_None: "x \<in> set xs \<Longrightarrow> (\<And>s. f x s = None) \<Longrightarrow> loop f xs s = None"
proof (induction xs arbitrary: s)
  case (Cons y ys)
  then show ?case by (cases "x = y"; cases "f y s") auto
qed simp

text \<open>Keys with three or four letters: an index of one is an index of the other, or the one after its last.\<close>

definition letter_keys :: "string list \<Rightarrow> bool" where
  "letter_keys des \<longleftrightarrow> (\<forall>ls \<in> set des. length ls \<in> {3, 4})"

lemma letter_at:
  assumes "letter_keys des" "i < length des" "n < length des" "m < length (des ! i)"
  obtains c where "char_at (des ! n) m = Some c"
proof -
  have "length (des ! i) \<in> {3, 4}" "length (des ! n) \<in> {3, 4}" using assms by (simp_all add: letter_keys_def)
  then have "m \<le> length (des ! n)" using assms(4) by auto
  then have "char_at (des ! n) m \<noteq> None" by (simp add: char_at_def)
  then show thesis using that by blast
qed

text \<open>A prefix that has skipped a key never becomes long enough.\<close>

lemma core_skips:
  assumes "letter_keys des" "i \<le> length des" "length s + (length des - i) < length des"
  shows "core res des i j s = Some res"
  using assms(2,3)
proof (induction "length des - i" arbitrary: i j s res rule: less_induct)
  case less
  have "loop (\<lambda>m res. do { c \<leftarrow> char_at (des ! n) m; core res des (n + 1) m (s @ [c]) }) [0..<length (des ! i)] res = Some res"
    if n: "n \<in> set [i..<length des]" for n res
  proof (rule loop_skip)
    fix m assume m: "m \<in> set [0..<length (des ! i)]"
    have "i < length des" "n < length des" "m < length (des ! i)" using n m by simp_all
    then obtain c where c: "char_at (des ! n) m = Some c" using letter_at[OF assms(1)] by blast
    have "core res des (n + 1) m (s @ [c]) = Some res"
      using n less.prems by (intro less.hyps) auto
    then show "do { c \<leftarrow> char_at (des ! n) m; core res des (n + 1) m (s @ [c]) } = Some res" by (simp add: c)
  qed
  then have "loop (\<lambda>n. loop (\<lambda>m res. do { c \<leftarrow> char_at (des ! n) m; core res des (n + 1) m (s @ [c]) }) [0..<length (des ! i)])
      [i..<length des] res = Some res" by (rule loop_skip)
  then show ?case using less.prems by (subst core.simps) simp
qed

lemma append_Nil_fun: "(@) [] = (\<lambda>t. t)"
  by auto

lemma append_snoc: "(@) (s @ [c]) = (\<lambda>t. s @ c # t)"
  by auto

lemma core_combos:
  assumes "letter_keys des" "i \<le> length des" "length s = i"
  shows "core res des i j s = Some (res @ map ((@) s) (combos (drop i des)))"
  using assms(2,3)
proof (induction "length des - i" arbitrary: i j s res rule: less_induct)
  case less
  let ?body = "\<lambda>n. loop (\<lambda>m res. do { c \<leftarrow> char_at (des ! n) m; core res des (n + 1) m (s @ [c]) }) [0..<length (des ! i)]"
  show ?case
  proof (cases "i < length des")
    case False
    then show ?thesis using less.prems by (subst core.simps) simp
  next
    case True
    let ?rest = "combos (drop (i + 1) des)"
    have "?body i res = Some (res @ concat (map (\<lambda>m. map ((@) (s @ [des ! i ! m])) ?rest) [0..<length (des ! i)]))"
    proof (rule loop_collect)
      fix m r assume "m \<in> set [0..<length (des ! i)]"
      then have "char_at (des ! i) m = Some (des ! i ! m)" by (simp add: char_at_def)
      moreover have "core r des (i + 1) m (s @ [des ! i ! m]) = Some (r @ map ((@) (s @ [des ! i ! m])) ?rest)"
        using less.prems True by (intro less.hyps) auto
      ultimately show "do { c \<leftarrow> char_at (des ! i) m; core r des (i + 1) m (s @ [c]) } =
          Some (r @ map ((@) (s @ [des ! i ! m])) ?rest)" by simp
    qed
    also have "concat (map (\<lambda>m. map ((@) (s @ [des ! i ! m])) ?rest) [0..<length (des ! i)]) =
        map ((@) s) (combos (drop i des))"
    proof -
      have "concat (map (\<lambda>m. map ((@) (s @ [des ! i ! m])) ?rest) [0..<length (des ! i)]) =
          concat (map (\<lambda>c. map ((@) (s @ [c])) ?rest) (map ((!) (des ! i)) [0..<length (des ! i)]))"
        by (simp add: o_def)
      also have "\<dots> = concat (map (\<lambda>c. map ((@) (s @ [c])) ?rest) (des ! i))" by (simp only: map_nth)
      finally show ?thesis
        unfolding append_snoc using Cons_nth_drop_Suc[OF True, symmetric] by (simp add: map_concat o_def)
    qed
    finally have first: "?body i res = Some (res @ map ((@) s) (combos (drop i des)))" .
    have skip: "loop ?body [i + 1..<length des] r = Some r" for r
    proof (rule loop_skip)
      fix n assume n: "n \<in> set [i + 1..<length des]"
      show "?body n r = Some r"
      proof (rule loop_skip)
        fix m assume "m \<in> set [0..<length (des ! i)]"
        then obtain c where c: "char_at (des ! n) m = Some c" using letter_at[OF assms(1) True, of n m] n by auto
        have "core r des (n + 1) m (s @ [c]) = Some r"
          using n less.prems by (intro core_skips[OF assms(1)]) auto
        then show "do { c \<leftarrow> char_at (des ! n) m; core r des (n + 1) m (s @ [c]) } = Some r" by (simp add: c)
      qed
    qed
    have "[i..<length des] = i # [i + 1..<length des]" using True by (simp add: upt_conv_Cons)
    then show ?thesis using first skip less.prems True by (subst core.simps) simp
  qed
qed

subsection \<open>Properties\<close>

definition keypad :: "char \<Rightarrow> string" where
  "keypad d = strs ! (of_char d - 49)"

lemma keys_value:
  assumes "set digits \<subseteq> set ''123456789''"
  shows "keys digits = Some (map keypad digits)"
  using assms by (induction digits) (auto simp: rd_def keypad_def strs_def)

lemma keypad_letters: "set digits \<subseteq> set ''23456789'' \<Longrightarrow> letter_keys (map keypad digits)"
  by (auto simp: letter_keys_def keypad_def strs_def)

text \<open>For digits from 2 to 9, \<open>letterCombinations\<close> returns and prints every string that takes one
  letter of each key, in order, each of them once; the detours that \<open>core\<close> makes over later keys add
  nothing and stay inside the strings.\<close>

theorem letterCombinations_all:
  assumes "set digits \<subseteq> set ''23456789''"
  shows "letterCombinations digits =
    Some (concat (map (\<lambda>w. w @ [CHR 0x0A]) (combos (map keypad digits))) @ [CHR 0x0A], combos (map keypad digits)) \<and>
    distinct (combos (map keypad digits)) \<and>
    set (combos (map keypad digits)) = {w. list_all2 (\<lambda>c d. c \<in> set (keypad d)) w digits}"
proof -
  have sub: "set digits \<subseteq> set ''123456789''" using assms by auto
  have "core [] (map keypad digits) 0 0 '''' = Some (combos (map keypad digits))"
    using core_combos[OF keypad_letters[OF assms], of 0 "''''" "[]" 0] by (simp add: append_Nil_fun)
  then have "letterCombinations digits =
    Some (concat (map (\<lambda>w. w @ [CHR 0x0A]) (combos (map keypad digits))) @ [CHR 0x0A], combos (map keypad digits))"
    by (simp add: letterCombinations_def keys_value[OF sub])
  moreover have "distinct (combos (map keypad digits))"
    using assms by (intro distinct_combos) (auto simp: keypad_def strs_def)
  moreover have "set (combos (map keypad digits)) = {w. list_all2 (\<lambda>c d. c \<in> set (keypad d)) w digits}"
    by (simp add: set_combos list_all2_map2)
  ultimately show ?thesis by blast
qed

theorem letterCombinations_all_witness:
  "map_option snd (letterCombinations ''23'') = Some [''ad'', ''ae'', ''af'', ''bd'', ''be'', ''bf'', ''cd'', ''ce'', ''cf'']"
  using letterCombinations_all[of "''23''"] by (simp add: keypad_def strs_def)

text \<open>A digit 1, whose key has no letters, after a digit from 2 to 9 makes \<open>core\<close> read beyond the
  end of its empty string.\<close>

theorem digit_one_overruns:
  assumes "set ds \<subseteq> set ''123456789''" "CHR ''1'' \<in> set ds" "d \<in> set ''23456789''"
  shows "letterCombinations (d # ds) = None"
proof -
  let ?des = "map keypad (d # ds)"
  obtain k where k: "k < length ds" "ds ! k = CHR ''1''" using assms(2) by (auto simp: in_set_conv_nth)
  have "1 < length (keypad d)" using assms(3) by (auto simp: keypad_def strs_def)
  moreover have "char_at (?des ! Suc k) 1 = None" using k by (simp add: char_at_def keypad_def strs_def)
  ultimately have inner: "loop (\<lambda>m res. do { c \<leftarrow> char_at (?des ! Suc k) m; core res ?des (Suc k + 1) m ('''' @ [c]) })
      [0..<length (?des ! 0)] r = None" for r
    by (intro loop_None[of 1]) simp_all
  have "loop (\<lambda>n. loop (\<lambda>m res. do { c \<leftarrow> char_at (?des ! n) m; core res ?des (n + 1) m ('''' @ [c]) })
      [0..<length (?des ! 0)]) [0..<length ?des] [] = None"
  proof (rule loop_None[of "Suc k"])
    show "Suc k \<in> set [0..<length ?des]" using k(1) by (simp del: upt_Suc)
  qed (rule inner)
  then have "core [] ?des 0 0 '''' = None" by (subst core.simps) simp
  moreover have "keys (d # ds) = Some ?des" using assms(1,3) by (intro keys_value) auto
  ultimately show ?thesis by (simp add: letterCombinations_def)
qed

theorem digit_one_overruns_witness: "letterCombinations ''213'' = None"
  by (rule digit_one_overruns) simp_all

lemma letters_main_prints: "letters_main = Some (''a'' @ [CHR 0x0A] @ ''b'' @ [CHR 0x0A] @ ''c'' @ [CHR 0x0A, CHR 0x0A])"
proof -
  have "core [] [''abc''] 0 0 '''' = Some (combos [''abc''])"
    using core_combos[of "[''abc'']" 0 "''''" "[]" 0] by (simp add: letter_keys_def)
  then show ?thesis by (simp add: letters_main_def letterCombinations_def rd_def strs_def)
qed

end
