(* ===== verification/Reverse_Number.thy ===== *)
theory Reverse_Number
  imports Decimal
begin

section \<open>Reversing a number\<close>

text \<open>
  \<^verbatim>\<open>src/test/7.cc\<close>: \<open>revertnum\<close> takes the digits of an \<open>int\<close> off from the right and puts them together
  again. Division and remainder truncate, so a negative number keeps its sign; every intermediate
  result has to fit in an \<open>int\<close>.
\<close>

lemma abs_sdiv_less: "x \<noteq> 0 \<Longrightarrow> \<bar>x sdiv 10\<bar> < \<bar>x :: int\<bar>"
  by (auto simp: signed_divide_int_def abs_mult sgn_if)

function revert_loop :: "int \<Rightarrow> int \<Rightarrow> int option" where
  "revert_loop num res =
     (if num = 0 then Some res
      else do {
        let r = num smod 10;
        let num = num sdiv 10;
        res \<leftarrow> i32 (res * 10);
        res \<leftarrow> i32 (res + r);
        revert_loop num res
      })"
  by pat_completeness auto
termination
  by (relation "measure (\<lambda>(num, _). nat \<bar>num\<bar>)") (simp_all add: abs_sdiv_less)

declare revert_loop.simps [simp del]

definition revertnum :: "int \<Rightarrow> (string \<times> int) option" where
  "revertnum num = do { res \<leftarrow> revert_loop num 0; Some (print_i64 res @ [CHR 0x0A], res) }"

definition revert_main :: "string option" where
  "revert_main = do { (out, _) \<leftarrow> revertnum 345678909; Some out }"

text \<open>The digits of a number, read from the right.\<close>

definition reversed :: "nat \<Rightarrow> nat" where
  "reversed n = number_of (rev (digits_of n))"

definition rev_onto :: "nat \<Rightarrow> nat \<Rightarrow> nat" where
  "rev_onto r n = foldl (\<lambda>n c. 10 * n + digit_val c) r (rev (digits_of n))"

lemma reversed_onto: "reversed n = rev_onto 0 n"
  by (simp add: reversed_def rev_onto_def number_of_def)

lemma rev_onto_simps:
  "n < 10 \<Longrightarrow> rev_onto r n = 10 * r + n"
  "\<not> n < 10 \<Longrightarrow> rev_onto r n = rev_onto (10 * r + n mod 10) (n div 10)"
  by (simp_all add: rev_onto_def digits_of.simps[of n])

lemma rev_onto_grows: "10 * r \<le> rev_onto r n"
proof (induction n arbitrary: r rule: digits_of.induct)
  case (1 n)
  show ?case
  proof (cases "n < 10")
    case False
    have "10 * r \<le> 10 * (10 * r + n mod 10)" by simp
    also note 1[OF False, of "10 * r + n mod 10"]
    also note rev_onto_simps(2)[OF False, of r, symmetric]
    finally show ?thesis .
  qed (simp add: rev_onto_simps)
qed

text \<open>The loop on a number of sign \<open>sg\<close>: it returns the reversed number, or it overflows.\<close>

lemma sdiv_sign: "sg \<in> {1, -1} \<Longrightarrow> (sg * int n) sdiv 10 = sg * int (n div 10)"
  by (auto simp: signed_divide_int_def sgn_mult zdiv_int)

lemma smod_sign: "sg \<in> {1, -1} \<Longrightarrow> (sg * int n) smod 10 = sg * int (n mod 10)"
  by (auto simp: signed_modulo_int_def sgn_mult zmod_int abs_mult)

lemma i32_sign_mono:
  assumes "sg \<in> {1, -1}" "a \<le> b"
  shows "in_i32 (sg * int b) \<Longrightarrow> in_i32 (sg * int a)"
  using assms by (auto simp: in_i32_def)

lemma revert_loop_onto:
  assumes sg: "sg \<in> {1, -1}" and n: "0 < n"
  shows "revert_loop (sg * int n) (sg * int r) = i32 (sg * int (rev_onto r n))"
  using n
proof (induction n arbitrary: r rule: less_induct)
  case (less n)
  let ?r = "10 * r + n mod 10"
  define A B where AB: "A = sg * int (10 * r)" "B = sg * int ?r"
  have "sg * int r * 10 = A" "A + sg * int (n mod 10) = B" by (simp_all add: AB distrib_left)
  then have step: "revert_loop (sg * int n) (sg * int r) =
      do { _ \<leftarrow> i32 A; _ \<leftarrow> i32 B; revert_loop (sg * int (n div 10)) B }"
    using sg less.prems
    by (subst revert_loop.simps) (auto simp: sdiv_sign smod_sign Let_def i32_def)
  have mono: "in_i32 B \<Longrightarrow> in_i32 A" unfolding AB by (rule i32_sign_mono[OF sg, of _ ?r]) simp_all
  show ?case
  proof (cases "n < 10")
    case True
    then have "sg * int (rev_onto r n) = B" by (simp add: rev_onto_simps AB)
    then show ?thesis using mono True by (simp add: step i32_def revert_loop.simps[of 0])
  next
    case False
    then have r: "rev_onto r n = rev_onto ?r (n div 10)" by (rule rev_onto_simps)
    have "?r \<le> rev_onto r n" unfolding r by (rule order_trans[OF _ rev_onto_grows]) simp
    then have "in_i32 (sg * int (rev_onto r n)) \<Longrightarrow> in_i32 B"
      unfolding AB by (rule i32_sign_mono[OF sg])
    moreover have "revert_loop (sg * int (n div 10)) B = i32 (sg * int (rev_onto r n))"
      unfolding AB using less.IH[of "n div 10" ?r] False r by simp
    ultimately show ?thesis using mono by (simp add: step i32_def)
  qed
qed

lemma revert_loop_value: "revert_loop num 0 = i32 (sgn num * int (reversed (nat \<bar>num\<bar>)))"
proof (cases "num = 0")
  case True
  then show ?thesis by (simp add: revert_loop.simps i32_def in_i32_def)
next
  case False
  then have "sgn num \<in> {1, -1}" "sgn num * int (nat \<bar>num\<bar>) = num" by (auto simp: sgn_if)
  then show ?thesis using revert_loop_onto[of "sgn num" "nat \<bar>num\<bar>" 0] False by (simp add: reversed_onto)
qed

subsection \<open>Reversing twice\<close>

definition is_digit :: "char \<Rightarrow> bool" where
  "is_digit c \<longleftrightarrow> c \<in> set ''0123456789''"

lemma is_digit_val: "is_digit c \<Longrightarrow> digit_val c < 10 \<and> char_of (48 + digit_val c) = c"
  by (auto simp: is_digit_def digit_val_def)

lemma digit_cases:
  assumes "d < 10"
  shows "is_digit (char_of (48 + d)) \<and> (char_of (48 + d) = CHR ''0'' \<longleftrightarrow> d = (0 :: nat))"
proof -
  have "d \<in> {0, 1, 2, 3, 4, 5, 6, 7, 8, 9}" using assms by auto
  then show ?thesis by (auto simp: is_digit_def)
qed

lemma digits_of_number:
  assumes "list_all is_digit s" "s \<noteq> []" "hd s \<noteq> CHR ''0''"
  shows "digits_of (number_of s) = s"
  using assms
proof (induction s rule: rev_induct)
  case (snoc c s)
  have c: "digit_val c < 10" "char_of (48 + digit_val c) = c" using snoc.prems(1) is_digit_val[of c] by auto
  show ?case
  proof (cases s)
    case Nil
    then show ?thesis using c number_of_snoc[of "[]" c] by (simp add: digits_of.simps[of "digit_val c"])
  next
    case (Cons d t)
    then have ih: "digits_of (number_of s) = s" using snoc by simp
    have "number_of s \<noteq> 0"
    proof
      assume "number_of s = 0"
      then have "s = ''0''" using ih by (simp add: digits_of.simps[of 0])
      then show False using snoc.prems(3) by simp
    qed
    then show ?thesis using c ih by (simp add: digits_of.simps[of "10 * number_of s + digit_val c"])
  qed
qed simp

lemma digits_are_digits: "list_all is_digit (digits_of n)"
proof (induction n rule: digits_of.induct)
  case (1 n)
  then show ?case using digit_cases[of n] digit_cases[of "n mod 10"]
    by (cases "n < 10") (simp_all add: digits_of.simps[of n])
qed

lemma digits_last: "last (digits_of n) = char_of (48 + n mod 10)"
  by (simp add: digits_of.simps[of n])

lemma digits_nonempty [simp]: "digits_of n \<noteq> []"
  by (simp add: digits_of.simps[of n])

lemma reversed_twice:
  assumes "n mod 10 \<noteq> 0"
  shows "reversed (reversed n) = n"
proof -
  have "hd (rev (digits_of n)) \<noteq> CHR ''0''"
    using assms digit_cases[of "n mod 10"] by (simp add: hd_rev digits_last)
  then have "digits_of (reversed n) = rev (digits_of n)"
    unfolding reversed_def using digits_are_digits[of n] by (intro digits_of_number) (simp_all add: list_all_iff)
  then show ?thesis by (simp add: reversed_def)
qed

subsection \<open>Properties\<close>

text \<open>\<open>revertnum\<close> returns and prints the number whose digits are those of its argument from right
  to left, with the sign of the argument, when that number fits in an \<open>int\<close>; otherwise, and only
  then, its arithmetic overflows. It terminates on every argument.\<close>

theorem revertnum_reverses:
  "revertnum num =
     (case i32 (sgn num * int (number_of (rev (digits_of (nat \<bar>num\<bar>))))) of
        None \<Rightarrow> None
      | Some m \<Rightarrow> Some (print_i64 m @ [CHR 0x0A], m))"
  by (simp add: revertnum_def revert_loop_value reversed_def split: option.splits)

text \<open>Reversing a number twice gives the number back, unless its last digit is zero or the
  first reversal overflows.\<close>

theorem revertnum_twice:
  assumes "in_i32 num" "num mod 10 \<noteq> 0" "revertnum num = Some (out, m)"
  shows "revertnum m = Some (print_i64 num @ [CHR 0x0A], num)"
proof -
  let ?n = "nat \<bar>num\<bar>" and ?s = "sgn num"
  have m: "m = ?s * int (reversed ?n)"
    using assms(3) by (auto simp: revertnum_def revert_loop_value i32_def bind_eq_Some_conv split: if_splits)
  have s: "?s \<in> {1, -1}" using assms(2) by (auto simp: sgn_if)
  have "\<not> 10 dvd ?n" using assms(2) by (simp add: mod_eq_0_iff_dvd nat_abs_dvd_iff)
  then have "?n mod 10 \<noteq> 0" by (simp add: mod_eq_0_iff_dvd)
  note twice = reversed_twice[OF this]
  have "reversed ?n \<noteq> 0"
  proof
    assume "reversed ?n = 0"
    then have "?n = reversed 0" using twice by simp
    then show False using assms(2) by (simp add: reversed_def digits_of.simps[of 0] number_of_def digit_val_def)
  qed
  then have "sgn m = ?s" "nat \<bar>m\<bar> = reversed ?n" using s m by (auto simp: sgn_mult abs_mult)
  then have "revert_loop m 0 = i32 (?s * int ?n)" by (simp add: revert_loop_value twice)
  also have "?s * int ?n = num" by (simp add: sgn_mult_abs)
  finally show ?thesis using assms(1) by (simp add: revertnum_def i32_def)
qed

theorem revertnum_twice_witness: "\<exists>out. revertnum (- 120034) = Some (out, - 430021) \<and> revertnum (- 430021) = Some (''-120034'' @ [CHR 0x0A], - 120034)"
proof -
  have "revert_loop (- 120034) 0 = Some (- 430021)"
    by (simp add: revert_loop_value reversed_def digits_of.simps number_of_def digit_val_def i32_def in_i32_def)
  then have "revertnum (- 120034) = Some (print_i64 (- 430021) @ [CHR 0x0A], - 430021)" by (simp add: revertnum_def)
  moreover from this have "revertnum (- 430021) = Some (print_i64 (- 120034) @ [CHR 0x0A], - 120034)"
    by (rule revertnum_twice[rotated 2]) (simp_all add: in_i32_def)
  ultimately show ?thesis by (simp add: print_i64_def digits_of.simps)
qed

lemma revert_main_prints: "revert_main = Some (''909876543'' @ [CHR 0x0A])"
  by (simp add: revert_main_def revertnum_def revert_loop_value reversed_def digits_of.simps number_of_def
      digit_val_def i32_def in_i32_def print_i64_def)

end
