(* ===== verification/Spec2Isabelle.thy ===== *)
theory Spec2Isabelle
  imports Sort_Main Heap_Demo Timer_Demo Timer_Setup Rate_Limiter Pool_Shutdown Sync_Server Chat Socket_Setup
    Lru_Cache Smallest_Pairs Jump_Game Letter_Combinations Reverse_Number
begin

text \<open>
  \<^bold>\<open>What this is.\<close> Models and proofs for the C++ programs of the repository: sorting routines
  (\<^verbatim>\<open>src/sort_algo\<close>), a timer library on top of timerfd and epoll (\<^verbatim>\<open>src/timerfd\<close>), a rate limiter
  (\<^verbatim>\<open>src/tools/rate_limiter\<close>), a thread pool (\<^verbatim>\<open>src/include/threadpool.h\<close>) and its variant for servers, a
  file server with its client (\<^verbatim>\<open>src/tools/sync_file\<close>), an echo server with its client
  (\<^verbatim>\<open>src/socket/epoll\<close>), chat programs (\<^verbatim>\<open>src/socket/select\<close>), and five algorithmic exercises, an LRU
  cache among them (\<^verbatim>\<open>src/test\<close>). Functions of the source are functions
  here, with the source's names (\<open>ParititionSort\<close>, \<open>Aquire\<close> and \<open>Destory\<close> are spelled as there); objects
  with identity live in explicit stores; undefined behaviour, failed assertions and exceptions are
  values of the type \<open>fault\<close> of \<open>Prelude\<close>.

  \<^bold>\<open>The theories.\<close>
  \<^item> \<open>Prelude\<close>: integers of fixed width with overflow as failure, faults and results, runs of operations
    (\<open>steps\<close>), and the two interfaces that the components share: \<open>safe_ops\<close>, operations that keep an
    invariant and fail in allowed ways only, and its extension \<open>refining_ops\<close>, operations that
    also implement a functional specification of an abstraction of the state.
  \<^item> \<open>Sort_Spec\<close> (arrays with checked indices, what sorting means, the interfaces \<open>prefix_sort\<close> and
    \<open>range_sort\<close>), \<open>Exchange_Sorts\<close>, \<open>Merge_Sort\<close>, \<open>Quick_Sort\<close>, \<open>Heap_Sort\<close> (one theory per routine),
    \<open>Sort_Main\<close> (the programs and the properties). Loops whose end depends on the range are partial
    functions, and the properties state that they return.
  \<^item> \<open>Heap_Demo\<close>: \<^verbatim>\<open>use_heap.cc\<close>, with the library's heap functions as parameters.
  \<^item> \<open>Decimal\<close>: numbers as text, shared by everything that prints. \<open>Double\<close>: IEEE doubles as
    rational numbers with rounding to 53 bits, infinities and NaN.
    \<open>Timer_Stamp\<close>: \<open>TimerStamp\<close>. \<open>Timer_Format\<close>: calendar dates, \<open>gmtime\<close> and \<open>ToFormattedString\<close>.
    \<open>Timer_Queue\<close>: \<open>Timer\<close> and \<open>TimerQueue\<close>, with timers in a store, the set
    \<open>timers_\<close> as a sorted list and the kernel's timer as part of the state; callbacks are programs
    that call the timer interface again. \<open>Timer_Queue_Inv\<close>, \<open>Timer_Queue_Fire\<close>, \<open>Timer_Queue_Wake\<close>: the
    invariant that the containers and the live timers agree, what one expiry does, and that no timer
    is left without a wake-up. \<open>Timer_Queue_Props\<close>: the properties of the queue.
  \<^item> \<open>Timer_Channel\<close>: \<open>ChannelTimer\<close> and \<open>EpollTimer\<close> with the kernel's interest list.
    \<open>Timer_Loop\<close>: \<open>TimerEventMgr\<close>, its loop thread step by step and the calls of other threads; its runs
    are shown to be runs of the queue. \<open>Timer_Setup\<close>: the three descriptors of the library, from the constructors to
    the destructors. \<open>Timer_Demo\<close>: \<^verbatim>\<open>test_main.cpp\<close>.
  \<^item> \<open>Rate_Limiter\<close>: \<open>TokenBucketRateLimiter\<close>, \<open>OrderController\<close> and the program.
  \<^item> \<open>Thread_Pool\<close>: the plain pool as interleaved atomic actions of workers, clients and the thread that
    destroys it. \<open>Fd_Pool\<close>: the queue of the servers' pool with its map from descriptors to list
    iterators, shown to implement a plain queue. \<open>Server_Pool\<close>: the servers' pool as a whole, the threads of the
    plain pool over that queue, with descriptors being closed in between. \<open>Pool_Shutdown\<close>: the end of both pools,
    through the interface \<open>pool_runs\<close> of a program around a pool: how many actions the workers and the join still have.
  \<^item> \<open>Epoll_Socket\<close>: \<open>RecvSocket\<close>, \<open>SendSocket\<close>, \<open>RecvBuff\<close>, \<open>SendBuff\<close>, and the interface
    \<open>message_channel\<close>, which \<open>Sync_File\<close> (\<open>SyncFileTool\<close>) uses for the loops of a transfer.
    \<open>Sync_Server\<close>: the event loop of the server with its pool, and the client's program.
  \<^item> \<open>Echo_Server\<close> and \<open>Chat\<close>: the programs of \<^verbatim>\<open>src/socket\<close>. \<open>Descriptors\<close>: the
    kernel's table of descriptors and the calls on it. \<open>Socket_Setup\<close>: the server and client objects from constructor to
    destructor over that table, how the three servers start and their clients connect, with the interface \<open>startup\<close>
    between a server and a client, and what the event loops do to descriptors.
  \<^item> \<open>Lru_Cache\<close> (\<^verbatim>\<open>146.cc\<close>): nodes in a store, linked both ways, with the map from keys to nodes; shown to
    implement a list of entries. \<open>Smallest_Pairs\<close> (\<^verbatim>\<open>373.cc\<close>), \<open>Jump_Game\<close> (\<^verbatim>\<open>45.cc\<close>), \<open>Letter_Combinations\<close>
    (\<^verbatim>\<open>17.cc\<close>), \<open>Reverse_Number\<close> (\<^verbatim>\<open>7.cc\<close>): each function against what it is to compute.

  \<^bold>\<open>How the parts meet.\<close> Callbacks of timers reach the queue through the functions of \<open>TimerEventMgr\<close>;
  the loop reaches it through the timer channel. The servers hand tasks to \<open>Fd_Pool\<close> and take them off
  when a descriptor closes. A transfer is stated for both ends at once: each end's incoming bytes
  are what the other end has written.

  \<^bold>\<open>What the properties show.\<close> The sorting routines return, stay inside the array, and sort exactly
  the range they are given; they equal a reference sort and so each other. The timer queue never uses a
  freed timer and keeps its containers in agreement, whatever callbacks do, except for the faults that
  the properties name; due timers fire once, in order, repeating ones are rescheduled, and a timer in
  the queue always has an expiration pending or the descriptor armed in time; the loop of the manager
  preserves all of this and runs the due timers. Channels and the kernel's interest list agree. The rate limiter
  always answers, grants exactly when its next free time has come, and serves patient clients; the
  pools run tasks in order, lose no wake-up while they run, and count their idle threads; closing a descriptor
  loses its own queued tasks and no others, and no iterator is used after its node is gone. Messages and
  files arrive whole, however the kernel cuts them and however the server interleaves its clients. The echo server answers the
  messages of every client in order, when each call moves all of its bytes; what a client makes of the replies is undefined. A text typed at the
  chat server is printed by every client that receives what one call sent with one call. The LRU cache (of any capacity but
  0) does not fault on a run of its operations and holds the keys that a cache of the most recently used entries would, and
  their values too as long as no \<open>put\<close> changes one; the other exercises compute the least number of jumps,
  the pairs with the smallest sums whichever least pair the priority queue offers, all letter
  combinations, and the reversed number. A printed date reads back as the time it was printed for. Several properties state how the code fails: stopping an inactive timer while
  callbacks run, a limit of zero, destroying a pool, requests that are too long, tasks that outlive the
  variables they refer to, messages that arrive in pieces, a client that has gone while it is sent to, a cache that keeps an
  old value or is destroyed, a server that ends before its epoll descriptor exists. The event loops of the servers keep open and
  watch exactly the connections that clients have made and not closed; a pool that is destroyed ends after at most eight actions of each worker unless one was going to sleep;
  at their end the servers have closed all they made but those connections, the timer library all but its epoll descriptor, and,
  if nobody has called \<open>Destory\<close>, its event descriptor.

  \<^bold>\<open>Environment, bounds and scripts.\<close> The readings of the clock, the addresses that \<open>new\<close> returns and
  what callbacks do are arguments of the timer models. Sockets carry scripts of what the kernel does in
  successive calls; a call that outlasts its script has the value \<open>StillWaiting\<close>, and the properties say
  how many calls are enough. Writing to a peer that has closed ends the process by \<open>SIGPIPE\<close> (\<open>Killed\<close>), as
  no program handles it. Array lengths are at most $2^{30}$ in the sorting properties, so that
  index sums fit in an \<open>int\<close>; files have at most $2048 \cdot (2^{31} - 1)$ bytes, as the number of chunks is
  an \<open>int\<close>. The generated protobuf code is a parameter (\<open>protocol\<close>), of which nothing is assumed but
  that a reply fits in one call. Of the LRU cache's memory it is asked only that \<open>new\<close> succeeds while fewer nodes than
  the capacity are in use (\<open>allocator\<close>), of the priority queue that nothing comes before its top (\<open>top_ok\<close>), of the
  heap functions what the standard says (\<open>heap_functions_ok\<close>).

  \<^bold>\<open>Limits of the models.\<close> The wall clock that the timer code reads and the monotonic clock of the timer
  descriptor are one clock. Calls into the timer queue from other threads happen between steps of the
  loop: the code does not synchronise them. The counter of timers does not wrap. \<open>InitThreadSize\<close> and
  \<open>Destory\<close> of the pool do not overlap. Output is modelled where it is what a program is for, log lines
  are not. Each pass of a thread of the chat server is one step, so its unsynchronised list is not raced. The free descriptor that
  the kernel hands out next is the lowest. A double is exact in value; the sign of zero is not kept.

  \<^bold>\<open>Not modelled.\<close> The generated \<^verbatim>\<open>echo.pb.cc\<close>; the random engine that picks a client's number, whose result is an
  argument; what the timer library does after \<open>timerfd_create\<close> has failed; declarations in headers that have
  no code. \<^verbatim>\<open>src/socket/epoll/threadpool.h\<close> equals
  \<^verbatim>\<open>src/tools/sync_file/epoll_socket/threadpool.h\<close> but for the include guard and is covered by \<open>Fd_Pool\<close>, \<open>Server_Pool\<close> and \<open>Pool_Shutdown\<close>.
\<close>

end
